(* ===== verification/Aeon_Prelude.thy ===== *)
theory Aeon_Prelude
  imports Main "HOL-Library.Word" "HOL-Library.AList" "HOL-Library.List_Lexorder"
begin

text \<open>
  Shared vocabulary of the development: the machine integers of the Rust sources, results that
  may fail, little- and big-endian byte encodings, the two map types of the standard library
  (\<open>HashMap\<close> as an association list in iteration order, \<open>BTreeMap\<close> as a strictly sorted
  association list) behind one interface, and the list lemmas several components need.

  Conventions.  \<open>u8\<close> to \<open>u64\<close> are words, so \<open>+\<close> and \<open>-\<close> wrap the way the release
  profile of the workspace does (it sets no \<open>overflow-checks\<close>).  \<open>i64\<close> is the same 64-bit
  pattern read with \<^term>\<open>sint\<close>, so the casts \<open>as i64\<close> and \<open>as u64\<close> are the identity.
  \<open>usize\<close> counts of in-memory collections are \<^typ>\<open>nat\<close>.
\<close>

named_theorems wire_simps \<open>byte-level encodings\<close>
named_theorems map_simps \<open>lookup after an update of a modelled map\<close>
named_theorems inv_intros \<open>preservation of component invariants\<close>

type_synonym u8 = "8 word"
type_synonym u16 = "16 word"
type_synonym u32 = "32 word"
type_synonym u64 = "64 word"
type_synonym i64 = "64 word"
type_synonym bytes = "u8 list"

section \<open>Results\<close>

text \<open>\<open>Result\<close> is a sum with the error on the left; \<open>?\<close> is \<open>rbind\<close>.\<close>

definition rbind :: "'e + 'a \<Rightarrow> ('a \<Rightarrow> 'e + 'b) \<Rightarrow> 'e + 'b" where
  "rbind m f = (case m of Inl e \<Rightarrow> Inl e | Inr x \<Rightarrow> f x)"

lemma rbind_simps [simp]:
  "rbind (Inl e) f = Inl e"
  "rbind (Inr x) f = f x"
  by (simp_all add: rbind_def)

lemma rbind_Inr_conv: "rbind m f = Inr y \<longleftrightarrow> (\<exists>x. m = Inr x \<and> f x = Inr y)"
  by (cases m) auto

definition ok_or :: "'e \<Rightarrow> 'a option \<Rightarrow> 'e + 'a" where
  "ok_or e x = (case x of None \<Rightarrow> Inl e | Some y \<Rightarrow> Inr y)"

lemma ok_or_simps [simp]:
  "ok_or e None = Inl e"
  "ok_or e (Some y) = Inr y"
  by (simp_all add: ok_or_def)

text \<open>\<open>iter().map(f).collect::<Result<Vec<_>, _>>()\<close>: the first error wins.\<close>

fun collect_results :: "('a \<Rightarrow> 'e + 'b) \<Rightarrow> 'a list \<Rightarrow> 'e + 'b list" where
  "collect_results f [] = Inr []"
| "collect_results f (x # xs) =
     rbind (f x) (\<lambda>y. rbind (collect_results f xs) (\<lambda>ys. Inr (y # ys)))"

lemma collect_results_map:
  "(\<And>x. x \<in> set xs \<Longrightarrow> f x = Inr (g x)) \<Longrightarrow> collect_results f xs = Inr (map g xs)"
  by (induction xs) auto

lemma collect_results_Inr_length:
  "collect_results f xs = Inr ys \<Longrightarrow> length ys = length xs"
  by (induction xs arbitrary: ys) (auto simp: rbind_Inr_conv)

lemma collect_results_Inr_nth:
  "collect_results f xs = Inr ys \<Longrightarrow> i < length xs \<Longrightarrow> f (xs ! i) = Inr (ys ! i)"
proof (induction xs arbitrary: ys i)
  case Nil
  then show ?case by simp
next
  case (Cons x xs)
  then show ?case by (cases i) (auto simp: rbind_Inr_conv)
qed

section \<open>Byte encodings of unsigned integers\<close>

text \<open>\<open>to_le_bytes\<close> / \<open>from_le_bytes\<close> for an \<open>n\<close>-byte integer.\<close>

primrec nat_le_bytes :: "nat \<Rightarrow> nat \<Rightarrow> bytes" where
  "nat_le_bytes 0 x = []"
| "nat_le_bytes (Suc n) x = of_nat x # nat_le_bytes n (x div 256)"

primrec le_bytes_nat :: "bytes \<Rightarrow> nat" where
  "le_bytes_nat [] = 0"
| "le_bytes_nat (b # bs) = unat b + 256 * le_bytes_nat bs"

text \<open>\<open>to_be_bytes\<close> / \<open>from_be_bytes\<close>.\<close>

primrec nat_be_bytes :: "nat \<Rightarrow> nat \<Rightarrow> bytes" where
  "nat_be_bytes 0 x = []"
| "nat_be_bytes (Suc n) x = of_nat (x div 256 ^ n) # nat_be_bytes n (x mod 256 ^ n)"

primrec be_bytes_nat :: "bytes \<Rightarrow> nat" where
  "be_bytes_nat [] = 0"
| "be_bytes_nat (b # bs) = unat b * 256 ^ length bs + be_bytes_nat bs"

lemma length_nat_le_bytes [simp]: "length (nat_le_bytes n x) = n"
  by (induction n arbitrary: x) auto

lemma length_nat_be_bytes [simp]: "length (nat_be_bytes n x) = n"
  by (induction n arbitrary: x) auto

lemma unat_of_nat_u8 [simp]: "unat (of_nat x :: u8) = x mod 256"
  by (simp add: unat_of_nat)

lemma of_nat_word_inject:
  "i < 2 ^ LENGTH('a) \<Longrightarrow> j < 2 ^ LENGTH('a) \<Longrightarrow> (of_nat i :: 'a::len word) = of_nat j \<longleftrightarrow> i = j"
  by (simp add: word_of_nat_eq_iff take_bit_nat_eq_self)

lemma of_nat_inj_below: "inj_on (of_nat :: nat \<Rightarrow> 'a::len word) {0..<unat (w :: 'a word)}"
proof (rule inj_onI)
  fix i j
  assume *: "i \<in> {0..<unat w}" "j \<in> {0..<unat w}" "(of_nat i :: 'a word) = of_nat j"
  have "unat w < 2 ^ LENGTH('a)" by (rule unsigned_less)
  with * show "i = j" using of_nat_word_inject [where 'a = 'a, of i j] by simp
qed

lemma unat_u8_less: "unat (b :: u8) < 256"
  using unsigned_less [where 'a = nat, of b] by simp

lemma unat_u64_less: "unat (c :: u64) < 256 ^ 8"
  using unsigned_less [where 'a = nat, of c] by simp

lemma le_bytes_nat_inverse: "le_bytes_nat (nat_le_bytes n x) = x mod 256 ^ n"
proof (induction n arbitrary: x)
  case 0
  then show ?case by simp
next
  case (Suc n)
  have "x mod 256 ^ Suc n = x mod 256 + 256 * (x div 256 mod 256 ^ n)"
    by (simp add: mod_mult2_eq mult.commute)
  with Suc show ?case by simp
qed

lemma be_bytes_nat_inverse: "x < 256 ^ n \<Longrightarrow> be_bytes_nat (nat_be_bytes n x) = x"
proof (induction n arbitrary: x)
  case 0
  then show ?case by simp
next
  case (Suc n)
  have "x div 256 ^ n < 256"
    using Suc.prems by (simp add: less_mult_imp_div_less mult.commute)
  moreover have "be_bytes_nat (nat_be_bytes n (x mod 256 ^ n)) = x mod 256 ^ n"
    by (rule Suc.IH) simp
  ultimately show ?case by (simp add: div_mult_mod_eq)
qed

lemma be_bytes_nat_less: "be_bytes_nat bs < 256 ^ length bs"
proof (induction bs)
  case Nil
  then show ?case by simp
next
  case (Cons b bs)
  have "unat b \<le> 255" using unat_u8_less [of b] by linarith
  then have "unat b * 256 ^ length bs \<le> 255 * 256 ^ length bs" by (rule mult_right_mono) simp
  with Cons.IH show ?case unfolding be_bytes_nat.simps length_Cons power_Suc by linarith
qed

lemma le_bytes_nat_less: "le_bytes_nat bs < 256 ^ length bs"
proof (induction bs)
  case Nil
  then show ?case by simp
next
  case (Cons b bs)
  have "unat b < 256" by (rule unat_u8_less)
  with Cons.IH show ?case unfolding le_bytes_nat.simps length_Cons power_Suc by linarith
qed

lemma nat_le_bytes_inverse: "nat_le_bytes (length bs) (le_bytes_nat bs) = bs"
proof (induction bs)
  case Nil
  then show ?case by simp
next
  case (Cons b bs)
  have "unat b < 256" by (rule unat_u8_less)
  moreover have "(of_nat (unat b + 256 * m) :: u8) = b" for m
    by (rule unsigned_word_eqI [where 'a = nat], unfold unat_of_nat_u8) (simp add: unat_u8_less)
  ultimately show ?case using Cons by simp
qed

lemma nat_be_bytes_inverse: "nat_be_bytes (length bs) (be_bytes_nat bs) = bs"
proof (induction bs)
  case Nil
  then show ?case by simp
next
  case (Cons b bs)
  then show ?case using be_bytes_nat_less [of bs] by simp
qed

text \<open>The fixed widths the wire formats use.\<close>

definition u16_to_le :: "u16 \<Rightarrow> bytes" where "u16_to_le w = nat_le_bytes 2 (unat w)"
definition u16_from_le :: "bytes \<Rightarrow> u16" where "u16_from_le bs = of_nat (le_bytes_nat bs)"
definition u32_to_le :: "u32 \<Rightarrow> bytes" where "u32_to_le w = nat_le_bytes 4 (unat w)"
definition u32_from_le :: "bytes \<Rightarrow> u32" where "u32_from_le bs = of_nat (le_bytes_nat bs)"
definition u64_to_le :: "u64 \<Rightarrow> bytes" where "u64_to_le w = nat_le_bytes 8 (unat w)"
definition u64_from_le :: "bytes \<Rightarrow> u64" where "u64_from_le bs = of_nat (le_bytes_nat bs)"
definition u64_to_be :: "u64 \<Rightarrow> bytes" where "u64_to_be w = nat_be_bytes 8 (unat w)"
definition u64_from_be :: "bytes \<Rightarrow> u64" where "u64_from_be bs = of_nat (be_bytes_nat bs)"

lemma length_to_bytes [simp]:
  "length (u16_to_le a) = 2" "length (u32_to_le b) = 4"
  "length (u64_to_le c) = 8" "length (u64_to_be c) = 8"
  by (simp_all add: u16_to_le_def u32_to_le_def u64_to_le_def u64_to_be_def)

lemma unat_mod_width:
  "unat (a :: u16) mod 256 ^ 2 = unat a" "unat (b :: u32) mod 256 ^ 4 = unat b"
  "unat (c :: u64) mod 256 ^ 8 = unat c"
  using unsigned_less [where 'a = nat, of a] unsigned_less [where 'a = nat, of b]
    unsigned_less [where 'a = nat, of c]
  by (simp_all add: mod_less)

lemma from_le_to_le [simp, wire_simps]:
  "u16_from_le (u16_to_le a) = a"
  "u32_from_le (u32_to_le b) = b"
  "u64_from_le (u64_to_le c) = c"
  unfolding u16_to_le_def u16_from_le_def u32_to_le_def u32_from_le_def
      u64_to_le_def u64_from_le_def le_bytes_nat_inverse unat_mod_width
  by simp_all

lemma from_be_to_be [simp, wire_simps]: "u64_from_be (u64_to_be c) = c"
proof -
  have "unat c < 256 ^ 8" by (rule unat_u64_less)
  then show ?thesis by (simp add: u64_to_be_def u64_from_be_def be_bytes_nat_inverse)
qed

lemma to_le_from_le:
  "length bs = 2 \<Longrightarrow> u16_to_le (u16_from_le bs) = bs"
  "length bs = 4 \<Longrightarrow> u32_to_le (u32_from_le bs) = bs"
  "length bs = 8 \<Longrightarrow> u64_to_le (u64_from_le bs) = bs"
  unfolding u16_to_le_def u16_from_le_def u32_to_le_def u32_from_le_def u64_to_le_def u64_from_le_def
  using le_bytes_nat_less [of bs] nat_le_bytes_inverse [of bs]
  by (simp_all add: unat_of_nat mod_less)

lemma to_be_from_be: "length bs = 8 \<Longrightarrow> u64_to_be (u64_from_be bs) = bs"
  unfolding u64_to_be_def u64_from_be_def
  using be_bytes_nat_less [of bs] nat_be_bytes_inverse [of bs]
  by (simp add: unat_of_nat mod_less)

text \<open>Big-endian keys sort like the numbers they encode.\<close>

lemma nat_less_div_mod:
  fixes x y p :: nat
  shows "x < y \<longleftrightarrow> x div p < y div p \<or> x div p = y div p \<and> x mod p < y mod p"
proof
  assume "x < y"
  then have "x div p \<le> y div p" by (simp add: div_le_mono)
  moreover have "x mod p < y mod p" if "x div p = y div p"
    using \<open>x < y\<close> that by (metis div_mult_mod_eq nat_add_left_cancel_less)
  ultimately show "x div p < y div p \<or> x div p = y div p \<and> x mod p < y mod p" by linarith
next
  assume "x div p < y div p \<or> x div p = y div p \<and> x mod p < y mod p"
  then show "x < y"
    by (metis div_le_mono div_mult_mod_eq leD le_less_linear nat_add_left_cancel_less)
qed

lemma nat_be_bytes_less:
  "x < 256 ^ n \<Longrightarrow> y < 256 ^ n \<Longrightarrow> nat_be_bytes n x < nat_be_bytes n y \<longleftrightarrow> x < y"
proof (induction n arbitrary: x y)
  case 0
  then show ?case by simp
next
  case (Suc n)
  let ?p = "256 ^ n :: nat"
  have hi: "x div ?p < 256" "y div ?p < 256"
    using Suc.prems by (simp_all add: less_mult_imp_div_less mult.commute)
  then have lt: "(of_nat (x div ?p) :: u8) < of_nat (y div ?p) \<longleftrightarrow> x div ?p < y div ?p"
    and eq: "(of_nat (x div ?p) :: u8) = of_nat (y div ?p) \<longleftrightarrow> x div ?p = y div ?p"
    by (simp_all add: word_less_nat_alt word_unat_eq_iff)
  have "nat_be_bytes n (x mod ?p) < nat_be_bytes n (y mod ?p) \<longleftrightarrow> x mod ?p < y mod ?p"
    by (rule Suc.IH) simp_all
  moreover have "x < y \<longleftrightarrow> x div ?p < y div ?p \<or> x div ?p = y div ?p \<and> x mod ?p < y mod ?p"
    by (rule nat_less_div_mod)
  ultimately show ?case by (simp add: lt eq Cons_less_Cons)
qed

lemma u64_to_be_less [simp]: "u64_to_be a < u64_to_be b \<longleftrightarrow> a < b"
  by (simp add: u64_to_be_def nat_be_bytes_less unat_u64_less [simplified] word_less_nat_alt
      del: nat_be_bytes.simps)

lemma u64_to_be_inject [simp]: "u64_to_be a = u64_to_be b \<longleftrightarrow> a = b"
  by (metis from_be_to_be)

lemma le_less_succ:
  fixes i x :: u64
  assumes "i \<le> x" and "x \<noteq> -1"
  shows "i < x + 1"
proof -
  have "1 + x \<noteq> 0" using assms(2) by (metis add.commute add_eq_0_iff2)
  then have "unat (x + 1) = Suc (unat x)" using unatSuc [of x] by (simp add: add.commute)
  then show ?thesis using assms(1) by (simp add: word_less_nat_alt word_le_nat_alt)
qed

text \<open>\<open>saturating_add\<close> and \<open>saturating_sub\<close>.\<close>

definition saturating_add :: "'w::len word \<Rightarrow> 'w word \<Rightarrow> 'w word" where
  "saturating_add a b = (if a \<le> a + b then a + b else -1)"

definition saturating_sub :: "'w::len word \<Rightarrow> 'w word \<Rightarrow> 'w word" where
  "saturating_sub a b = (if b \<le> a then a - b else 0)"

section \<open>Slices\<close>

text \<open>\<open>&data[a..b]\<close>; callers establish \<open>a \<le> b \<le> data.len()\<close>, where Rust would panic.\<close>

definition subslice :: "'a list \<Rightarrow> nat \<Rightarrow> nat \<Rightarrow> 'a list" where
  "subslice xs a b = take (b - a) (drop a xs)"

lemma slice_append_left [simp]: "subslice (xs @ ys @ zs) (length xs) (length xs + length ys) = ys"
  by (simp add: subslice_def)

lemma slice_at: "a = length xs \<Longrightarrow> b = length xs + length ys \<Longrightarrow> subslice (xs @ ys @ zs) a b = ys"
  by simp

lemma length_slice [simp]: "b \<le> length xs \<Longrightarrow> length (subslice xs a b) = b - a"
  by (simp add: subslice_def)

lemma slice_split:
  assumes "a \<le> b" "b \<le> c"
  shows "subslice xs a c = subslice xs a b @ subslice xs b c"
proof -
  have "c - a = (b - a) + (c - b)" using assms by simp
  then have "subslice xs a c = take (b - a) (drop a xs) @ take (c - b) (drop (b - a) (drop a xs))"
    unfolding subslice_def by (simp only: take_add)
  then show ?thesis using assms by (simp add: subslice_def)
qed

section \<open>Length fields and checksums\<close>

text \<open>\<open>len() as u32\<close> keeps the length of a list that fits; a byte sum stands for a checksum in examples.\<close>

definition fits_u32 :: "'a list \<Rightarrow> bool" where
  "fits_u32 xs \<longleftrightarrow> length xs < 2 ^ 32"

lemma unat_len_u32: "fits_u32 xs \<Longrightarrow> unat (of_nat (length xs) :: u32) = length xs"
  by (simp add: fits_u32_def unat_of_nat)

definition sum_crc :: "bytes \<Rightarrow> u32" where
  "sum_crc bs = of_nat (sum_list (map unat bs))"

section \<open>Sorting and removing duplicates\<close>

text \<open>\<open>sort_unstable\<close> followed by \<open>dedup\<close> gives the strictly ascending list of the elements.\<close>

lemma strict_sorted_remdups_adj: "sorted xs \<Longrightarrow> sorted_wrt (<) (remdups_adj (xs :: 'a::linorder list))"
  by (induction xs rule: remdups_adj.induct) (auto simp: less_le)

lemma sort_dedup:
  fixes xs :: "'a::linorder list"
  shows "sorted_wrt (<) (remdups_adj (sort xs))" and "distinct (remdups_adj (sort xs))"
    and "set (remdups_adj (sort xs)) = set xs" and "length (remdups_adj (sort xs)) = card (set xs)"
proof -
  show *: "sorted_wrt (<) (remdups_adj (sort xs))" by (rule strict_sorted_remdups_adj) simp
  then show "distinct (remdups_adj (sort xs))" by (simp add: strict_sorted_iff)
  then show "length (remdups_adj (sort xs)) = card (set xs)" by (metis distinct_card remdups_adj_set set_sort)
qed simp

section \<open>Signed readings of 64-bit words\<close>

lemma sint_nonneg_uint: "0 \<le> sint (a :: u64) \<Longrightarrow> uint a = sint a"
proof -
  assume "0 \<le> sint a"
  moreover have "sint a < 2 ^ 64" using sint_lt [of a] by simp
  ultimately have "take_bit 64 (sint a) = sint a" by (simp add: take_bit_int_eq_self)
  then show ?thesis by (simp add: uint_sint)
qed

lemma sint_mono_unsigned: "0 \<le> sint (a :: u64) \<Longrightarrow> sint a \<le> sint b \<Longrightarrow> a \<le> b"
  using sint_nonneg_uint [of a] sint_nonneg_uint [of b] by (simp add: word_le_def)

section \<open>Decimal text\<close>

text \<open>\<open>{}\<close> of an unsigned integer.\<close>

definition digit_char :: "nat \<Rightarrow> char" where
  "digit_char d = char_of (48 + d)"

fun show_nat :: "nat \<Rightarrow> string" where
  "show_nat n = (if n < 10 then [digit_char n] else show_nat (n div 10) @ [digit_char (n mod 10)])"

declare show_nat.simps [simp del]

lemma show_nat_small: "n < 10 \<Longrightarrow> show_nat n = [digit_char n]"
  by (subst show_nat.simps) simp

lemma show_nat_large: "\<not> n < 10 \<Longrightarrow> show_nat n = show_nat (n div 10) @ [digit_char (n mod 10)]"
  by (subst show_nat.simps) simp

definition digit_val :: "char \<Rightarrow> nat option" where
  "digit_val c = (let n = of_char c in if 48 \<le> n \<and> n \<le> 57 then Some (n - 48) else None)"

fun parse_digits :: "nat \<Rightarrow> string \<Rightarrow> nat option" where
  "parse_digits acc [] = Some acc"
| "parse_digits acc (c # cs) =
     (case digit_val c of None \<Rightarrow> None | Some d \<Rightarrow> parse_digits (10 * acc + d) cs)"

lemma digit_val_char [simp]: "d < 10 \<Longrightarrow> digit_val (digit_char d) = Some d"
  by (simp add: digit_val_def digit_char_def)

lemma parse_digits_append:
  "parse_digits acc (xs @ ys) = (case parse_digits acc xs of None \<Rightarrow> None | Some a \<Rightarrow> parse_digits a ys)"
  by (induction acc xs rule: parse_digits.induct) (auto split: option.splits)

lemma parse_show_nat: "parse_digits 0 (show_nat n) = Some n"
proof (induction n rule: show_nat.induct)
  case (1 n)
  show ?case
  proof (cases "n < 10")
    case True
    then show ?thesis by (simp add: show_nat_small)
  next
    case False
    then show ?thesis using 1 by (simp add: show_nat_large parse_digits_append)
  qed
qed

lemma show_nat_nonempty: "show_nat n \<noteq> []"
  by (cases "n < 10") (simp_all add: show_nat_small show_nat_large)

lemma show_nat_digits: "\<forall>c \<in> set (show_nat n). digit_val c \<noteq> None"
proof (induction n rule: show_nat.induct)
  case (1 n)
  then show ?case by (cases "n < 10") (simp_all add: show_nat_small show_nat_large)
qed

lemma show_nat_inject: "show_nat m = show_nat n \<Longrightarrow> m = n"
  by (metis option.inject parse_show_nat)

end
