(* ===== verification/Aeon_Maps.thy ===== *)
theory Aeon_Maps
  imports Aeon_Prelude
begin

text \<open>
  The standard library's two maps.  A \<open>HashMap\<close> (and a \<open>DashMap\<close> seen by one thread) is an
  association list with distinct keys whose order is its iteration order; Rust leaves that order
  unspecified and seeds it per process, so a statement that must not depend on it quantifies over
  every list with the same \<^term>\<open>map_of\<close>.  A \<open>BTreeMap\<close> is an association list sorted strictly
  by key.  Both interpret the locale \<open>key_value\<close>, where the facts about loops of insertions and
  removals are proved once.
\<close>

section \<open>The interface\<close>

locale key_value =
  fixes lookup :: "'m \<Rightarrow> 'k \<Rightarrow> 'v option"
    and insert_kv :: "'k \<Rightarrow> 'v \<Rightarrow> 'm \<Rightarrow> 'm"
    and remove_k :: "'k \<Rightarrow> 'm \<Rightarrow> 'm"
    and keys :: "'m \<Rightarrow> 'k list"
    and invar :: "'m \<Rightarrow> bool"
  assumes lookup_insert: "lookup (insert_kv k v m) = (lookup m)(k \<mapsto> v)"
    and lookup_remove: "lookup (remove_k k m) = (lookup m)(k := None)"
    and set_keys: "set (keys m) = dom (lookup m)"
    and distinct_keys: "invar m \<Longrightarrow> distinct (keys m)"
    and invar_insert: "invar m \<Longrightarrow> invar (insert_kv k v m)"
    and invar_remove: "invar m \<Longrightarrow> invar (remove_k k m)"
begin

lemma lookup_fold_insert:
  "lookup (fold (\<lambda>(k, v). insert_kv k v) kvs m) = lookup m ++ map_of (rev kvs)"
  by (induction kvs arbitrary: m) (auto simp: lookup_insert map_add_def fun_eq_iff split: option.splits)

lemma invar_fold_insert: "invar m \<Longrightarrow> invar (fold (\<lambda>(k, v). insert_kv k v) kvs m)"
  by (induction kvs arbitrary: m) (auto simp: invar_insert)

lemma lookup_fold_remove: "lookup (fold remove_k ks m) = lookup m |` (- set ks)"
  by (induction ks arbitrary: m) (auto simp: lookup_remove restrict_map_def fun_eq_iff)

lemma invar_fold_remove: "invar m \<Longrightarrow> invar (fold remove_k ks m)"
  by (induction ks arbitrary: m) (auto simp: invar_remove)

lemma finite_dom_lookup: "finite (dom (lookup m))"
  using set_keys [of m] by (metis List.finite_set)

lemma length_keys: "invar m \<Longrightarrow> length (keys m) = card (dom (lookup m))"
  using distinct_card [OF distinct_keys] by (simp add: set_keys)

lemma dom_lookup_insert: "dom (lookup (insert_kv k v m)) = insert k (dom (lookup m))"
  by (simp add: lookup_insert)

end

section \<open>Hash maps\<close>

type_synonym ('k, 'v) hash_map = "('k \<times> 'v) list"

abbreviation hm_get :: "('k, 'v) hash_map \<Rightarrow> 'k \<Rightarrow> 'v option" where
  "hm_get \<equiv> map_of"

abbreviation hm_insert :: "'k \<Rightarrow> 'v \<Rightarrow> ('k, 'v) hash_map \<Rightarrow> ('k, 'v) hash_map" where
  "hm_insert \<equiv> AList.update"

abbreviation hm_remove :: "'k \<Rightarrow> ('k, 'v) hash_map \<Rightarrow> ('k, 'v) hash_map" where
  "hm_remove \<equiv> AList.delete"

abbreviation hm_keys :: "('k, 'v) hash_map \<Rightarrow> 'k list" where
  "hm_keys m \<equiv> map fst m"

abbreviation hm_invar :: "('k, 'v) hash_map \<Rightarrow> bool" where
  "hm_invar m \<equiv> distinct (map fst m)"

interpretation hm: key_value hm_get hm_insert hm_remove hm_keys hm_invar
  by unfold_locales
    (auto simp: update_conv' delete_conv' dom_map_of_conv_image_fst intro: distinct_update distinct_delete)

text \<open>\<open>entry(k).or_insert(d)\<close> followed by a write of \<open>f\<close> of the entry's value.\<close>

definition hm_upsert :: "'k \<Rightarrow> 'v \<Rightarrow> ('v \<Rightarrow> 'v) \<Rightarrow> ('k, 'v) hash_map \<Rightarrow> ('k, 'v) hash_map" where
  "hm_upsert k d f m = hm_insert k (f (case hm_get m k of None \<Rightarrow> d | Some v \<Rightarrow> v)) m"

lemma hm_get_upsert [map_simps]:
  "hm_get (hm_upsert k d f m) = (hm_get m)(k \<mapsto> f (case hm_get m k of None \<Rightarrow> d | Some v \<Rightarrow> v))"
  by (simp add: hm_upsert_def update_conv')

lemma hm_invar_upsert [inv_intros]: "hm_invar m \<Longrightarrow> hm_invar (hm_upsert k d f m)"
  by (simp add: hm_upsert_def distinct_update)

lemmas hm_simps = update_conv' delete_conv'
declare hm_simps [map_simps]
declare hm.invar_insert [inv_intros] hm.invar_remove [inv_intros] hm.invar_fold_insert [inv_intros]

section \<open>Sorted maps\<close>

type_synonym ('k, 'v) btree_map = "('k \<times> 'v) list"

fun bt_insert :: "'k::linorder \<Rightarrow> 'v \<Rightarrow> ('k, 'v) btree_map \<Rightarrow> ('k, 'v) btree_map" where
  "bt_insert k v [] = [(k, v)]"
| "bt_insert k v ((k', v') # m) =
     (if k < k' then (k, v) # (k', v') # m
      else if k = k' then (k, v) # m
      else (k', v') # bt_insert k v m)"

definition bt_remove :: "'k::linorder \<Rightarrow> ('k, 'v) btree_map \<Rightarrow> ('k, 'v) btree_map" where
  "bt_remove k m = filter (\<lambda>kv. fst kv \<noteq> k) m"

definition bt_range :: "('k::linorder \<Rightarrow> bool) \<Rightarrow> ('k, 'v) btree_map \<Rightarrow> ('k, 'v) btree_map" where
  "bt_range P m = filter (\<lambda>kv. P (fst kv)) m"

abbreviation bt_get :: "('k::linorder, 'v) btree_map \<Rightarrow> 'k \<Rightarrow> 'v option" where
  "bt_get \<equiv> map_of"

abbreviation bt_keys :: "('k::linorder, 'v) btree_map \<Rightarrow> 'k list" where
  "bt_keys m \<equiv> map fst m"

definition bt_invar :: "('k::linorder, 'v) btree_map \<Rightarrow> bool" where
  "bt_invar m \<longleftrightarrow> sorted_wrt (<) (map fst m)"

lemma set_bt_insert: "fst ` set (bt_insert k v m) = insert k (fst ` set m)"
  by (induction k v m rule: bt_insert.induct) auto

lemma bt_invar_insert: "bt_invar m \<Longrightarrow> bt_invar (bt_insert k v m)"
  by (induction k v m rule: bt_insert.induct) (auto simp: bt_invar_def set_bt_insert)

lemma bt_get_insert: "bt_get (bt_insert k v m) = (bt_get m)(k \<mapsto> v)"
  by (induction k v m rule: bt_insert.induct) (auto simp: fun_eq_iff)

lemma bt_get_filter: "bt_get (filter (\<lambda>kv. P (fst kv)) m) = bt_get m |` {k. P k}"
  by (induction m) (auto simp: fun_eq_iff restrict_map_def)

lemma bt_get_remove: "bt_get (bt_remove k m) = (bt_get m)(k := None)"
  unfolding bt_remove_def bt_get_filter [of "\<lambda>x. x \<noteq> k"]
  by (auto simp: restrict_map_def fun_eq_iff)

lemma bt_invar_filter: "bt_invar m \<Longrightarrow> bt_invar (filter P m)"
  unfolding bt_invar_def sorted_wrt_map by (rule sorted_wrt_filter)

lemma bt_invar_remove: "bt_invar m \<Longrightarrow> bt_invar (bt_remove k m)"
  unfolding bt_remove_def by (rule bt_invar_filter)

lemma bt_distinct: "bt_invar m \<Longrightarrow> distinct (map fst m)"
  unfolding bt_invar_def by (simp add: strict_sorted_iff)

interpretation bt: key_value bt_get bt_insert bt_remove bt_keys bt_invar
  by unfold_locales
    (auto simp: bt_get_insert bt_get_remove dom_map_of_conv_image_fst bt_invar_remove
      intro: bt_invar_insert bt_distinct)

lemma bt_get_range: "bt_get (bt_range P m) = bt_get m |` {k. P k}"
  by (simp add: bt_range_def bt_get_filter)

lemma bt_invar_range: "bt_invar m \<Longrightarrow> bt_invar (bt_range P m)"
  by (simp add: bt_range_def bt_invar_filter)

lemma bt_ext:
  assumes "bt_invar m" "bt_invar m'" "bt_get m = bt_get m'"
  shows "m = m'"
proof -
  have d: "distinct (map fst m)" "distinct (map fst m')"
    using assms(1,2) by (simp_all add: bt_distinct)
  then have st: "set m = set m'"
    using assms(3) by (simp add: map_of_inject_set)
  show ?thesis
  proof (rule map_sorted_distinct_set_unique [where f = fst])
    show "inj_on fst (set m \<union> set m')" using d(1) st by (simp add: distinct_map)
    show "sorted (map fst m)" "sorted (map fst m')"
      using assms(1,2) by (simp_all add: bt_invar_def strict_sorted_iff)
  qed (use d st in auto)
qed

lemma bt_last_max:
  assumes "bt_invar m" "m \<noteq> []" "k \<in> dom (bt_get m)"
  shows "k \<le> fst (last m)"
proof -
  obtain ys y where m: "m = ys @ [y]" using assms(2) by (metis rev_exhaust)
  have "k \<in> set (map fst m)" using assms(3) by (metis bt.set_keys)
  moreover have "k' < fst y" if "k' \<in> set (map fst ys)" for k'
    using assms(1) that unfolding bt_invar_def m by (auto simp: sorted_wrt_append)
  ultimately show ?thesis unfolding m by force
qed

end
