(* ===== verification/Aeon_Types.thy ===== *)
theory Aeon_Types
  imports Aeon_Maps
begin

text \<open>
  The crate \<open>aeon-types\<close>: partition identifiers, the error taxonomy, source kinds and durability
  modes, the \<open>Event\<close> and \<open>Output\<close> envelopes with their builders, and the transport codec that
  puts an envelope on the wire.  The byte-level serializers (\<open>rmp_serde\<close>, \<open>serde_json\<close>) are not
  part of the repository; they are the fields of the record \<open>serde_backend\<close>, a parameter of every
  definition that uses them.

  An \<open>Instant\<close> is a \<^typ>\<open>nat\<close> number of nanoseconds.  Error values keep the variant and the
  fixed text of the message; text interpolated by \<open>format!\<close> is dropped.
\<close>

type_synonym uuid = "128 word"
type_synonym instant = nat

section \<open>Partitions\<close>

datatype partition_id = PartitionId (as_u16: u16)

instantiation partition_id :: linorder
begin

definition less_eq_partition_id :: "partition_id \<Rightarrow> partition_id \<Rightarrow> bool" where
  "less_eq_partition_id p q \<longleftrightarrow> as_u16 p \<le> as_u16 q"

definition less_partition_id :: "partition_id \<Rightarrow> partition_id \<Rightarrow> bool" where
  "less_partition_id p q \<longleftrightarrow> as_u16 p < as_u16 q"

instance
  by standard (auto simp: less_eq_partition_id_def less_partition_id_def intro: partition_id.expand)

end

lemma partition_id_less [simp]: "PartitionId a < PartitionId b \<longleftrightarrow> a < b"
  by (simp add: less_partition_id_def)

lemma partition_id_le [simp]: "PartitionId a \<le> PartitionId b \<longleftrightarrow> a \<le> b"
  by (simp add: less_eq_partition_id_def)

section \<open>Errors\<close>

datatype aeon_error =
    Connection string bool
  | Serialization string
  | State string
  | Processor string
  | Config string
  | Cluster string
  | Crypto string
  | Resource string
  | Timeout string
  | NotFound string

fun is_retryable :: "aeon_error \<Rightarrow> bool" where
  "is_retryable (Connection m retryable) = retryable"
| "is_retryable (Timeout m) = True"
| "is_retryable (Cluster m) = True"
| "is_retryable (Serialization m) = False"
| "is_retryable (Processor m) = False"
| "is_retryable (Config m) = False"
| "is_retryable (Crypto m) = False"
| "is_retryable (Resource m) = False"
| "is_retryable (NotFound m) = False"
| "is_retryable (State m) = False"

type_synonym 'a res = "aeon_error + 'a"

section \<open>Source kinds and durability modes\<close>

datatype source_kind = Pull | Push | Poll

datatype durability_mode = DurNone | UnorderedBatch | OrderedBatch | PerEvent

definition requires_l2_body_store :: "durability_mode \<Rightarrow> bool" where
  "requires_l2_body_store m \<longleftrightarrow> m \<noteq> DurNone"

definition fsync_per_event :: "durability_mode \<Rightarrow> bool" where
  "fsync_per_event m \<longleftrightarrow> m = PerEvent"

section \<open>Envelopes\<close>

record event =
  ev_id :: uuid
  ev_timestamp :: i64
  ev_source :: string
  ev_partition :: partition_id
  ev_metadata :: "(string \<times> string) list"
  ev_payload :: bytes
  ev_source_ts :: "instant option"
  ev_source_offset :: "i64 option"
  ev_l2_seq :: "u64 option"

record aeon_output =
  out_destination :: string
  out_key :: "bytes option"
  out_payload :: bytes
  out_headers :: "(string \<times> string) list"
  out_source_ts :: "instant option"
  out_source_event_id :: "uuid option"
  out_source_partition :: "partition_id option"
  out_source_offset :: "i64 option"
  out_l2_seq :: "u64 option"

definition event_new :: "uuid \<Rightarrow> i64 \<Rightarrow> string \<Rightarrow> partition_id \<Rightarrow> bytes \<Rightarrow> event" where
  "event_new i ts src p pl =
     \<lparr>ev_id = i, ev_timestamp = ts, ev_source = src, ev_partition = p, ev_metadata = [],
      ev_payload = pl, ev_source_ts = None, ev_source_offset = None, ev_l2_seq = None\<rparr>"

definition output_new :: "string \<Rightarrow> bytes \<Rightarrow> aeon_output" where
  "output_new dest pl =
     \<lparr>out_destination = dest, out_key = None, out_payload = pl, out_headers = [],
      out_source_ts = None, out_source_event_id = None, out_source_partition = None,
      out_source_offset = None, out_l2_seq = None\<rparr>"

definition with_event_identity :: "aeon_output \<Rightarrow> event \<Rightarrow> aeon_output" where
  "with_event_identity ou e =
     ou\<lparr>out_source_event_id := Some (ev_id e),
       out_source_partition := Some (ev_partition e),
       out_source_ts := ev_source_ts e,
       out_source_offset := ev_source_offset e,
       out_l2_seq := ev_l2_seq e\<rparr>"

definition into_event :: "aeon_output \<Rightarrow> uuid \<Rightarrow> i64 \<Rightarrow> string \<Rightarrow> partition_id \<Rightarrow> event" where
  "into_event ou i ts src p =
     \<lparr>ev_id = i, ev_timestamp = ts, ev_source = src, ev_partition = p,
      ev_metadata = out_headers ou, ev_payload = out_payload ou, ev_source_ts = out_source_ts ou,
      ev_source_offset = out_source_offset ou, ev_l2_seq = out_l2_seq ou\<rparr>"

section \<open>Transport codec\<close>

record wire_event =
  we_id :: uuid
  we_timestamp :: i64
  we_source :: string
  we_partition :: partition_id
  we_metadata :: "(string \<times> string) list"
  we_payload :: bytes
  we_source_offset :: "i64 option"
  we_l2_seq :: "u64 option"

record wire_output =
  wo_destination :: string
  wo_key :: "bytes option"
  wo_payload :: bytes
  wo_headers :: "(string \<times> string) list"
  wo_source_event_id :: "uuid option"
  wo_source_partition :: "partition_id option"
  wo_source_offset :: "i64 option"
  wo_l2_seq :: "u64 option"

datatype transport_codec = MsgPack | Json

definition wire_of_event :: "event \<Rightarrow> wire_event" where
  "wire_of_event e =
     \<lparr>we_id = ev_id e, we_timestamp = ev_timestamp e, we_source = ev_source e,
      we_partition = ev_partition e, we_metadata = ev_metadata e, we_payload = ev_payload e,
      we_source_offset = ev_source_offset e, we_l2_seq = ev_l2_seq e\<rparr>"

definition event_of_wire :: "wire_event \<Rightarrow> event" where
  "event_of_wire w =
     \<lparr>ev_id = we_id w, ev_timestamp = we_timestamp w, ev_source = we_source w,
      ev_partition = we_partition w, ev_metadata = we_metadata w, ev_payload = we_payload w,
      ev_source_ts = None, ev_source_offset = we_source_offset w, ev_l2_seq = we_l2_seq w\<rparr>"

definition wire_of_output :: "aeon_output \<Rightarrow> wire_output" where
  "wire_of_output ou =
     \<lparr>wo_destination = out_destination ou, wo_key = out_key ou, wo_payload = out_payload ou,
      wo_headers = out_headers ou, wo_source_event_id = out_source_event_id ou,
      wo_source_partition = out_source_partition ou, wo_source_offset = out_source_offset ou,
      wo_l2_seq = out_l2_seq ou\<rparr>"

definition output_of_wire :: "wire_output \<Rightarrow> aeon_output" where
  "output_of_wire w =
     \<lparr>out_destination = wo_destination w, out_key = wo_key w, out_payload = wo_payload w,
      out_headers = wo_headers w, out_source_ts = None,
      out_source_event_id = wo_source_event_id w, out_source_partition = wo_source_partition w,
      out_source_offset = wo_source_offset w, out_l2_seq = wo_l2_seq w\<rparr>"

text \<open>The serializers of \<open>rmp_serde\<close> and \<open>serde_json\<close>, which return a message on failure.\<close>

record serde_backend =
  to_vec_event :: "transport_codec \<Rightarrow> wire_event \<Rightarrow> string + bytes"
  from_slice_event :: "transport_codec \<Rightarrow> bytes \<Rightarrow> string + wire_event"
  to_vec_output :: "transport_codec \<Rightarrow> wire_output \<Rightarrow> string + bytes"
  from_slice_output :: "transport_codec \<Rightarrow> bytes \<Rightarrow> string + wire_output"

definition serde_err :: "string + 'a \<Rightarrow> 'a res" where
  "serde_err r = (case r of Inl m \<Rightarrow> Inl (Serialization m) | Inr x \<Rightarrow> Inr x)"

lemma serde_err_simps [simp]:
  "serde_err (Inl m) = Inl (Serialization m)"
  "serde_err (Inr x) = Inr x"
  "serde_err r = Inr y \<longleftrightarrow> r = Inr y"
  by (simp_all add: serde_err_def split: sum.splits)

definition encode_event :: "serde_backend \<Rightarrow> transport_codec \<Rightarrow> event \<Rightarrow> bytes res" where
  "encode_event S c e = serde_err (to_vec_event S c (wire_of_event e))"

definition decode_event :: "serde_backend \<Rightarrow> transport_codec \<Rightarrow> bytes \<Rightarrow> event res" where
  "decode_event S c bs = rbind (serde_err (from_slice_event S c bs)) (\<lambda>w. Inr (event_of_wire w))"

definition encode_events :: "serde_backend \<Rightarrow> transport_codec \<Rightarrow> event list \<Rightarrow> bytes list res" where
  "encode_events S c es = collect_results (encode_event S c) es"

definition decode_events :: "serde_backend \<Rightarrow> transport_codec \<Rightarrow> bytes list \<Rightarrow> event list res" where
  "decode_events S c ds = collect_results (decode_event S c) ds"

definition encode_output :: "serde_backend \<Rightarrow> transport_codec \<Rightarrow> aeon_output \<Rightarrow> bytes res" where
  "encode_output S c ou = serde_err (to_vec_output S c (wire_of_output ou))"

definition decode_output :: "serde_backend \<Rightarrow> transport_codec \<Rightarrow> bytes \<Rightarrow> aeon_output res" where
  "decode_output S c bs = rbind (serde_err (from_slice_output S c bs)) (\<lambda>w. Inr (output_of_wire w))"

definition encode_outputs :: "serde_backend \<Rightarrow> transport_codec \<Rightarrow> aeon_output list \<Rightarrow> bytes list res" where
  "encode_outputs S c os = collect_results (encode_output S c) os"

definition decode_outputs :: "serde_backend \<Rightarrow> transport_codec \<Rightarrow> bytes list \<Rightarrow> aeon_output list res" where
  "decode_outputs S c ds = collect_results (decode_output S c) ds"

text \<open>
  What the serializers document: bytes they produced for an envelope parse back to that envelope.
\<close>

definition serde_roundtrips :: "serde_backend \<Rightarrow> bool" where
  "serde_roundtrips S \<longleftrightarrow>
     (\<forall>c w bs. to_vec_event S c w = Inr bs \<longrightarrow> from_slice_event S c bs = Inr w) \<and>
     (\<forall>c w bs. to_vec_output S c w = Inr bs \<longrightarrow> from_slice_output S c bs = Inr w)"

text \<open>The envelope as the other side sees it: \<open>source_ts\<close> does not travel.\<close>

definition strip_event :: "event \<Rightarrow> event" where
  "strip_event e = e\<lparr>ev_source_ts := None\<rparr>"

definition strip_output :: "aeon_output \<Rightarrow> aeon_output" where
  "strip_output ou = ou\<lparr>out_source_ts := None\<rparr>"

lemma event_of_wire_of_event: "event_of_wire (wire_of_event e) = strip_event e"
  by (simp add: event_of_wire_def wire_of_event_def strip_event_def)

lemma output_of_wire_of_output: "output_of_wire (wire_of_output ou) = strip_output ou"
  by (simp add: output_of_wire_def wire_of_output_def strip_output_def)

lemma decode_encode_event:
  "serde_roundtrips S \<Longrightarrow> encode_event S c e = Inr bs \<Longrightarrow> decode_event S c bs = Inr (strip_event e)"
  by (auto simp: encode_event_def decode_event_def serde_roundtrips_def event_of_wire_of_event)

lemma decode_encode_output:
  "serde_roundtrips S \<Longrightarrow> encode_output S c ou = Inr bs \<Longrightarrow> decode_output S c bs = Inr (strip_output ou)"
  by (auto simp: encode_output_def decode_output_def serde_roundtrips_def output_of_wire_of_output)

lemma collect_results_roundtrip:
  assumes "\<And>x y. f x = Inr y \<Longrightarrow> g y = Inr (h x)" and "collect_results f xs = Inr ys"
  shows "collect_results g ys = Inr (map h xs)"
  using assms(2)
proof (induction xs arbitrary: ys)
  case Nil
  then show ?case by simp
next
  case (Cons x xs)
  then show ?case using assms(1) by (auto simp: rbind_Inr_conv)
qed

lemma decode_encode_events:
  "serde_roundtrips S \<Longrightarrow> encode_events S c es = Inr ds \<Longrightarrow> decode_events S c ds = Inr (map strip_event es)"
  unfolding encode_events_def decode_events_def
  by (rule collect_results_roundtrip) (auto intro: decode_encode_event)

lemma decode_encode_outputs:
  "serde_roundtrips S \<Longrightarrow> encode_outputs S c os = Inr ds \<Longrightarrow>
     decode_outputs S c ds = Inr (map strip_output os)"
  unfolding encode_outputs_def decode_outputs_def
  by (rule collect_results_roundtrip) (auto intro: decode_encode_output)

end
