(* ===== verification/Byte_Codec.thy ===== *)
theory Byte_Codec
  imports Aeon_Types
begin

text \<open>
  Self-delimiting byte codecs.  The engine hands its records to \<open>bincode\<close>, \<open>rmp_serde\<close> and
  \<open>serde_json\<close>, which the development takes as parameters; what is relied on is stated where they
  are used.  This theory states the common contract as the locale \<open>byte_codec\<close>, closes it under
  the type constructors of those records, and gives a total codec for each record.  The codecs
  show that the hypotheses on the serializers can hold, and let stored bytes be evaluated.
\<close>

locale byte_codec =
  fixes enc :: "'a \<Rightarrow> bytes" and dec :: "bytes \<Rightarrow> ('a \<times> bytes) option"
  assumes dec_enc: "dec (enc x @ r) = Some (x, r)"
begin

lemma enc_append_inject: "enc x @ r = enc y @ s \<Longrightarrow> x = y \<and> r = s"
  by (metis dec_enc option.inject prod.inject)

lemma enc_inject: "enc x = enc y \<longleftrightarrow> x = y"
  using enc_append_inject [of x "[]" y "[]"] by auto

lemma dec_enc_exact: "dec (enc x) = Some (x, [])"
  using dec_enc [of x "[]"] by simp

end

named_theorems codec_intros \<open>closure of byte codecs under type constructors\<close>

section \<open>Codecs for the base types\<close>

text \<open>Naturals in base 128, least significant digit first, high bit set on all but the last.\<close>

fun enc_nat :: "nat \<Rightarrow> bytes" where
  "enc_nat n = (if n < 128 then [of_nat n] else of_nat (128 + n mod 128) # enc_nat (n div 128))"

declare enc_nat.simps [simp del]

fun dec_nat :: "bytes \<Rightarrow> (nat \<times> bytes) option" where
  "dec_nat [] = None"
| "dec_nat (b # bs) =
     (if unat b < 128 then Some (unat b, bs)
      else case dec_nat bs of None \<Rightarrow> None
           | Some (n, rest) \<Rightarrow> Some ((unat b - 128) + 128 * n, rest))"

interpretation nat_codec: byte_codec enc_nat dec_nat
proof
  fix n :: nat and r
  show "dec_nat (enc_nat n @ r) = Some (n, r)"
  proof (induction n rule: enc_nat.induct)
    case (1 n)
    have "unat (of_nat (128 + n mod 128) :: u8) = 128 + n mod 128"
      unfolding unat_of_nat_u8 by (rule mod_less) linarith
    moreover have "n < 128 \<Longrightarrow> unat (of_nat n :: u8) = n"
      by simp
    ultimately show ?case
      using 1 by (subst enc_nat.simps) (auto simp del: of_nat_add)
  qed
qed

definition enc_via :: "('a \<Rightarrow> 'b) \<Rightarrow> ('b \<Rightarrow> bytes) \<Rightarrow> 'a \<Rightarrow> bytes" where
  "enc_via f e x = e (f x)"

definition dec_via :: "('b \<Rightarrow> 'a) \<Rightarrow> (bytes \<Rightarrow> ('b \<times> bytes) option) \<Rightarrow> bytes \<Rightarrow> ('a \<times> bytes) option" where
  "dec_via g d bs = map_option (\<lambda>(y, r). (g y, r)) (d bs)"

lemma codec_via: "byte_codec e d \<Longrightarrow> (\<And>x. g (f x) = x) \<Longrightarrow> byte_codec (enc_via f e) (dec_via g d)"
  by (simp add: byte_codec_def enc_via_def dec_via_def)

definition enc_word :: "'w::len word \<Rightarrow> bytes" where
  "enc_word = enc_via unat enc_nat"

definition dec_word :: "bytes \<Rightarrow> ('w::len word \<times> bytes) option" where
  "dec_word = dec_via of_nat dec_nat"

lemma codec_word [codec_intros]: "byte_codec enc_word dec_word"
  unfolding enc_word_def dec_word_def by (rule codec_via) (simp_all add: nat_codec.byte_codec_axioms)

definition enc_char :: "char \<Rightarrow> bytes" where
  "enc_char = enc_via of_char enc_nat"

definition dec_char :: "bytes \<Rightarrow> (char \<times> bytes) option" where
  "dec_char = dec_via char_of dec_nat"

lemma codec_char [codec_intros]: "byte_codec enc_char dec_char"
  unfolding enc_char_def dec_char_def by (rule codec_via) (simp_all add: nat_codec.byte_codec_axioms)

definition enc_bool :: "bool \<Rightarrow> bytes" where
  "enc_bool b = [if b then 1 else 0]"

fun dec_bool :: "bytes \<Rightarrow> (bool \<times> bytes) option" where
  "dec_bool [] = None"
| "dec_bool (b # bs) = Some (b \<noteq> 0, bs)"

lemma codec_bool [codec_intros]: "byte_codec enc_bool dec_bool"
  by (simp add: byte_codec_def enc_bool_def)

section \<open>Type constructors\<close>

definition enc_pair :: "('a \<Rightarrow> bytes) \<Rightarrow> ('b \<Rightarrow> bytes) \<Rightarrow> 'a \<times> 'b \<Rightarrow> bytes" where
  "enc_pair ea eb p = ea (fst p) @ eb (snd p)"

definition dec_pair :: "(bytes \<Rightarrow> ('a \<times> bytes) option) \<Rightarrow> (bytes \<Rightarrow> ('b \<times> bytes) option)
    \<Rightarrow> bytes \<Rightarrow> (('a \<times> 'b) \<times> bytes) option" where
  "dec_pair da db bs =
     (case da bs of None \<Rightarrow> None
      | Some (a, r) \<Rightarrow> (case db r of None \<Rightarrow> None | Some (b, r') \<Rightarrow> Some ((a, b), r')))"

lemma codec_pair [codec_intros]:
  "byte_codec ea da \<Longrightarrow> byte_codec eb db \<Longrightarrow> byte_codec (enc_pair ea eb) (dec_pair da db)"
  by (simp add: byte_codec_def enc_pair_def dec_pair_def)

fun enc_option :: "('a \<Rightarrow> bytes) \<Rightarrow> 'a option \<Rightarrow> bytes" where
  "enc_option e None = [0]"
| "enc_option e (Some x) = 1 # e x"

fun dec_option :: "(bytes \<Rightarrow> ('a \<times> bytes) option) \<Rightarrow> bytes \<Rightarrow> ('a option \<times> bytes) option" where
  "dec_option d [] = None"
| "dec_option d (b # bs) =
     (if b = 0 then Some (None, bs) else map_option (\<lambda>(x, r). (Some x, r)) (d bs))"

lemma codec_option [codec_intros]:
  assumes "byte_codec e d"
  shows "byte_codec (enc_option e) (dec_option d)"
proof
  fix x :: "'a option" and r
  show "dec_option d (enc_option e x @ r) = Some (x, r)"
    using assms by (cases x) (simp_all add: byte_codec_def)
qed

fun dec_many :: "(bytes \<Rightarrow> ('a \<times> bytes) option) \<Rightarrow> nat \<Rightarrow> bytes \<Rightarrow> ('a list \<times> bytes) option" where
  "dec_many d 0 bs = Some ([], bs)"
| "dec_many d (Suc n) bs =
     (case d bs of None \<Rightarrow> None
      | Some (x, r) \<Rightarrow> map_option (\<lambda>(xs, r'). (x # xs, r')) (dec_many d n r))"

definition enc_list :: "('a \<Rightarrow> bytes) \<Rightarrow> 'a list \<Rightarrow> bytes" where
  "enc_list e xs = enc_nat (length xs) @ concat (map e xs)"

definition dec_list :: "(bytes \<Rightarrow> ('a \<times> bytes) option) \<Rightarrow> bytes \<Rightarrow> ('a list \<times> bytes) option" where
  "dec_list d bs = (case dec_nat bs of None \<Rightarrow> None | Some (n, r) \<Rightarrow> dec_many d n r)"

lemma dec_many_concat:
  "byte_codec e d \<Longrightarrow> dec_many d (length xs) (concat (map e xs) @ r) = Some (xs, r)"
  by (induction xs) (simp_all add: byte_codec_def)

lemma codec_list [codec_intros]: "byte_codec e d \<Longrightarrow> byte_codec (enc_list e) (dec_list d)"
  by (simp add: byte_codec_def [of "enc_list e"] enc_list_def dec_list_def nat_codec.dec_enc
      dec_many_concat)

lemma enc_nat_small: "n < 128 \<Longrightarrow> enc_nat n = [of_nat n]"
  by (simp add: enc_nat.simps)

lemmas codec_eval =
  enc_via_def enc_word_def enc_char_def enc_pair_def enc_list_def enc_bool_def enc_nat_small

text \<open>A whole buffer: the way \<open>from_slice\<close> and \<open>deserialize\<close> are called, with a failure message.\<close>

definition parse_all :: "(bytes \<Rightarrow> ('a \<times> bytes) option) \<Rightarrow> bytes \<Rightarrow> string + 'a" where
  "parse_all d bs = (case d bs of Some (x, []) \<Rightarrow> Inr x | _ \<Rightarrow> Inl ''invalid encoding'')"

lemma parse_all_enc: "byte_codec e d \<Longrightarrow> parse_all d (e x) = Inr x"
  by (simp add: parse_all_def byte_codec.dec_enc_exact)

section \<open>Codecs for the transport envelopes\<close>

abbreviation "enc_bytes \<equiv> enc_list (enc_word :: u8 \<Rightarrow> bytes)"
abbreviation "dec_bytes \<equiv> dec_list (dec_word :: bytes \<Rightarrow> (u8 \<times> bytes) option)"
abbreviation "enc_string \<equiv> enc_list enc_char"
abbreviation "dec_string \<equiv> dec_list dec_char"
abbreviation "enc_partition \<equiv> enc_via as_u16 enc_word"
abbreviation "dec_partition \<equiv> dec_via PartitionId dec_word"

lemma codec_partition [codec_intros]: "byte_codec enc_partition dec_partition"
  by (rule codec_via) (simp_all add: codec_word)

definition enc_wire_event :: "wire_event \<Rightarrow> bytes" where
  "enc_wire_event =
     enc_via (\<lambda>w. (we_id w, we_timestamp w, we_source w, we_partition w, we_metadata w, we_payload w,
                   we_source_offset w, we_l2_seq w))
       (enc_pair enc_word (enc_pair enc_word (enc_pair enc_string (enc_pair enc_partition
         (enc_pair (enc_list (enc_pair enc_string enc_string)) (enc_pair enc_bytes
           (enc_pair (enc_option enc_word) (enc_option enc_word))))))))"

definition dec_wire_event :: "bytes \<Rightarrow> (wire_event \<times> bytes) option" where
  "dec_wire_event =
     dec_via (\<lambda>(i, ts, src, p, md, pl, off, sq).
         \<lparr>we_id = i, we_timestamp = ts, we_source = src, we_partition = p, we_metadata = md,
          we_payload = pl, we_source_offset = off, we_l2_seq = sq\<rparr>)
       (dec_pair dec_word (dec_pair dec_word (dec_pair dec_string (dec_pair dec_partition
         (dec_pair (dec_list (dec_pair dec_string dec_string)) (dec_pair dec_bytes
           (dec_pair (dec_option dec_word) (dec_option dec_word))))))))"

interpretation wire_event_codec: byte_codec enc_wire_event dec_wire_event
  unfolding enc_wire_event_def dec_wire_event_def by (rule codec_via) (intro codec_intros, simp)

definition enc_wire_output :: "wire_output \<Rightarrow> bytes" where
  "enc_wire_output =
     enc_via (\<lambda>w. (wo_destination w, wo_key w, wo_payload w, wo_headers w, wo_source_event_id w,
                   wo_source_partition w, wo_source_offset w, wo_l2_seq w))
       (enc_pair enc_string (enc_pair (enc_option enc_bytes) (enc_pair enc_bytes
         (enc_pair (enc_list (enc_pair enc_string enc_string)) (enc_pair (enc_option enc_word)
           (enc_pair (enc_option enc_partition)
             (enc_pair (enc_option enc_word) (enc_option enc_word))))))))"

definition dec_wire_output :: "bytes \<Rightarrow> (wire_output \<times> bytes) option" where
  "dec_wire_output =
     dec_via (\<lambda>(dest, k, pl, hd, i, p, off, sq).
         \<lparr>wo_destination = dest, wo_key = k, wo_payload = pl, wo_headers = hd,
          wo_source_event_id = i, wo_source_partition = p, wo_source_offset = off, wo_l2_seq = sq\<rparr>)
       (dec_pair dec_string (dec_pair (dec_option dec_bytes) (dec_pair dec_bytes
         (dec_pair (dec_list (dec_pair dec_string dec_string)) (dec_pair (dec_option dec_word)
           (dec_pair (dec_option dec_partition)
             (dec_pair (dec_option dec_word) (dec_option dec_word))))))))"

interpretation wire_output_codec: byte_codec enc_wire_output dec_wire_output
  unfolding enc_wire_output_def dec_wire_output_def by (rule codec_via) (intro codec_intros, simp)

text \<open>A serializer pair built from these codecs satisfies what is assumed of the real ones.\<close>

definition byte_serde :: serde_backend where
  "byte_serde =
     \<lparr>to_vec_event = (\<lambda>c w. Inr (enc_wire_event w)), from_slice_event = (\<lambda>c. parse_all dec_wire_event),
      to_vec_output = (\<lambda>c w. Inr (enc_wire_output w)), from_slice_output = (\<lambda>c. parse_all dec_wire_output)\<rparr>"

lemma byte_serde_roundtrips: "serde_roundtrips byte_serde"
  by (auto simp: serde_roundtrips_def byte_serde_def intro!: parse_all_enc
      wire_event_codec.byte_codec_axioms wire_output_codec.byte_codec_axioms)

definition sample_event :: event where
  "sample_event = (event_new 7 5 ''src'' (PartitionId 3) [1, 2])\<lparr>ev_source_ts := Some 9\<rparr>"

end
