(* ===== verification/Batch_Wire.thy ===== *)
theory Batch_Wire
  imports Byte_Codec
begin

text \<open>
  \<open>aeon-engine/src/batch_wire.rs\<close>: the framing of batch requests and responses exchanged with
  out-of-process processors.  \<open>crc\<close> stands for \<open>crc32fast::hash\<close>.  Slices are taken at the
  offsets the code uses; \<open>as u32\<close> truncates and is written \<^term>\<open>of_nat\<close> into \<^typ>\<open>u32\<close>.
\<close>

record batch_request =
  breq_batch_id :: u64
  breq_events :: "bytes list"

record batch_response =
  brsp_batch_id :: u64
  brsp_outputs_per_event :: "bytes list list"
  brsp_signature :: bytes

record decoded_batch_response =
  dbr_batch_id :: u64
  dbr_outputs_per_event :: "aeon_output list list"
  dbr_signature :: bytes

section \<open>Serialization\<close>

definition len_prefixed :: "bytes \<Rightarrow> bytes" where
  "len_prefixed e = u32_to_le (of_nat (length e)) @ e"

definition serialize_batch_request :: "(bytes \<Rightarrow> u32) \<Rightarrow> u64 \<Rightarrow> bytes list \<Rightarrow> bytes" where
  "serialize_batch_request crc batch_id events =
     (let buf = u64_to_le batch_id @ u32_to_le (of_nat (length events)) @
                concat (map len_prefixed events)
      in buf @ u32_to_le (crc buf))"

definition output_group :: "bytes list \<Rightarrow> bytes" where
  "output_group outs = u32_to_le (of_nat (length outs)) @ concat (map len_prefixed outs)"

definition serialize_batch_response ::
    "(bytes \<Rightarrow> u32) \<Rightarrow> u64 \<Rightarrow> bytes list list \<Rightarrow> bytes \<Rightarrow> bytes" where
  "serialize_batch_response crc batch_id outputs_per_event signature =
     (let buf = u64_to_le batch_id @ u32_to_le (of_nat (length outputs_per_event)) @
                concat (map output_group outputs_per_event)
      in buf @ u32_to_le (crc buf) @ signature)"

section \<open>Deserialization\<close>

text \<open>
  The inner loop shared by requests (one list of events) and responses (one list of outputs per
  event): \<open>count\<close> length-prefixed items from \<open>offset\<close> on, never past \<open>plen\<close> bytes.  It returns
  the items and the offset after them; \<open>e1\<close> and \<open>e2\<close> are the two error messages.
\<close>

fun read_items :: "string \<Rightarrow> string \<Rightarrow> bytes \<Rightarrow> nat \<Rightarrow> nat \<Rightarrow> nat \<Rightarrow> (bytes list \<times> nat) res" where
  "read_items e1 e2 data plen 0 offset = Inr ([], offset)"
| "read_items e1 e2 data plen (Suc count) offset =
     (if offset + 4 > plen then Inl (Serialization e1)
      else
        let len = unat (u32_from_le (subslice data offset (offset + 4))); offset = offset + 4
        in if offset + len > plen then Inl (Serialization e2)
           else rbind (read_items e1 e2 data plen count (offset + len))
                  (\<lambda>(items, off'). Inr (subslice data offset (offset + len) # items, off')))"

definition deserialize_batch_request :: "(bytes \<Rightarrow> u32) \<Rightarrow> bytes \<Rightarrow> batch_request res" where
  "deserialize_batch_request crc data =
     (if length data < 16 then Inl (Serialization ''batch request too short'')
      else
        let payload = take (length data - 4) data;
            expected_crc = u32_from_le (drop (length data - 4) data);
            actual_crc = crc payload
        in if expected_crc \<noteq> actual_crc then Inl (Serialization ''CRC32 mismatch'')
           else
             let batch_id = u64_from_le (subslice data 0 8);
                 event_count = unat (u32_from_le (subslice data 8 12))
             in rbind (read_items ''unexpected end of batch request'' ''event data exceeds buffer''
                         data (length payload) event_count 12)
                  (\<lambda>(events, _). Inr \<lparr>breq_batch_id = batch_id, breq_events = events\<rparr>))"

fun read_groups :: "bytes \<Rightarrow> nat \<Rightarrow> nat \<Rightarrow> nat \<Rightarrow> (bytes list list \<times> nat) res" where
  "read_groups data plen 0 offset = Inr ([], offset)"
| "read_groups data plen (Suc count) offset =
     (if offset + 4 > plen then Inl (Serialization ''unexpected end of batch response'')
      else
        let output_count = unat (u32_from_le (subslice data offset (offset + 4)))
        in rbind (read_items ''unexpected end of output data'' ''output data exceeds buffer''
                    data plen output_count (offset + 4))
             (\<lambda>(outputs, off'). rbind (read_groups data plen count off')
                (\<lambda>(groups, off''). Inr (outputs # groups, off''))))"

definition deserialize_batch_response :: "(bytes \<Rightarrow> u32) \<Rightarrow> bytes \<Rightarrow> batch_response res" where
  "deserialize_batch_response crc data =
     (if length data < 80 then Inl (Serialization ''batch response too short'')
      else
        let signature = drop (length data - 64) data;
            crc_offset = length data - 64 - 4;
            payload = take crc_offset data;
            expected_crc = u32_from_le (subslice data crc_offset (crc_offset + 4));
            actual_crc = crc payload
        in if expected_crc \<noteq> actual_crc then Inl (Serialization ''CRC32 mismatch'')
           else
             let batch_id = u64_from_le (subslice data 0 8);
                 event_count = unat (u32_from_le (subslice data 8 12))
             in rbind (read_groups data (length payload) event_count 12)
                  (\<lambda>(groups, _). Inr \<lparr>brsp_batch_id = batch_id, brsp_outputs_per_event = groups,
                                     brsp_signature = signature\<rparr>))"

section \<open>Codec-aware helpers\<close>

definition encode_batch_request ::
    "serde_backend \<Rightarrow> (bytes \<Rightarrow> u32) \<Rightarrow> u64 \<Rightarrow> event list \<Rightarrow> transport_codec \<Rightarrow> bytes res" where
  "encode_batch_request S crc batch_id events codec =
     rbind (encode_events S codec events) (\<lambda>encoded. Inr (serialize_batch_request crc batch_id encoded))"

definition decode_batch_request ::
    "serde_backend \<Rightarrow> (bytes \<Rightarrow> u32) \<Rightarrow> bytes \<Rightarrow> transport_codec \<Rightarrow> (u64 \<times> event list) res" where
  "decode_batch_request S crc data codec =
     rbind (deserialize_batch_request crc data) (\<lambda>parsed.
       rbind (decode_events S codec (breq_events parsed)) (\<lambda>events.
         Inr (breq_batch_id parsed, events)))"

definition encode_batch_response ::
    "serde_backend \<Rightarrow> (bytes \<Rightarrow> u32) \<Rightarrow> u64 \<Rightarrow> aeon_output list list \<Rightarrow> bytes \<Rightarrow> transport_codec
       \<Rightarrow> bytes res" where
  "encode_batch_response S crc batch_id outputs_per_event signature codec =
     rbind (collect_results (encode_outputs S codec) outputs_per_event) (\<lambda>groups.
       Inr (serialize_batch_response crc batch_id groups signature))"

definition decode_batch_response ::
    "serde_backend \<Rightarrow> (bytes \<Rightarrow> u32) \<Rightarrow> bytes \<Rightarrow> transport_codec \<Rightarrow> decoded_batch_response res" where
  "decode_batch_response S crc data codec =
     rbind (deserialize_batch_response crc data) (\<lambda>parsed.
       rbind (collect_results (decode_outputs S codec) (brsp_outputs_per_event parsed)) (\<lambda>all_outputs.
         Inr \<lparr>dbr_batch_id = brsp_batch_id parsed, dbr_outputs_per_event = all_outputs,
              dbr_signature = brsp_signature parsed\<rparr>))"

section \<open>Round trips\<close>

lemma length_len_prefixed [simp]: "length (len_prefixed e) = 4 + length e"
  by (simp add: len_prefixed_def)

lemma read_items_step:
  assumes D: "D = pre @ len_prefixed e @ post" and fit: "fits_u32 e"
    and "length pre + 4 + length e \<le> plen"
  shows "read_items e1 e2 D plen (Suc n) (length pre) =
     rbind (read_items e1 e2 D plen n (length pre + 4 + length e)) (\<lambda>(items, off). Inr (e # items, off))"
proof -
  let ?L = "u32_to_le (of_nat (length e))"
  have "subslice D (length pre) (length pre + 4) = ?L"
    unfolding D len_prefixed_def append_assoc by (rule slice_at) simp_all
  moreover have "subslice D (length pre + 4) (length pre + 4 + length e) = e"
    unfolding D len_prefixed_def using slice_at [of _ "pre @ ?L" _ e post] by simp
  ultimately show ?thesis
    using assms(3) by (simp add: Let_def unat_len_u32 [OF fit])
qed

lemma read_items_roundtrip:
  assumes "D = pre @ concat (map len_prefixed items) @ post" and "\<forall>e \<in> set items. fits_u32 e"
    and "length pre + length (concat (map len_prefixed items)) \<le> plen"
  shows "read_items e1 e2 D plen (length items) (length pre)
       = Inr (items, length pre + length (concat (map len_prefixed items)))"
  using assms
proof (induction items arbitrary: pre)
  case Nil
  then show ?case by simp
next
  case (Cons e items)
  have "read_items e1 e2 D plen (length items) (length (pre @ len_prefixed e))
     = Inr (items, length (pre @ len_prefixed e) + length (concat (map len_prefixed items)))"
    by (rule Cons.IH) (use Cons.prems in simp_all)
  moreover have "read_items e1 e2 D plen (Suc (length items)) (length pre) =
     rbind (read_items e1 e2 D plen (length items) (length pre + 4 + length e))
       (\<lambda>(items, off). Inr (e # items, off))"
    by (rule read_items_step [where post = "concat (map len_prefixed items) @ post"])
      (use Cons.prems in simp_all)
  ultimately show ?case by (simp add: add.assoc)
qed

lemma length_output_group [simp]:
  "length (output_group outs) = 4 + length (concat (map len_prefixed outs))"
  by (simp add: output_group_def)

lemma read_groups_roundtrip:
  assumes "D = pre @ concat (map output_group groups) @ post"
    and "\<forall>g \<in> set groups. fits_u32 g \<and> (\<forall>e \<in> set g. fits_u32 e)"
    and "length pre + length (concat (map output_group groups)) \<le> plen"
  shows "read_groups D plen (length groups) (length pre)
       = Inr (groups, length pre + length (concat (map output_group groups)))"
  using assms
proof (induction groups arbitrary: pre)
  case Nil
  then show ?case by simp
next
  case (Cons g groups)
  let ?L = "u32_to_le (of_nat (length g))" and ?G = "concat (map len_prefixed g)"
  let ?R = "concat (map output_group groups)"
  have cnt: "subslice D (length pre) (length pre + 4) = ?L"
    using Cons.prems(1) slice_at [of _ pre _ ?L "?G @ ?R @ post"] by (simp add: output_group_def [of g])
  have len: "unat (of_nat (length g) :: u32) = length g"
    using Cons.prems(2) by (simp add: unat_len_u32)
  have items: "read_items e1 e2 D plen (length g) (length (pre @ ?L)) = Inr (g, length (pre @ ?L) + length ?G)"
    for e1 e2
    by (rule read_items_roundtrip [where post = "?R @ post"])
      (use Cons.prems in \<open>simp_all add: output_group_def [of g]\<close>)
  have "read_groups D plen (length groups) (length (pre @ ?L @ ?G)) =
      Inr (groups, length (pre @ ?L @ ?G) + length ?R)"
    by (rule Cons.IH) (use Cons.prems in \<open>simp_all add: output_group_def [of g]\<close>)
  with items show ?case
    using Cons.prems(3) by (simp add: cnt len Let_def add.assoc)
qed

definition request_fits :: "bytes list \<Rightarrow> bool" where
  "request_fits events \<longleftrightarrow> fits_u32 events \<and> (\<forall>e \<in> set events. fits_u32 e)"

definition response_fits :: "bytes list list \<Rightarrow> bool" where
  "response_fits groups \<longleftrightarrow> fits_u32 groups \<and> (\<forall>g \<in> set groups. request_fits g)"

lemma deserialize_serialize_request:
  assumes "request_fits events"
  shows "deserialize_batch_request crc (serialize_batch_request crc batch_id events)
       = Inr \<lparr>breq_batch_id = batch_id, breq_events = events\<rparr>"
proof -
  let ?I = "u64_to_le batch_id" and ?N = "u32_to_le (of_nat (length events))"
  let ?B = "concat (map len_prefixed events)"
  let ?buf = "?I @ ?N @ ?B"
  let ?D = "?buf @ u32_to_le (crc ?buf)"
  have "subslice ?D 0 8 = ?I" "subslice ?D 8 12 = ?N"
    using slice_at [of 0 "[]" 8 ?I] slice_at [of 8 ?I 12 ?N] by simp_all
  moreover have "read_items e1 e2 ?D (length ?buf) (length events) (length (?I @ ?N))
      = Inr (events, length (?I @ ?N) + length ?B)" for e1 e2
    by (rule read_items_roundtrip [where post = "u32_to_le (crc ?buf)"])
      (use assms in \<open>simp_all add: request_fits_def\<close>)
  moreover have "unat (of_nat (length events) :: u32) = length events"
    using assms by (simp add: request_fits_def unat_len_u32)
  ultimately show ?thesis
    by (simp add: deserialize_batch_request_def serialize_batch_request_def Let_def)
qed

lemma deserialize_serialize_response:
  assumes "response_fits groups" and "length signature = 64"
  shows "deserialize_batch_response crc (serialize_batch_response crc batch_id groups signature)
       = Inr \<lparr>brsp_batch_id = batch_id, brsp_outputs_per_event = groups, brsp_signature = signature\<rparr>"
proof -
  let ?I = "u64_to_le batch_id" and ?N = "u32_to_le (of_nat (length groups))"
  let ?B = "concat (map output_group groups)"
  let ?buf = "?I @ ?N @ ?B"
  let ?C = "u32_to_le (crc ?buf)"
  let ?D = "?buf @ ?C @ signature"
  have "subslice ?D 0 8 = ?I" "subslice ?D 8 12 = ?N"
    using slice_at [of 0 "[]" 8 ?I] slice_at [of 8 ?I 12 ?N] by simp_all
  moreover have "subslice ?D (length ?buf) (length ?buf + 4) = ?C"
    by (rule slice_at) simp_all
  moreover have "read_groups ?D (length ?buf) (length groups) (length (?I @ ?N))
      = Inr (groups, length (?I @ ?N) + length ?B)"
    by (rule read_groups_roundtrip [where post = "?C @ signature"])
      (use assms in \<open>simp_all add: response_fits_def request_fits_def\<close>)
  moreover have "unat (of_nat (length groups) :: u32) = length groups"
    using assms by (simp add: response_fits_def unat_len_u32)
  ultimately show ?thesis
    using assms(2) by (simp add: deserialize_batch_response_def serialize_batch_response_def Let_def)
qed

section \<open>Soundness of parsing\<close>

lemma read_items_sound:
  assumes "read_items e1 e2 D plen n offset = Inr (items, off')" and "plen \<le> length D" "offset \<le> plen"
  shows "offset \<le> off' \<and> off' \<le> plen \<and> length items = n \<and> subslice D offset off' = concat (map len_prefixed items)"
  using assms
proof (induction n arbitrary: offset items)
  case 0
  then show ?case by (simp add: subslice_def)
next
  case (Suc n)
  let ?lb = "subslice D offset (offset + 4)"
  let ?len = "unat (u32_from_le ?lb)"
  let ?e = "subslice D (offset + 4) (offset + 4 + ?len)"
  have b: "offset + 4 \<le> plen" "offset + 4 + ?len \<le> plen"
    using Suc.prems(1) by (auto simp: Let_def split: if_splits)
  then obtain rest where rest: "read_items e1 e2 D plen n (offset + 4 + ?len) = Inr (rest, off')"
    and items: "items = ?e # rest"
    using Suc.prems(1) by (auto simp: Let_def rbind_Inr_conv)
  have IH: "offset + 4 + ?len \<le> off' \<and> off' \<le> plen \<and> length rest = n \<and>
      subslice D (offset + 4 + ?len) off' = concat (map len_prefixed rest)"
    by (rule Suc.IH [OF rest]) (use Suc.prems b in simp_all)
  have "length ?e = ?len" using b Suc.prems(2) by simp
  moreover have "u32_to_le (u32_from_le ?lb) = ?lb"
    using b Suc.prems(2) by (simp add: to_le_from_le)
  ultimately have "len_prefixed ?e = ?lb @ ?e" by (simp add: len_prefixed_def)
  moreover have "subslice D offset off' = ?lb @ ?e @ subslice D (offset + 4 + ?len) off'"
    using IH slice_split [of offset "offset + 4" off' D]
      slice_split [of "offset + 4" "offset + 4 + ?len" off' D] by simp
  ultimately show ?case using IH items by simp
qed

text \<open>
  An accepted buffer is the canonical encoding of what was parsed, possibly followed by bytes the
  parser never looks at, and closed by the checksum of everything before it.
\<close>

lemma deserialize_request_sound:
  assumes "deserialize_batch_request crc D = Inr r"
  shows "\<exists>slack. let buf = u64_to_le (breq_batch_id r) @ u32_to_le (of_nat (length (breq_events r))) @
                          concat (map len_prefixed (breq_events r)) @ slack
                in D = buf @ u32_to_le (crc buf)"
proof -
  let ?n = "unat (u32_from_le (subslice D 8 12))"
  define L where "L = length D - 4"
  have len: "12 \<le> L" "length D = L + 4" and crc: "u32_from_le (drop L D) = crc (take L D)"
    using assms by (auto simp: deserialize_batch_request_def Let_def L_def split: if_splits)
  obtain events off' e1 e2 where rd: "read_items e1 e2 D L ?n 12 = Inr (events, off')"
    and r: "r = \<lparr>breq_batch_id = u64_from_le (subslice D 0 8), breq_events = events\<rparr>"
    using assms len by (auto simp: deserialize_batch_request_def Let_def rbind_Inr_conv split: if_splits)
  from read_items_sound [OF rd] len have sound: "12 \<le> off'" "off' \<le> L" "length events = ?n"
    "subslice D 12 off' = concat (map len_prefixed events)"
    by auto
  have "u32_to_le (of_nat ?n) = subslice D 8 12" "u64_to_le (u64_from_le (subslice D 0 8)) = subslice D 0 8"
    using len by (simp_all add: to_le_from_le)
  moreover have "take L D = subslice D 0 8 @ subslice D 8 12 @ subslice D 12 off' @ subslice D off' L"
    using sound(1,2) len slice_split [of 0 8 L D] slice_split [of 8 12 L D]
      slice_split [of 12 off' L D] by (simp add: subslice_def)
  ultimately have P: "take L D = u64_to_le (breq_batch_id r) @ u32_to_le (of_nat (length (breq_events r))) @
      concat (map len_prefixed (breq_events r)) @ subslice D off' L"
    using sound(3,4) r by simp
  have "D = take L D @ u32_to_le (crc (take L D))"
    using len crc [symmetric] by (simp add: to_le_from_le)
  then show ?thesis unfolding Let_def P by (rule exI)
qed

section \<open>Properties\<close>

text \<open>
  C13: a batch request encoded by the engine is decoded by the peer to the same batch id and the same
  events in the same order, each without its \<open>source_ts\<close>, provided the serializer parses back what
  it wrote and neither the number of events nor the size of one event reaches \<open>2^32\<close>.
\<close>

theorem batch_request_roundtrip:
  assumes "serde_roundtrips S" and "encode_events S codec events = Inr encoded" and "request_fits encoded"
  shows "\<exists>data. encode_batch_request S crc batch_id events codec = Inr data \<and>
           decode_batch_request S crc data codec = Inr (batch_id, map strip_event events)"
  using assms decode_encode_events [OF assms(1,2)]
  by (simp add: encode_batch_request_def decode_batch_request_def deserialize_serialize_request)

theorem batch_request_roundtrip_witness:
  "\<exists>data. encode_batch_request byte_serde sum_crc 42 [sample_event] MsgPack = Inr data \<and>
     decode_batch_request byte_serde sum_crc data MsgPack = Inr (42, [strip_event sample_event])"
proof -
  let ?enc = "[enc_wire_event (wire_of_event sample_event)]"
  have "encode_events byte_serde MsgPack [sample_event] = Inr ?enc"
    by (simp add: encode_events_def encode_event_def byte_serde_def)
  moreover have "request_fits ?enc"
    by (simp add: request_fits_def fits_u32_def sample_event_def event_new_def wire_of_event_def
        enc_wire_event_def codec_eval)
  ultimately show ?thesis
    using batch_request_roundtrip [of byte_serde MsgPack "[sample_event]" ?enc sum_crc 42]
    by (simp add: byte_serde_roundtrips)
qed

lemma collect_encode_outputs:
  "serde_roundtrips S \<Longrightarrow> collect_results (encode_outputs S codec) outs = Inr encoded \<Longrightarrow>
     collect_results (decode_outputs S codec) encoded = Inr (map (map strip_output) outs)"
  by (rule collect_results_roundtrip) (auto intro: decode_encode_outputs)

text \<open>
  A batch response encoded by a processor is decoded by the engine to the same batch id, the
  same outputs grouped by event in the same order, each without its \<open>source_ts\<close>, and the same
  64-byte signature.
\<close>

theorem batch_response_roundtrip:
  assumes "serde_roundtrips S" and "collect_results (encode_outputs S codec) outs = Inr encoded"
    and "response_fits encoded" and "length signature = 64"
  shows "\<exists>data. encode_batch_response S crc batch_id outs signature codec = Inr data \<and>
           decode_batch_response S crc data codec =
             Inr \<lparr>dbr_batch_id = batch_id, dbr_outputs_per_event = map (map strip_output) outs,
                  dbr_signature = signature\<rparr>"
  using assms collect_encode_outputs [OF assms(1,2)]
  by (simp add: encode_batch_response_def decode_batch_response_def deserialize_serialize_response)

theorem batch_response_roundtrip_witness:
  "\<exists>data. encode_batch_response byte_serde sum_crc 1 [[output_new ''d'' [5]], []] (replicate 64 3) Json = Inr data \<and>
     decode_batch_response byte_serde sum_crc data Json =
       Inr \<lparr>dbr_batch_id = 1, dbr_outputs_per_event = [[strip_output (output_new ''d'' [5])], []],
            dbr_signature = replicate 64 3\<rparr>"
proof -
  let ?enc = "[[enc_wire_output (wire_of_output (output_new ''d'' [5]))], []]"
  have "collect_results (encode_outputs byte_serde Json) [[output_new ''d'' [5]], []] = Inr ?enc"
    by (simp add: encode_outputs_def encode_output_def byte_serde_def)
  moreover have "response_fits ?enc"
    by (simp add: response_fits_def request_fits_def fits_u32_def output_new_def wire_of_output_def
        enc_wire_output_def codec_eval)
  ultimately show ?thesis
    using batch_response_roundtrip [of byte_serde Json "[[output_new ''d'' [5]], []]" ?enc
        "replicate 64 3" sum_crc 1]
    by (simp add: byte_serde_roundtrips)
qed

text \<open>
  C15: a buffer \<open>deserialize_batch_request\<close> accepts is the canonical encoding of the request it
  returns, followed by unread slack and closed by the checksum of all bytes before it: parsing never
  reads past the payload, never invents or reorders an event, and never accepts a wrong checksum.
\<close>

theorem batch_request_accepts_only_encodings:
  assumes "deserialize_batch_request crc D = Inr r"
  shows "\<exists>slack. let buf = u64_to_le (breq_batch_id r) @ u32_to_le (of_nat (length (breq_events r))) @
                          concat (map len_prefixed (breq_events r)) @ slack
                in D = buf @ u32_to_le (crc buf)"
  using assms by (rule deserialize_request_sound)

theorem batch_request_accepts_only_encodings_witness:
  "\<exists>slack. let buf = u64_to_le 4 @ u32_to_le 2 @ concat (map len_prefixed [[1], []]) @ slack
          in serialize_batch_request sum_crc 4 [[1], []] = buf @ u32_to_le (sum_crc buf)"
  using batch_request_accepts_only_encodings
    [OF deserialize_serialize_request [of "[[1], []]" sum_crc 4]]
  by (simp add: request_fits_def fits_u32_def)

end
