(* ===== verification/Partition_Table.thy ===== *)
theory Partition_Table
  imports Aeon_Types Aeon_Maps
begin

text \<open>
  \<open>aeon-cluster/src/types.rs\<close>: ownership of partitions.  The \<open>HashMap\<close> of the table is an
  association list with distinct keys, read in the order the map would be iterated in; statements
  quantify over the list, so they hold for every iteration order.  \<open>sort_unstable\<close> followed by
  \<open>dedup\<close> is \<^term>\<open>remdups_adj\<close> of \<^term>\<open>sort\<close>.
\<close>

type_synonym node_id = u64

datatype partition_ownership = Owned node_id | Transferring (xfer_source: node_id) (xfer_target: node_id)

fun active_node :: "partition_ownership \<Rightarrow> node_id" where
  "active_node (Owned n) = n"
| "active_node (Transferring source target) = source"

fun is_transferring :: "partition_ownership \<Rightarrow> bool" where
  "is_transferring (Transferring source target) = True"
| "is_transferring _ = False"

type_synonym partition_table = "(partition_id \<times> partition_ownership) list"

definition table_new :: partition_table where
  "table_new = []"

definition single_node :: "u16 \<Rightarrow> node_id \<Rightarrow> partition_table" where
  "single_node num_partitions node =
     fold (\<lambda>i t. hm_insert (PartitionId (of_nat i)) (Owned node) t) [0..<unat num_partitions] []"

definition table_get :: "partition_table \<Rightarrow> partition_id \<Rightarrow> partition_ownership option" where
  "table_get t p = hm_get t p"

definition assign :: "partition_table \<Rightarrow> partition_id \<Rightarrow> node_id \<Rightarrow> partition_table" where
  "assign t p n = hm_insert p (Owned n) t"

definition begin_transfer :: "partition_table \<Rightarrow> partition_id \<Rightarrow> node_id \<Rightarrow> node_id \<Rightarrow> partition_table" where
  "begin_transfer t p source target = hm_insert p (Transferring source target) t"

definition complete_transfer :: "partition_table \<Rightarrow> partition_id \<Rightarrow> node_id \<Rightarrow> partition_table" where
  "complete_transfer t p new_owner = hm_insert p (Owned new_owner) t"

definition partitions_for_node :: "partition_table \<Rightarrow> node_id \<Rightarrow> partition_id list" where
  "partitions_for_node t n = map fst (filter (\<lambda>(p, ownership). active_node ownership = n) t)"

definition active_nodes :: "partition_table \<Rightarrow> node_id list" where
  "active_nodes t = remdups_adj (sort (map (\<lambda>(p, ownership). active_node ownership) t))"

definition num_partitions :: "partition_table \<Rightarrow> nat" where
  "num_partitions t = length t"

definition partition_counts :: "partition_table \<Rightarrow> (node_id \<times> nat) list" where
  "partition_counts t =
     fold (\<lambda>(p, ownership) counts. hm_upsert (active_node ownership) 0 Suc counts) t []"

lemmas table_defs = table_get_def assign_def begin_transfer_def complete_transfer_def

section \<open>Lookups after updates\<close>

lemma table_get_updates [simp]:
  "table_get (assign t p n) q = (if q = p then Some (Owned n) else table_get t q)"
  "table_get (begin_transfer t p s d) q = (if q = p then Some (Transferring s d) else table_get t q)"
  "table_get (complete_transfer t p n) q = (if q = p then Some (Owned n) else table_get t q)"
  by (auto simp: table_defs hm_simps)

lemma table_invar_updates [simp]:
  "hm_invar t \<Longrightarrow> hm_invar (assign t p n)"
  "hm_invar t \<Longrightarrow> hm_invar (begin_transfer t p s d)"
  "hm_invar t \<Longrightarrow> hm_invar (complete_transfer t p n)"
  by (auto simp: table_defs hm_simps distinct_update)

definition count_or_zero :: "(node_id \<times> nat) list \<Rightarrow> node_id \<Rightarrow> nat" where
  "count_or_zero counts n = (case hm_get counts n of None \<Rightarrow> 0 | Some c \<Rightarrow> c)"

lemma count_or_zero_upsert:
  "count_or_zero (hm_upsert k 0 Suc m) n = count_or_zero m n + (if k = n then 1 else 0)"
  by (simp add: count_or_zero_def hm_get_upsert)

lemma count_or_zero_fold:
  "count_or_zero (fold (\<lambda>(p, ownership) counts. hm_upsert (active_node ownership) 0 Suc counts) t m) n
     = count_or_zero m n + length (partitions_for_node t n)"
  by (induction t arbitrary: m) (auto simp: count_or_zero_upsert partitions_for_node_def)

text \<open>The counting loop computes, for every node, how many partitions it serves.\<close>

lemma partition_counts_or_zero:
  "count_or_zero (partition_counts t) n = length (partitions_for_node t n)"
  unfolding partition_counts_def count_or_zero_fold by (simp add: count_or_zero_def)

lemma set_partitions_for_node:
  "hm_invar t \<Longrightarrow> p \<in> set (partitions_for_node t n) \<longleftrightarrow> (\<exists>ow. table_get t p = Some ow \<and> active_node ow = n)"
  by (force simp: partitions_for_node_def table_get_def)

lemma distinct_partitions_for_node: "hm_invar t \<Longrightarrow> distinct (partitions_for_node t n)"
  unfolding partitions_for_node_def by (induction t) (auto simp: image_iff)

lemma set_active_nodes: "set (active_nodes t) = active_node ` snd ` set t"
  by (force simp: active_nodes_def image_iff)

section \<open>Moving one partition\<close>

lemma assign_present:
  "hm_invar t \<Longrightarrow> p \<in> set (map fst t) \<Longrightarrow>
     assign t p n = map (\<lambda>(q, ow). (q, if q = p then Owned n else ow)) t"
proof (induction t)
  case (Cons e t)
  have "p \<notin> set (map fst t) \<Longrightarrow> map (\<lambda>(q, ow). (q, if q = p then Owned n else ow)) t = t"
    by (rule map_idI) (auto simp: image_iff)
  with Cons show ?case by (cases e) (auto simp: assign_def)
qed simp

text \<open>Moving a present partition changes the counts of its old and its new state, by one each.\<close>

lemma count_update:
  assumes "hm_invar t" and "hm_get t p = Some ow"
  shows "length (filter (\<lambda>(q, o'). Q o') (hm_insert p ow' t)) + (if Q ow then 1 else 0)
       = length (filter (\<lambda>(q, o'). Q o') t) + (if Q ow' then 1 else 0)"
  using assms
proof (induction t)
  case (Cons e t)
  then show ?case by (cases e) (auto split: if_splits)
qed simp

lemma count_assign:
  assumes "hm_invar t" and "table_get t p = Some ow"
  shows "length (partitions_for_node (assign t p m) n) + (if active_node ow = n then 1 else 0)
       = length (partitions_for_node t n) + (if m = n then 1 else 0)"
  using count_update [of t p ow "\<lambda>o'. active_node o' = n" "Owned m"] assms
  by (simp add: table_get_def assign_def partitions_for_node_def)

lemma length_assign:
  "p \<in> set (map fst t) \<Longrightarrow> length (assign t p n) = length t"
  by (induction t) (auto simp: assign_def)

end
