(* ===== verification/Partition_Manager.thy ===== *)
theory Partition_Manager
  imports Partition_Table
begin

text \<open>
  \<open>aeon-cluster/src/partition_manager.rs\<close>: the initial round-robin assignment and the greedy
  rebalance the replicated state machine runs.  A panic is \<^term>\<open>None\<close>.
\<close>

definition initial_assignment :: "u16 \<Rightarrow> node_id list \<Rightarrow> (partition_id \<times> node_id) list option" where
  "initial_assignment num nodes =
     (if nodes = [] then None
      else Some (map (\<lambda>i. (PartitionId (of_nat i), nodes ! (i mod length nodes)))
                   [0..<unat num]))"

definition my_partitions :: "partition_table \<Rightarrow> node_id \<Rightarrow> partition_id list" where
  "my_partitions t n = partitions_for_node t n"

section \<open>The rebalance loop\<close>

text \<open>
  \<open>underloaded.iter().position(..)\<close> followed by the decrement: the first entry with a positive
  deficit and the list with that deficit reduced.
\<close>

fun take_slot :: "(node_id \<times> nat) list \<Rightarrow> (node_id \<times> (node_id \<times> nat) list) option" where
  "take_slot [] = None"
| "take_slot ((n, d) # us) =
     (if d > 0 then Some (n, (n, d - 1) # us)
      else case take_slot us of None \<Rightarrow> None | Some (to, us') \<Rightarrow> Some (to, (n, d) # us'))"

type_synonym move = "partition_id \<times> node_id \<times> node_id"

fun move_orphans :: "(partition_id \<times> node_id) list \<Rightarrow> (node_id \<times> nat) list \<Rightarrow> move list
    \<Rightarrow> (node_id \<times> nat) list \<times> move list" where
  "move_orphans [] und moves = (und, moves)"
| "move_orphans ((p, src) # orphans) und moves =
     (case take_slot und of
        None \<Rightarrow> move_orphans orphans und moves
      | Some (to, und') \<Rightarrow> move_orphans orphans und' (moves @ [(p, src, to)]))"

fun move_from_node :: "node_id \<Rightarrow> partition_id list \<Rightarrow> nat \<Rightarrow> (node_id \<times> nat) list \<Rightarrow> move list
    \<Rightarrow> (node_id \<times> nat) list \<times> move list" where
  "move_from_node over_node [] excess und moves = (und, moves)"
| "move_from_node over_node (p # ps) excess und moves =
     (if excess = 0 then (und, moves)
      else case take_slot und of
             None \<Rightarrow> move_from_node over_node ps excess und moves
           | Some (to, und') \<Rightarrow>
               move_from_node over_node ps (excess - 1) und' (moves @ [(p, over_node, to)]))"

fun move_excess :: "partition_table \<Rightarrow> (node_id \<times> nat) list \<Rightarrow> (node_id \<times> nat) list \<Rightarrow> move list
    \<Rightarrow> (node_id \<times> nat) list \<times> move list" where
  "move_excess t [] und moves = (und, moves)"
| "move_excess t ((over_node, excess) # over) und moves =
     (if excess = 0 then move_excess t over und moves
      else
        let (und', moves') = move_from_node over_node (partitions_for_node t over_node) excess und moves
        in move_excess t over und' moves')"

definition target_counts :: "nat \<Rightarrow> node_id list \<Rightarrow> (node_id \<times> nat) list" where
  "target_counts tot nodes =
     (let n = length nodes; base = tot div n; extra = tot mod n
      in fold (\<lambda>(i, node) m. hm_insert node (if i < extra then base + 1 else base) m)
           (enumerate 0 nodes) [])"

definition overloaded_nodes :: "partition_table \<Rightarrow> node_id list \<Rightarrow> (node_id \<times> nat) list" where
  "overloaded_nodes t nodes =
     (let targets = target_counts (num_partitions t) nodes; current_counts = partition_counts t
      in concat (map (\<lambda>node.
           let current = count_or_zero current_counts node; target = the (hm_get targets node)
           in if current > target then [(node, current - target)] else []) nodes))"

definition underloaded_nodes :: "partition_table \<Rightarrow> node_id list \<Rightarrow> (node_id \<times> nat) list" where
  "underloaded_nodes t nodes =
     (let targets = target_counts (num_partitions t) nodes; current_counts = partition_counts t
      in concat (map (\<lambda>node.
           let current = count_or_zero current_counts node; target = the (hm_get targets node)
           in if current > target then [] else if current < target then [(node, target - current)] else [])
           nodes))"

definition orphaned_partitions :: "partition_table \<Rightarrow> node_id list \<Rightarrow> (partition_id \<times> node_id) list" where
  "orphaned_partitions t nodes =
     (let targets = target_counts (num_partitions t) nodes
      in map (\<lambda>(p, ow). (p, active_node ow))
           (filter (\<lambda>(p, ow). hm_get targets (active_node ow) = None) t))"

definition compute_rebalance :: "partition_table \<Rightarrow> node_id list \<Rightarrow> move list" where
  "compute_rebalance t nodes =
     (if nodes = [] \<or> num_partitions t = 0 then []
      else
        let (und, moves) = move_orphans (orphaned_partitions t nodes) (underloaded_nodes t nodes) []
        in snd (move_excess t (overloaded_nodes t nodes) und moves))"

text \<open>The moves as the state machine applies them (\<open>store.rs\<close>, \<open>RebalancePartitions\<close>).\<close>

definition apply_moves :: "partition_table \<Rightarrow> move list \<Rightarrow> partition_table" where
  "apply_moves t moves = fold (\<lambda>(p, _, to) t. assign t p to) moves t"

section \<open>The loop pairs movers with slots\<close>

definition slots :: "(node_id \<times> nat) list \<Rightarrow> node_id list" where
  "slots us = concat (map (\<lambda>(n, d). replicate d n) us)"

lemma slots_simps [simp]:
  "slots [] = []" "slots ((n, d) # us) = replicate d n @ slots us" "slots (us @ vs) = slots us @ slots vs"
  by (simp_all add: slots_def)

lemma take_slot_slots:
  "(case take_slot us of None \<Rightarrow> slots us = [] | Some (to, us') \<Rightarrow> slots us = to # slots us')"
proof (induction us rule: take_slot.induct)
  case (2 n d us)
  then show ?case by (cases d) (auto split: option.splits)
qed simp

lemma take_slot_None: "take_slot us = None \<longleftrightarrow> slots us = []"
  using take_slot_slots [of us] by (auto split: option.splits)

lemma take_slot_Some: "take_slot us = Some (to, us') \<Longrightarrow> slots us = to # slots us'"
  using take_slot_slots [of us] by simp

definition pair_moves :: "(partition_id \<times> node_id) list \<Rightarrow> node_id list \<Rightarrow> move list" where
  "pair_moves movers ss = map (\<lambda>((p, src), to). (p, src, to)) (zip movers ss)"

lemma pair_moves_simps [simp]:
  "pair_moves [] ss = []" "pair_moves ms [] = []"
  "pair_moves ((p, src) # ms) (s # ss) = (p, src, s) # pair_moves ms ss"
  by (simp_all add: pair_moves_def)

lemma pair_moves_append:
  "pair_moves (xs @ ys) ss = pair_moves xs ss @ pair_moves ys (drop (length xs) ss)"
proof (induction xs arbitrary: ss)
  case (Cons x xs)
  then show ?case by (cases x; cases ss) simp_all
qed simp

lemma move_orphans_pairs:
  "move_orphans orphans und moves = (und', moves') \<Longrightarrow>
     moves' = moves @ pair_moves orphans (slots und) \<and> slots und' = drop (length orphans) (slots und)"
proof (induction orphans und moves rule: move_orphans.induct)
  case (2 p src orphans und moves)
  show ?case
  proof (cases "take_slot und")
    case None
    with 2 show ?thesis by (simp add: take_slot_None)
  next
    case (Some a)
    obtain to u where "a = (to, u)" by force
    with 2 Some show ?thesis by (simp add: take_slot_Some)
  qed
qed simp

lemma move_from_node_pairs:
  "move_from_node n ps excess und moves = (und', moves') \<Longrightarrow>
     moves' = moves @ pair_moves (map (\<lambda>p. (p, n)) (take excess ps)) (slots und) \<and>
     slots und' = drop (min excess (length ps)) (slots und)"
proof (induction n ps excess und moves rule: move_from_node.induct)
  case (2 n p ps excess und moves)
  show ?case
  proof (cases "excess = 0")
    case True
    with 2 show ?thesis by simp
  next
    case False
    then obtain k where k: "excess = Suc k" by (cases excess) auto
    show ?thesis
    proof (cases "take_slot und")
      case None
      with 2 k show ?thesis by (simp add: take_slot_None)
    next
      case (Some a)
      obtain to u where "a = (to, u)" by force
      with 2 Some k show ?thesis by (simp add: take_slot_Some)
    qed
  qed
qed simp

definition excess_movers :: "partition_table \<Rightarrow> (node_id \<times> nat) list \<Rightarrow> (partition_id \<times> node_id) list" where
  "excess_movers t over = concat (map (\<lambda>(n, e). map (\<lambda>p. (p, n)) (take e (partitions_for_node t n))) over)"

lemma move_excess_pairs:
  "move_excess t over und moves = (und', moves') \<Longrightarrow>
     moves' = moves @ pair_moves (excess_movers t over) (slots und)"
proof (induction t over und moves rule: move_excess.induct)
  case (2 t n e over und moves)
  obtain u m where um: "move_from_node n (partitions_for_node t n) e und moves = (u, m)" by force
  note pr = move_from_node_pairs [OF um]
  show ?case
  proof (cases "e = 0")
    case True
    with 2 show ?thesis by (simp add: excess_movers_def)
  next
    case False
    with 2 um have "moves' = m @ pair_moves (excess_movers t over) (slots u)" by simp
    with pr show ?thesis
      by (simp add: excess_movers_def pair_moves_append min.commute)
  qed
qed (simp add: excess_movers_def)

text \<open>
  The nested loops are one pairing: first the orphaned partitions, then the surplus of every
  overloaded node, each with the next free slot of an underloaded node.
\<close>

definition movers :: "partition_table \<Rightarrow> node_id list \<Rightarrow> (partition_id \<times> node_id) list" where
  "movers t nodes = orphaned_partitions t nodes @ excess_movers t (overloaded_nodes t nodes)"

lemma compute_rebalance_pairs:
  assumes "nodes \<noteq> []" and "t \<noteq> []"
  shows "compute_rebalance t nodes = pair_moves (movers t nodes) (slots (underloaded_nodes t nodes))"
proof -
  obtain u m where um: "move_orphans (orphaned_partitions t nodes) (underloaded_nodes t nodes) [] = (u, m)"
    by force
  obtain u' m' where um': "move_excess t (overloaded_nodes t nodes) u m = (u', m')" by force
  show ?thesis
    using assms move_orphans_pairs [OF um] move_excess_pairs [OF um'] um um'
    by (simp add: compute_rebalance_def num_partitions_def movers_def pair_moves_append)
qed

section \<open>Targets and counts\<close>

lemma fold_enumerate_other:
  "n \<notin> set nodes \<Longrightarrow> hm_get (fold (\<lambda>(j, node) m. hm_insert node (f j) m) (enumerate k nodes) m) n = hm_get m n"
  by (induction nodes arbitrary: k m) (auto simp: hm_simps)

lemma fold_enumerate_nth:
  "distinct nodes \<Longrightarrow> i < length nodes \<Longrightarrow>
     hm_get (fold (\<lambda>(j, node) m. hm_insert node (f j) m) (enumerate k nodes) m) (nodes ! i) = Some (f (k + i))"
proof (induction nodes arbitrary: k m i)
  case (Cons a nodes)
  then show ?case by (cases i) (auto simp: hm_simps fold_enumerate_other)
qed simp

definition target_of :: "nat \<Rightarrow> node_id list \<Rightarrow> node_id \<Rightarrow> nat" where
  "target_of tot nodes n = the (hm_get (target_counts tot nodes) n)"

lemma target_counts_nth:
  assumes "distinct nodes" and "i < length nodes"
  shows "hm_get (target_counts tot nodes) (nodes ! i) =
     Some (tot div length nodes + (if i < tot mod length nodes then 1 else 0))"
  using fold_enumerate_nth [OF assms, of "\<lambda>i. if i < tot mod length nodes then tot div length nodes + 1 else tot div length nodes" 0 "[]"]
  by (simp add: target_counts_def Let_def)

lemma target_counts_None:
  "distinct nodes \<Longrightarrow> hm_get (target_counts tot nodes) n = None \<longleftrightarrow> n \<notin> set nodes"
  using fold_enumerate_other [of n nodes "\<lambda>i. if i < tot mod length nodes then tot div length nodes + 1 else tot div length nodes" 0 "[]"]
  by (auto simp: in_set_conv_nth target_counts_nth) (simp add: target_counts_def Let_def)

lemma sum_round_robin:
  "r \<le> m \<Longrightarrow> (\<Sum>i<m. b + (if i < r then 1 else 0)) = m * b + (r :: nat)"
proof -
  assume "r \<le> m"
  then have "{i. i < m \<and> i < r} = {..<r}" by auto
  then have "(\<Sum>i<m. (if i < r then 1 else 0)) = r"
    using sum.inter_filter [of "{..<m}" "\<lambda>_. 1 :: nat" "\<lambda>i. i < r"] by simp
  then show ?thesis by (simp add: sum.distrib)
qed

lemma sum_targets:
  assumes "distinct nodes" and "nodes \<noteq> []"
  shows "sum_list (map (target_of tot nodes) nodes) = tot"
proof -
  have "sum_list (map (target_of tot nodes) nodes) = (\<Sum>i<length nodes. target_of tot nodes (nodes ! i))"
    by (simp add: sum_list_sum_nth atLeast0LessThan)
  also have "\<dots> = (\<Sum>i<length nodes. tot div length nodes + (if i < tot mod length nodes then 1 else 0))"
    by (rule sum.cong) (simp_all add: target_of_def target_counts_nth [OF assms(1)])
  also have "\<dots> = length nodes * (tot div length nodes) + tot mod length nodes"
    using assms(2) by (intro sum_round_robin) (simp add: less_imp_le)
  finally show ?thesis by simp
qed

abbreviation cnt :: "partition_table \<Rightarrow> node_id \<Rightarrow> nat" where
  "cnt t n \<equiv> length (partitions_for_node t n)"

lemma sum_list_indicator:
  "distinct nodes \<Longrightarrow> sum_list (map (\<lambda>n. if a = n then 1 else 0) nodes) = (if a \<in> set nodes then 1 else (0 :: nat))"
  by (induction nodes) auto

lemma cnt_Cons: "cnt ((p, ow) # t) n = (if active_node ow = n then 1 else 0) + cnt t n"
  by (simp add: partitions_for_node_def)

lemma orphans_plus_counts:
  "distinct nodes \<Longrightarrow>
     length (filter (\<lambda>(p, ow). active_node ow \<notin> set nodes) t) + sum_list (map (cnt t) nodes) = length t"
proof (induction t)
  case Nil
  then show ?case by (simp add: partitions_for_node_def)
next
  case (Cons e t)
  obtain p ow where e: "e = (p, ow)" by force
  have "sum_list (map (cnt (e # t)) nodes) =
      sum_list (map (\<lambda>n. if active_node ow = n then 1 else 0) nodes) + sum_list (map (cnt t) nodes)"
    unfolding e cnt_Cons by (rule sum_list_addf)
  with Cons sum_list_indicator [of nodes "active_node ow"] show ?case by (auto simp: e)
qed

section \<open>Movers and slots\<close>

lemma overloaded_nodes_alt:
  "overloaded_nodes t nodes =
     concat (map (\<lambda>n. if cnt t n > target_of (length t) nodes n
                     then [(n, cnt t n - target_of (length t) nodes n)] else []) nodes)"
  unfolding overloaded_nodes_def partition_counts_or_zero target_of_def num_partitions_def Let_def ..

lemma slots_underloaded:
  "slots (underloaded_nodes t nodes) =
     concat (map (\<lambda>n. replicate (target_of (length t) nodes n - cnt t n) n) nodes)"
proof -
  let ?f = "\<lambda>n. if cnt t n > target_of (length t) nodes n then []
      else if cnt t n < target_of (length t) nodes n then [(n, target_of (length t) nodes n - cnt t n)] else []"
  have "slots (concat (map ?f ns)) = concat (map (\<lambda>n. replicate (target_of (length t) nodes n - cnt t n) n) ns)" for ns
    by (induction ns) auto
  then show ?thesis
    unfolding underloaded_nodes_def partition_counts_or_zero target_of_def num_partitions_def Let_def .
qed

lemma excess_movers_alt:
  "excess_movers t (overloaded_nodes t nodes) =
     concat (map (\<lambda>n. map (\<lambda>p. (p, n)) (take (cnt t n - target_of (length t) nodes n) (partitions_for_node t n))) nodes)"
proof -
  let ?f = "\<lambda>n. if cnt t n > target_of (length t) nodes n then [(n, cnt t n - target_of (length t) nodes n)] else []"
  have "excess_movers t (concat (map ?f ns)) =
      concat (map (\<lambda>n. map (\<lambda>p. (p, n)) (take (cnt t n - target_of (length t) nodes n) (partitions_for_node t n))) ns)" for ns
    by (induction ns) (auto simp: excess_movers_def)
  then show ?thesis by (simp add: overloaded_nodes_alt)
qed

lemma orphaned_alt:
  "distinct nodes \<Longrightarrow> orphaned_partitions t nodes =
     map (\<lambda>(p, ow). (p, active_node ow)) (filter (\<lambda>(p, ow). active_node ow \<notin> set nodes) t)"
  by (simp add: orphaned_partitions_def target_counts_None Let_def)

lemma sum_list_diff_balance:
  "sum_list (map (\<lambda>n. f n - g n) ns) + sum_list (map g ns) =
     sum_list (map (\<lambda>n. g n - f n) ns) + sum_list (map f ns :: nat list)"
  by (induction ns) auto

text \<open>There are exactly as many free slots as partitions that have to move.\<close>

lemma movers_slots_length:
  assumes "distinct nodes" and "nodes \<noteq> []"
  shows "length (movers t nodes) = length (slots (underloaded_nodes t nodes))"
proof -
  let ?tg = "target_of (length t) nodes"
  have "length (orphaned_partitions t nodes) + sum_list (map (cnt t) nodes) = length t"
    using orphans_plus_counts [OF assms(1)] by (simp add: orphaned_alt [OF assms(1)])
  moreover have "length (excess_movers t (overloaded_nodes t nodes)) = sum_list (map (\<lambda>n. cnt t n - ?tg n) nodes)"
    by (simp add: excess_movers_alt length_concat comp_def)
  moreover have "length (slots (underloaded_nodes t nodes)) = sum_list (map (\<lambda>n. ?tg n - cnt t n) nodes)"
    by (simp add: slots_underloaded length_concat comp_def)
  moreover have "sum_list (map ?tg nodes) = length t"
    by (rule sum_targets [OF assms])
  ultimately show ?thesis
    using sum_list_diff_balance [of "cnt t" ?tg nodes] by (simp add: movers_def)
qed

section \<open>Effect of the moves\<close>

lemma apply_moves_simps [simp]:
  "apply_moves t [] = t" "apply_moves t ((p, src, to) # ms) = apply_moves (assign t p to) ms"
  by (simp_all add: apply_moves_def)

definition served_by :: "partition_table \<Rightarrow> partition_id \<Rightarrow> node_id \<Rightarrow> bool" where
  "served_by t p n \<longleftrightarrow> (\<exists>ow. table_get t p = Some ow \<and> active_node ow = n)"

lemma served_by_assign_other: "q \<noteq> p \<Longrightarrow> served_by (assign t p to) q n \<longleftrightarrow> served_by t q n"
  by (simp add: served_by_def)

lemma served_by_step:
  assumes "\<forall>(q, src, to) \<in> set ((p, s, d) # ms). served_by t q src" and "distinct (map fst ((p, s, d) # ms))"
  shows "\<forall>(q, src, to) \<in> set ms. served_by (assign t p d) q src"
proof clarify
  fix q src to
  assume "(q, src, to) \<in> set ms"
  moreover from this have "q \<noteq> p" using assms(2) by (auto simp: image_iff)
  ultimately show "served_by (assign t p d) q src"
    using assms(1) by (auto simp: served_by_assign_other)
qed

lemma apply_moves_keeps:
  "\<forall>(p, src, to) \<in> set ms. served_by t p src \<Longrightarrow> hm_invar t \<Longrightarrow> distinct (map fst ms) \<Longrightarrow>
     hm_invar (apply_moves t ms) \<and> length (apply_moves t ms) = length t \<and>
     (\<forall>p. table_get (apply_moves t ms) p = None \<longleftrightarrow> table_get t p = None)"
proof (induction ms arbitrary: t)
  case (Cons m ms)
  obtain p src to where m: "m = (p, src, to)" by (cases m) auto
  have "\<forall>(q, src', to') \<in> set ms. served_by (assign t p to) q src'"
    using served_by_step Cons.prems m by blast
  moreover have "p \<in> set (map fst t)"
    using Cons.prems m by (auto simp: served_by_def table_get_def dest!: map_of_SomeD intro: rev_image_eqI)
  ultimately show ?case
    using Cons.IH [of "assign t p to"] Cons.prems m by (auto simp: length_assign served_by_def)
qed simp

text \<open>Conservation: a node loses the partitions moved away from it and gains those moved to it.\<close>

lemma cnt_apply_moves:
  "\<forall>(p, src, to) \<in> set ms. served_by t p src \<Longrightarrow> hm_invar t \<Longrightarrow> distinct (map fst ms) \<Longrightarrow>
     cnt (apply_moves t ms) n + length (filter (\<lambda>(p, src, to). src = n) ms)
       = cnt t n + length (filter (\<lambda>(p, src, to). to = n) ms)"
proof (induction ms arbitrary: t)
  case (Cons m ms)
  obtain p src to where m: "m = (p, src, to)" by (cases m) auto
  have "\<forall>(q, src', to') \<in> set ms. served_by (assign t p to) q src'"
    using served_by_step Cons.prems m by blast
  then have IH: "cnt (apply_moves (assign t p to) ms) n + length (filter (\<lambda>(p, src, to). src = n) ms)
      = cnt (assign t p to) n + length (filter (\<lambda>(p, src, to). to = n) ms)"
    using Cons.IH [of "assign t p to"] Cons.prems m by auto
  obtain ow where "table_get t p = Some ow" "active_node ow = src"
    using Cons.prems(1) m by (auto simp: served_by_def)
  with count_assign [of t p ow to n] Cons.prems(2) IH show ?case by (auto simp: m split: if_splits)
qed simp

lemma served_by_unique: "served_by t p n \<Longrightarrow> served_by t p m \<Longrightarrow> n = m"
  by (auto simp: served_by_def)

lemma movers_served:
  assumes "hm_invar t" and "distinct nodes" and "(p, n) \<in> set (movers t nodes)"
  shows "served_by t p n"
  using assms
  by (auto simp: movers_def orphaned_alt excess_movers_alt served_by_def table_get_def
      set_partitions_for_node dest!: in_set_takeD)

lemma distinct_excess_movers:
  assumes "hm_invar t" and "distinct nodes"
  shows "distinct (map fst (concat (map (\<lambda>n. map (\<lambda>p. (p, n)) (take (k n) (partitions_for_node t n))) nodes)))"
  using assms(2)
proof (induction nodes)
  case (Cons n nodes)
  have "p \<in> set (partitions_for_node t n) \<Longrightarrow> p \<in> set (partitions_for_node t m) \<Longrightarrow> n = m" for p m
    using assms(1) by (auto simp: set_partitions_for_node)
  with Cons show ?case
    using distinct_partitions_for_node [OF assms(1), of n]
    by (auto simp: comp_def dest!: in_set_takeD) metis
qed simp

lemma distinct_movers:
  assumes "hm_invar t" and "distinct nodes"
  shows "distinct (map fst (movers t nodes))"
proof -
  have "distinct (map fst (orphaned_partitions t nodes))"
    using assms by (simp add: orphaned_alt comp_def case_prod_unfold distinct_map_filter)
  moreover have "distinct (map fst (excess_movers t (overloaded_nodes t nodes)))"
    unfolding excess_movers_alt by (rule distinct_excess_movers [OF assms])
  moreover have False
    if n: "(p, n) \<in> set (orphaned_partitions t nodes)"
      and m: "(p, m) \<in> set (excess_movers t (overloaded_nodes t nodes))" for p n m
  proof -
    have "m \<in> set nodes" using m by (auto simp: excess_movers_alt)
    moreover have "n \<notin> set nodes" using n by (auto simp: orphaned_alt [OF assms(2)])
    moreover have "served_by t p n" "served_by t p m"
      using n m by (auto intro!: movers_served [OF assms] simp: movers_def)
    ultimately show False using served_by_unique by blast
  qed
  ultimately show ?thesis by (auto simp: movers_def)
qed

lemma pair_moves_maps:
  assumes "length ms = length ss"
  shows "map fst (pair_moves ms ss) = map fst ms"
    and "length (filter (\<lambda>(p, src, to). src = n) (pair_moves ms ss)) = length (filter (\<lambda>(p, src). src = n) ms)"
    and "length (filter (\<lambda>(p, src, to). to = n) (pair_moves ms ss)) = length (filter (\<lambda>s. s = n) ss)"
  using assms by (induction ms ss rule: list_induct2) auto

lemma set_pair_moves: "(p, src, to) \<in> set (pair_moves ms ss) \<Longrightarrow> (p, src) \<in> set ms \<and> to \<in> set ss"
  by (auto simp: pair_moves_def dest: set_zip_leftD set_zip_rightD)

lemma filter_concat_one:
  "distinct nodes \<Longrightarrow> n \<in> set nodes \<Longrightarrow> (\<And>m x. x \<in> set (f m) \<Longrightarrow> P x \<longleftrightarrow> m = n) \<Longrightarrow>
     filter P (concat (map f nodes)) = f n"
proof (induction nodes)
  case (Cons a nodes)
  have none: "n \<notin> set ms \<Longrightarrow> filter P (concat (map f ms)) = []" for ms
    by (induction ms) (auto simp: filter_empty_conv Cons.prems(3))
  have eq: "filter P (f n) = f n" using Cons.prems(3) by (simp add: filter_id_conv)
  show ?case
  proof (cases "a = n")
    case True
    then show ?thesis using Cons.prems none [of nodes] eq by simp
  next
    case False
    then have "filter P (f a) = []" using Cons.prems(3) by (auto simp: filter_empty_conv)
    then show ?thesis using Cons False by simp
  qed
qed simp

lemma movers_from_node:
  assumes "distinct nodes" and "n \<in> set nodes"
  shows "length (filter (\<lambda>(p, src). src = n) (movers t nodes)) = cnt t n - target_of (length t) nodes n"
proof -
  have "filter (\<lambda>(p, src). src = n) (orphaned_partitions t nodes) = []"
    using assms by (auto simp: orphaned_alt filter_empty_conv)
  moreover have "filter (\<lambda>(p, src). src = n) (excess_movers t (overloaded_nodes t nodes)) =
      map (\<lambda>p. (p, n)) (take (cnt t n - target_of (length t) nodes n) (partitions_for_node t n))"
    unfolding excess_movers_alt by (rule filter_concat_one [OF assms]) auto
  ultimately show ?thesis by (simp add: movers_def)
qed

lemma slots_for_node:
  assumes "distinct nodes" and "n \<in> set nodes"
  shows "length (filter (\<lambda>s. s = n) (slots (underloaded_nodes t nodes))) = target_of (length t) nodes n - cnt t n"
  unfolding slots_underloaded
  by (subst filter_concat_one [OF assms]) (auto split: if_splits)

lemma rebalance_moves:
  assumes "hm_invar t" and "distinct nodes" and "nodes \<noteq> []" and "t \<noteq> []"
  shows "\<forall>(p, src, to) \<in> set (compute_rebalance t nodes). served_by t p src"
    and "distinct (map fst (compute_rebalance t nodes))"
    and "n \<in> set nodes \<Longrightarrow> length (filter (\<lambda>(p, src, to). src = n) (compute_rebalance t nodes))
          = cnt t n - target_of (length t) nodes n"
    and "n \<in> set nodes \<Longrightarrow> length (filter (\<lambda>(p, src, to). to = n) (compute_rebalance t nodes))
          = target_of (length t) nodes n - cnt t n"
  using assms movers_slots_length [OF assms(2,3), of t]
  by (auto simp: compute_rebalance_pairs pair_moves_maps distinct_movers movers_from_node slots_for_node
      dest!: set_pair_moves intro: movers_served)

lemma rebalance_counts:
  assumes "hm_invar t" and "distinct nodes" and "nodes \<noteq> []" and "t \<noteq> []" and "n \<in> set nodes"
  shows "cnt (apply_moves t (compute_rebalance t nodes)) n = target_of (length t) nodes n"
  using cnt_apply_moves [OF rebalance_moves(1) [OF assms(1-4)] assms(1) rebalance_moves(2) [OF assms(1-4)], of n]
    rebalance_moves(3,4) [OF assms]
  by linarith

lemma rebalance_no_orphans:
  assumes "hm_invar t" and "distinct nodes" and "nodes \<noteq> []" and "t \<noteq> []"
    and "table_get (apply_moves t (compute_rebalance t nodes)) p = Some ow"
  shows "active_node ow \<in> set nodes"
proof -
  let ?t = "apply_moves t (compute_rebalance t nodes)"
  have keep: "hm_invar ?t" "length ?t = length t"
    using apply_moves_keeps [OF rebalance_moves(1) [OF assms(1-4)] assms(1) rebalance_moves(2) [OF assms(1-4)]]
    by auto
  have "sum_list (map (cnt ?t) nodes) = sum_list (map (target_of (length t) nodes) nodes)"
    using rebalance_counts [OF assms(1-4)] by (auto intro: arg_cong [where f = sum_list])
  then have "sum_list (map (cnt ?t) nodes) = length t" by (simp add: sum_targets [OF assms(2,3)])
  then have "filter (\<lambda>(p, ow). active_node ow \<notin> set nodes) ?t = []"
    using orphans_plus_counts [OF assms(2), of ?t] keep(2) by simp
  moreover have "(p, ow) \<in> set ?t" using assms(5) by (auto simp: table_get_def dest: map_of_SomeD)
  ultimately show ?thesis by (auto simp: filter_empty_conv)
qed

section \<open>Properties\<close>

text \<open>
  C2: for a table with partitions and distinct target nodes, applying the moves \<open>compute_rebalance\<close>
  returns leaves node \<open>i\<close> of the list with exactly \<open>total / n\<close> partitions, one more for the first
  \<open>total % n\<close> nodes, leaves every partition on one of the nodes, and neither loses nor invents a
  partition.
\<close>

theorem compute_rebalance_balances:
  assumes "hm_invar t" and "distinct nodes" and "t \<noteq> []" and "nodes \<noteq> []"
  defines "t' \<equiv> apply_moves t (compute_rebalance t nodes)"
  shows "(\<forall>i < length nodes. length (partitions_for_node t' (nodes ! i))
            = num_partitions t div length nodes + (if i < num_partitions t mod length nodes then 1 else 0)) \<and>
         (\<forall>p ow. table_get t' p = Some ow \<longrightarrow> active_node ow \<in> set nodes) \<and>
         (\<forall>p. table_get t' p = None \<longleftrightarrow> table_get t p = None)"
  using rebalance_counts [OF assms(1,2,4,3)] rebalance_no_orphans [OF assms(1,2,4,3)]
    apply_moves_keeps [OF rebalance_moves(1) [OF assms(1,2,4,3)] assms(1) rebalance_moves(2) [OF assms(1,2,4,3)]]
  by (auto simp: t'_def target_of_def target_counts_nth [OF assms(2)] num_partitions_def)

definition sample_table :: partition_table where
  "sample_table = [(PartitionId 0, Owned 1), (PartitionId 1, Owned 1), (PartitionId 2, Transferring 1 2),
     (PartitionId 3, Owned 9)]"

theorem compute_rebalance_balances_witness:
  "length (partitions_for_node (apply_moves sample_table (compute_rebalance sample_table [1, 2])) 2) = 2"
proof -
  have "hm_invar sample_table" "sample_table \<noteq> []" "num_partitions sample_table = 4"
    by (simp_all add: sample_table_def num_partitions_def)
  with compute_rebalance_balances [OF this(1) _ this(2), of "[1, 2]", THEN conjunct1, rule_format, of 1]
  show ?thesis by (simp flip: numeral_2_eq_2)
qed

section \<open>Initial assignment\<close>

lemma filter_mod_length:
  "j < m \<Longrightarrow> length (filter (\<lambda>i. i mod m = j) [0..<n]) = n div m + (if j < n mod m then 1 else 0)"
proof (induction n)
  case (Suc n)
  then have "0 < m" by simp
  then have "Suc n mod m = (if Suc (n mod m) = m then 0 else Suc (n mod m))"
    "Suc n div m = n div m + (if Suc (n mod m) = m then 1 else 0)"
    by (simp_all add: mod_Suc div_Suc)
  with Suc show ?case by auto
qed simp

text \<open>
  The initial assignment names every partition below \<open>num_partitions\<close> exactly once, in order,
  and gives node \<open>j\<close> of a list of distinct nodes \<open>num_partitions / n\<close> of them, one more when
  \<open>j < num_partitions % n\<close>; it does not panic, since the list has a node.
\<close>

theorem initial_assignment_balanced:
  assumes "distinct nodes" and "j < length nodes"
  shows "\<exists>as. initial_assignment num nodes = Some as \<and>
           map fst as = map (\<lambda>i. PartitionId (of_nat i)) [0..<unat num] \<and> distinct (map fst as) \<and>
           length (filter (\<lambda>(p, n). n = nodes ! j) as)
             = unat num div length nodes + (if j < unat num mod length nodes then 1 else 0)"
proof -
  let ?as = "map (\<lambda>i. (PartitionId (of_nat i), nodes ! (i mod length nodes))) [0..<unat num]"
  have "map fst ?as = map (\<lambda>i. PartitionId (of_nat i)) [0..<unat num]" by simp
  moreover have "distinct (map (\<lambda>i. PartitionId (of_nat i)) [0..<unat num])"
    using of_nat_inj_below [of num] by (simp add: inj_on_def distinct_map)
  moreover have "nodes ! (i mod length nodes) = nodes ! j \<longleftrightarrow> i mod length nodes = j" for i
    using assms by (subst nth_eq_iff_index_eq) (auto intro!: mod_less_divisor)
  then have "length (filter (\<lambda>(p, n). n = nodes ! j) ?as) = length (filter (\<lambda>i. i mod length nodes = j) [0..<unat num])"
    by (simp add: filter_map comp_def)
  ultimately show ?thesis
    using assms by (intro exI [of _ ?as]) (auto simp: initial_assignment_def filter_mod_length simp del: map_map)
qed

theorem initial_assignment_balanced_witness:
  "\<exists>as. initial_assignment 7 [10, 20, 30] = Some as \<and>
     map fst as = map (\<lambda>i. PartitionId (of_nat i)) [0..<unat (7 :: u16)] \<and> distinct (map fst as) \<and>
     length (filter (\<lambda>(p, n). n = [10, 20, 30] ! 0) as) = 3"
  using initial_assignment_balanced [of "[10, 20, 30]" 0 7] by simp

end
