(* ===== verification/Cluster_State.thy ===== *)
theory Cluster_State
  imports Partition_Manager
begin

text \<open>
  The replicated cluster state: \<open>ClusterRequest\<close> and \<open>ClusterResponse\<close>
  (\<open>aeon-cluster/src/types.rs\<close>), \<open>ClusterSnapshot\<close> (\<open>snapshot.rs\<close>) and
  \<open>StateMachineStore::apply_request\<close> (\<open>store.rs\<close>).  A panic is \<^term>\<open>None\<close>.
\<close>

datatype cluster_request =
    AssignPartition partition_id node_id
  | BeginTransfer partition_id node_id node_id
  | CompleteTransfer partition_id node_id
  | AbortTransfer partition_id node_id
  | UpdateConfig string string
  | SubmitCheckpoint "(u16 \<times> i64) list"
  | RebalancePartitions "node_id list"
  | InitialAssignment u16 "node_id list"
  | Registry bytes

datatype cluster_response = RespOk | RespError string | RespRegistry bytes

record cluster_snapshot =
  cs_partition_table :: partition_table
  cs_last_applied_log_index :: u64
  cs_last_applied_log_term :: u64
  cs_source_anchor_offsets :: "(partition_id \<times> u64) list"
  cs_poh_checkpoint :: "bytes option"
  cs_config_overrides :: "(string \<times> string) list"

definition snapshot_default :: cluster_snapshot where
  "snapshot_default =
     \<lparr>cs_partition_table = table_new, cs_last_applied_log_index = 0, cs_last_applied_log_term = 0,
      cs_source_anchor_offsets = [], cs_poh_checkpoint = None, cs_config_overrides = []\<rparr>"

definition new_single_node :: "u16 \<Rightarrow> node_id \<Rightarrow> cluster_snapshot" where
  "new_single_node n node = snapshot_default\<lparr>cs_partition_table := single_node n node\<rparr>"

text \<open>\<open>offset > *entry as i64\<close> compares the stored \<open>u64\<close> reinterpreted as signed.\<close>

definition submit_offset :: "u16 \<times> i64 \<Rightarrow> (partition_id \<times> u64) list \<Rightarrow> (partition_id \<times> u64) list" where
  "submit_offset e anchors =
     hm_upsert (PartitionId (fst e)) 0 (\<lambda>a. if sint (snd e) > sint a then snd e else a) anchors"

fun apply_request :: "cluster_request \<Rightarrow> cluster_snapshot \<Rightarrow> (cluster_response \<times> cluster_snapshot) option" where
  "apply_request (AssignPartition p n) s =
     Some (RespOk, s\<lparr>cs_partition_table := assign (cs_partition_table s) p n\<rparr>)"
| "apply_request (BeginTransfer p source target) s =
     Some (case table_get (cs_partition_table s) p of
             Some (Owned owner) \<Rightarrow>
               if owner = source
               then (RespOk, s\<lparr>cs_partition_table := begin_transfer (cs_partition_table s) p source target\<rparr>)
               else (RespError ''partition not owned by node'', s)
           | Some (Transferring _ _) \<Rightarrow> (RespError ''partition already in transfer'', s)
           | None \<Rightarrow> (RespError ''partition not owned by node'', s))"
| "apply_request (CompleteTransfer p new_owner) s =
     Some (case table_get (cs_partition_table s) p of
             Some (Transferring _ target) \<Rightarrow>
               if target = new_owner
               then (RespOk, s\<lparr>cs_partition_table := complete_transfer (cs_partition_table s) p new_owner\<rparr>)
               else (RespError ''no active transfer for partition'', s)
           | Some (Owned owner) \<Rightarrow>
               if owner = new_owner then (RespOk, s)
               else (RespError ''no active transfer for partition'', s)
           | None \<Rightarrow> (RespError ''no active transfer for partition'', s))"
| "apply_request (AbortTransfer p revert_to) s =
     Some (RespOk, s\<lparr>cs_partition_table := assign (cs_partition_table s) p revert_to\<rparr>)"
| "apply_request (UpdateConfig key val) s =
     Some (RespOk, s\<lparr>cs_config_overrides := hm_insert key val (cs_config_overrides s)\<rparr>)"
| "apply_request (SubmitCheckpoint offsets) s =
     Some (RespOk, s\<lparr>cs_source_anchor_offsets := fold submit_offset offsets (cs_source_anchor_offsets s)\<rparr>)"
| "apply_request (RebalancePartitions nodes) s =
     Some (RespOk, s\<lparr>cs_partition_table :=
             apply_moves (cs_partition_table s) (compute_rebalance (cs_partition_table s) nodes)\<rparr>)"
| "apply_request (InitialAssignment n nodes) s =
     (if cs_partition_table s \<noteq> [] then Some (RespOk, s)
      else case initial_assignment n nodes of
             None \<Rightarrow> None
           | Some as \<Rightarrow> Some (RespOk, s\<lparr>cs_partition_table := fold (\<lambda>(p, node) t. assign t p node) as (cs_partition_table s)\<rparr>))"
| "apply_request (Registry payload) s =
     Some (RespError ''ClusterRequest::Registry must be dispatched via async apply'', s)"

section \<open>Well-formed states\<close>

text \<open>Map keys are distinct and no anchor has its sign bit set.\<close>

definition snapshot_wf :: "cluster_snapshot \<Rightarrow> bool" where
  "snapshot_wf s \<longleftrightarrow>
     hm_invar (cs_partition_table s) \<and> hm_invar (cs_source_anchor_offsets s) \<and>
     hm_invar (cs_config_overrides s) \<and> list_all (\<lambda>(p, a). 0 \<le> sint a) (cs_source_anchor_offsets s)"

definition nonneg_anchors :: "(partition_id \<times> u64) list \<Rightarrow> bool" where
  "nonneg_anchors m \<longleftrightarrow> (\<forall>p a. hm_get m p = Some a \<longrightarrow> 0 \<le> sint a)"

lemma nonneg_anchors_set:
  "hm_invar m \<Longrightarrow> list_all (\<lambda>(p, a). 0 \<le> sint a) m \<longleftrightarrow> nonneg_anchors m"
  by (auto simp: nonneg_anchors_def list_all_iff)

lemma submit_offset_get:
  "hm_get (submit_offset (q, off) m) p =
     (if p = PartitionId q
      then Some (let a = (case hm_get m p of None \<Rightarrow> 0 | Some a \<Rightarrow> a) in if sint off > sint a then off else a)
      else hm_get m p)"
  by (simp add: submit_offset_def hm_get_upsert Let_def)

lemma submit_offset_invar: "hm_invar m \<Longrightarrow> hm_invar (submit_offset e m)"
  by (simp add: submit_offset_def hm_invar_upsert)

lemma submit_fold_invar: "hm_invar m \<Longrightarrow> hm_invar (fold submit_offset offs m)"
  by (induction offs arbitrary: m) (auto intro: submit_offset_invar)

lemma submit_offset_nonneg: "nonneg_anchors m \<Longrightarrow> nonneg_anchors (submit_offset e m)"
  by (cases e)
    (auto simp: nonneg_anchors_def submit_offset_get Let_def split: if_splits option.splits,
      meson less_imp_le order_trans)

lemma submit_fold_nonneg: "nonneg_anchors m \<Longrightarrow> nonneg_anchors (fold submit_offset offs m)"
  by (induction offs arbitrary: m) (auto intro: submit_offset_nonneg)

lemma assign_fold_invar:
  "hm_invar t \<Longrightarrow> hm_invar (fold (\<lambda>(p, n) t. assign t p n) as t)"
  "hm_invar t \<Longrightarrow> hm_invar (apply_moves t ms)"
  by (induction as arbitrary: t) (auto, induction ms arbitrary: t, auto)



section \<open>Checkpoint anchors\<close>

lemma submit_offset_mono:
  "hm_get m p = Some a \<Longrightarrow> \<exists>a'. hm_get (submit_offset e m) p = Some a' \<and> sint a \<le> sint a'"
  by (cases e) (auto simp: submit_offset_get Let_def)

lemma submit_fold_mono:
  "hm_get m p = Some a \<Longrightarrow> \<exists>a'. hm_get (fold submit_offset offs m) p = Some a' \<and> sint a \<le> sint a'"
proof (induction offs arbitrary: m a)
  case (Cons e offs)
  from submit_offset_mono [OF Cons.prems] obtain b where
    b: "hm_get (submit_offset e m) p = Some b" "sint a \<le> sint b" by blast
  from Cons.IH [OF b(1)] obtain c where "hm_get (fold submit_offset offs (submit_offset e m)) p = Some c"
    "sint b \<le> sint c" by blast
  with b(2) show ?case by simp
qed simp

lemma apply_request_anchors:
  assumes "apply_request req s = Some (resp, s')" and "hm_get (cs_source_anchor_offsets s) p = Some a"
  shows "\<exists>a'. hm_get (cs_source_anchor_offsets s') p = Some a' \<and> sint a \<le> sint a'"
  using assms submit_fold_mono [OF assms(2)]
  by (cases req) (auto split: option.splits partition_ownership.splits if_splits)

lemma submit_fold_get:
  "hm_invar offs \<Longrightarrow> hm_get (fold submit_offset offs m) (PartitionId q) =
     (case hm_get offs q of
        None \<Rightarrow> hm_get m (PartitionId q)
      | Some off \<Rightarrow> Some (let a = (case hm_get m (PartitionId q) of None \<Rightarrow> 0 | Some a \<Rightarrow> a)
                         in if sint off > sint a then off else a))"
proof (induction offs arbitrary: m)
  case (Cons e offs)
  obtain k off where e: "e = (k, off)" by force
  have "k = q \<Longrightarrow> hm_get offs q = None" using Cons.prems e by (simp add: map_of_eq_None_iff)
  then show ?case using Cons by (cases "k = q") (auto simp: e submit_offset_get split: option.splits)
qed simp

section \<open>Changes of ownership\<close>

lemma apply_moves_present: "table_get t p \<noteq> None \<Longrightarrow> table_get (apply_moves t ms) p \<noteq> None"
  by (induction ms arbitrary: t) auto

lemma fold_assign_present: "table_get t p \<noteq> None \<Longrightarrow> table_get (fold (\<lambda>(p, n) t. assign t p n) as t) p \<noteq> None"
  by (induction as arbitrary: t) auto

text \<open>
  C18: no request makes a partition disappear from the table, and the node that serves a partition
  changes only through an explicit assignment, an abort, a rebalance, or the completion of a transfer
  that was in progress towards exactly the new node; beginning a transfer never moves it.
\<close>

theorem ownership_moves_by_protocol:
  assumes "apply_request req s = Some (resp, s')"
    and "table_get (cs_partition_table s) p = Some ow"
  shows "\<exists>ow'. table_get (cs_partition_table s') p = Some ow' \<and>
           (active_node ow' = active_node ow \<or>
            req \<in> {AssignPartition p (active_node ow'), AbortTransfer p (active_node ow')} \<or>
            (\<exists>nodes. req = RebalancePartitions nodes) \<or>
            req = CompleteTransfer p (active_node ow') \<and> ow = Transferring (active_node ow) (active_node ow'))"
proof -
  have ne: "cs_partition_table s \<noteq> []" using assms(2) by (auto simp: table_get_def)
  show ?thesis
  proof (cases req)
    case (BeginTransfer q source target)
    then show ?thesis
      using assms by (cases "q = p"; cases ow) (auto split: option.splits partition_ownership.splits if_splits)
  next
    case (CompleteTransfer q new_owner)
    then show ?thesis
      using assms by (cases "q = p"; cases ow) (auto split: option.splits partition_ownership.splits if_splits)
  next
    case (RebalancePartitions nodes)
    then show ?thesis using assms apply_moves_present [of "cs_partition_table s" p] by auto
  qed (use assms ne in auto)
qed

theorem ownership_moves_by_protocol_witness:
  "let s = snapshot_default\<lparr>cs_partition_table := [(PartitionId 0, Transferring 1 2)]\<rparr>;
       s' = snapshot_default\<lparr>cs_partition_table := [(PartitionId 0, Owned 2)]\<rparr>
   in \<exists>ow'. table_get (cs_partition_table s') (PartitionId 0) = Some ow' \<and>
        (active_node ow' = active_node (Transferring 1 2) \<or>
         CompleteTransfer (PartitionId 0) 2 \<in>
           {AssignPartition (PartitionId 0) (active_node ow'), AbortTransfer (PartitionId 0) (active_node ow')} \<or>
         (\<exists>nodes. CompleteTransfer (PartitionId 0) 2 = RebalancePartitions nodes) \<or>
         CompleteTransfer (PartitionId 0) 2 = CompleteTransfer (PartitionId 0) (active_node ow') \<and>
           Transferring 1 2 = Transferring (active_node (Transferring 1 2)) (active_node ow'))"
  unfolding Let_def
  by (rule ownership_moves_by_protocol [where s = "snapshot_default\<lparr>cs_partition_table := [(PartitionId 0, Transferring 1 2)]\<rparr>"
        and resp = RespOk])
    (simp_all add: table_get_def complete_transfer_def)


section \<open>Replicas\<close>

text \<open>
  Two replicas hold the same cluster state when their maps have the same entries; the order in which
  a \<open>HashMap\<close> iterates differs from process to process.  The same holds for the map carried by a
  checkpoint request, which every replica deserializes for itself.
\<close>

definition snap_eq :: "cluster_snapshot \<Rightarrow> cluster_snapshot \<Rightarrow> bool" where
  "snap_eq s1 s2 \<longleftrightarrow>
     hm_get (cs_partition_table s1) = hm_get (cs_partition_table s2) \<and>
     cs_last_applied_log_index s1 = cs_last_applied_log_index s2 \<and>
     cs_last_applied_log_term s1 = cs_last_applied_log_term s2 \<and>
     hm_get (cs_source_anchor_offsets s1) = hm_get (cs_source_anchor_offsets s2) \<and>
     cs_poh_checkpoint s1 = cs_poh_checkpoint s2 \<and>
     hm_get (cs_config_overrides s1) = hm_get (cs_config_overrides s2)"

fun req_eq :: "cluster_request \<Rightarrow> cluster_request \<Rightarrow> bool" where
  "req_eq (SubmitCheckpoint a) (SubmitCheckpoint b) = (hm_invar a \<and> hm_invar b \<and> hm_get a = hm_get b)"
| "req_eq r1 r2 = (r1 = r2)"

definition is_rebalance :: "cluster_request \<Rightarrow> bool" where
  "is_rebalance r \<longleftrightarrow> (case r of RebalancePartitions _ \<Rightarrow> True | _ \<Rightarrow> False)"

fun same_outcome :: "(cluster_response \<times> cluster_snapshot) option \<Rightarrow> (cluster_response \<times> cluster_snapshot) option \<Rightarrow> bool" where
  "same_outcome None None = True"
| "same_outcome (Some (r1, s1)) (Some (r2, s2)) = (r1 = r2 \<and> snap_eq s1 s2)"
| "same_outcome _ _ = False"

lemma submit_fold_eq:
  assumes "hm_invar a" and "hm_invar b" and "hm_get a = hm_get b" and "hm_get m1 = hm_get m2"
  shows "hm_get (fold submit_offset a m1) = hm_get (fold submit_offset b m2)"
proof
  fix p :: partition_id
  show "hm_get (fold submit_offset a m1) p = hm_get (fold submit_offset b m2) p"
    by (cases p) (simp only: submit_fold_get [OF assms(1)] submit_fold_get [OF assms(2)] assms(3,4))
qed

lemma hm_get_fold_assign:
  "hm_get t1 = hm_get t2 \<Longrightarrow>
     hm_get (fold (\<lambda>(p, n) t. assign t p n) as t1) = hm_get (fold (\<lambda>(p, n) t. assign t p n) as t2)"
proof (induction as arbitrary: t1 t2)
  case (Cons e as)
  obtain p n where e: "e = (p, n)" by force
  have "hm_get (assign t1 p n) = hm_get (assign t2 p n)"
    unfolding assign_def update_conv' Cons.prems ..
  from Cons.IH [OF this] show ?case by (simp add: e)
qed simp

lemma same_table_empty: "hm_get t1 = hm_get t2 \<Longrightarrow> t1 = [] \<longleftrightarrow> t2 = []"
  by (metis map_of_eq_empty_iff)

lemma req_eq_cases:
  assumes "req_eq r1 r2"
  shows "r1 = r2 \<or> (\<exists>a b. r1 = SubmitCheckpoint a \<and> r2 = SubmitCheckpoint b \<and> hm_invar a \<and> hm_invar b \<and> hm_get a = hm_get b)"
  using assms by (cases "(r1, r2)" rule: req_eq.cases) auto

lemma snap_eq_updates:
  assumes "snap_eq s1 s2"
  shows "hm_get t1 = hm_get t2 \<Longrightarrow> snap_eq (s1\<lparr>cs_partition_table := t1\<rparr>) (s2\<lparr>cs_partition_table := t2\<rparr>)"
    and "hm_get a1 = hm_get a2 \<Longrightarrow> snap_eq (s1\<lparr>cs_source_anchor_offsets := a1\<rparr>) (s2\<lparr>cs_source_anchor_offsets := a2\<rparr>)"
    and "hm_get c1 = hm_get c2 \<Longrightarrow> snap_eq (s1\<lparr>cs_config_overrides := c1\<rparr>) (s2\<lparr>cs_config_overrides := c2\<rparr>)"
  using assms by (simp_all add: snap_eq_def)

lemma hm_get_insert_cong: "hm_get t1 = hm_get t2 \<Longrightarrow> hm_get (hm_insert k v t1) = hm_get (hm_insert k v t2)"
  by (simp add: update_conv')

lemma snap_eq_fields:
  assumes "snap_eq s1 s2"
  shows "hm_get (cs_partition_table s1) = hm_get (cs_partition_table s2)"
    and "table_get (cs_partition_table s1) q = table_get (cs_partition_table s2) q"
    and "hm_get (cs_source_anchor_offsets s1) = hm_get (cs_source_anchor_offsets s2)"
    and "hm_get (cs_config_overrides s1) = hm_get (cs_config_overrides s2)"
  using assms by (simp_all add: snap_eq_def table_get_def)

lemmas replica_intros = snap_eq_updates hm_get_insert_cong snap_eq_fields hm_get_fold_assign submit_fold_eq

lemma replicas_agree_transfers:
  assumes "snap_eq s1 s2"
  shows "same_outcome (apply_request (BeginTransfer p a b) s1) (apply_request (BeginTransfer p a b) s2)"
    and "same_outcome (apply_request (CompleteTransfer p b) s1) (apply_request (CompleteTransfer p b) s2)"
  using assms
  by (cases "table_get (cs_partition_table s2) p";
      simp add: snap_eq_fields(2) [OF assms] begin_transfer_def complete_transfer_def split: partition_ownership.split;
      intro impI conjI allI replica_intros)+

lemma replicas_agree_initial:
  assumes "snap_eq s1 s2"
  shows "same_outcome (apply_request (InitialAssignment n nodes) s1) (apply_request (InitialAssignment n nodes) s2)"
proof (cases "cs_partition_table s2 = []")
  case True
  then have "cs_partition_table s1 = []" using same_table_empty [OF snap_eq_fields(1) [OF assms]] by simp
  with True assms show ?thesis by (cases "initial_assignment n nodes") (auto intro: replica_intros)
next
  case False
  then have "cs_partition_table s1 \<noteq> []" using same_table_empty [OF snap_eq_fields(1) [OF assms]] by simp
  with False assms show ?thesis by simp
qed

lemma replicas_agree_same:
  assumes "snap_eq s1 s2" and "req_eq r r" and "\<not> is_rebalance r"
  shows "same_outcome (apply_request r s1) (apply_request r s2)"
  using assms replicas_agree_transfers [OF assms(1)] replicas_agree_initial [OF assms(1)]
  by (cases r) (auto simp: is_rebalance_def assign_def simp del: apply_request.simps(2,3,8) intro!: replica_intros)

text \<open>
  C1: replicas that hold the same state and apply the same request, other than a rebalance, give the
  same response and hold the same state again, whatever the iteration order of their maps.
\<close>

theorem replicas_agree:
  assumes "snap_eq s1 s2" and "req_eq r1 r2" and "\<not> is_rebalance r1"
  shows "same_outcome (apply_request r1 s1) (apply_request r2 s2)"
  using req_eq_cases [OF assms(2)]
proof (elim disjE exE conjE)
  fix a b
  assume "r1 = SubmitCheckpoint a" "r2 = SubmitCheckpoint b" "hm_invar a" "hm_invar b" "hm_get a = hm_get b"
  then show ?thesis using assms(1) by (auto intro!: replica_intros)
next
  assume "r1 = r2"
  then show ?thesis using assms replicas_agree_same by simp
qed

theorem replicas_agree_witness:
  "same_outcome
     (apply_request (SubmitCheckpoint [(1, 5), (2, 6)])
        (snapshot_default\<lparr>cs_partition_table := [(PartitionId 0, Owned 1), (PartitionId 1, Owned 2)]\<rparr>))
     (apply_request (SubmitCheckpoint [(2, 6), (1, 5)])
        (snapshot_default\<lparr>cs_partition_table := [(PartitionId 1, Owned 2), (PartitionId 0, Owned 1)]\<rparr>))"
  by (rule replicas_agree) (auto simp: snap_eq_def snapshot_default_def is_rebalance_def fun_eq_iff)

definition divergent_a :: partition_table where
  "divergent_a = [(PartitionId 0, Owned 1), (PartitionId 1, Owned 1)]"

definition divergent_b :: partition_table where
  "divergent_b = [(PartitionId 1, Owned 1), (PartitionId 0, Owned 1)]"

text \<open>
  C28: a rebalance is not deterministic across replicas.  Two well-formed replicas with the same
  table, iterated in different orders, apply the same \<open>RebalancePartitions\<close> request and end with
  different owners for the same partition.
\<close>

theorem rebalance_replicas_diverge:
  "\<exists>s1 s2 s1' s2'. snapshot_wf s1 \<and> snapshot_wf s2 \<and> snap_eq s1 s2 \<and>
     apply_request (RebalancePartitions [1, 2]) s1 = Some (RespOk, s1') \<and>
     apply_request (RebalancePartitions [1, 2]) s2 = Some (RespOk, s2') \<and>
     table_get (cs_partition_table s1') (PartitionId 0) = Some (Owned 2) \<and>
     table_get (cs_partition_table s2') (PartitionId 0) = Some (Owned 1)"
proof -
  have "compute_rebalance divergent_a [1, 2] = [(PartitionId 0, 1, 2)]" by code_simp
  moreover have "compute_rebalance divergent_b [1, 2] = [(PartitionId 1, 1, 2)]" by code_simp
  moreover have "hm_get divergent_a = hm_get divergent_b"
    by (auto simp: divergent_a_def divergent_b_def fun_eq_iff)
  ultimately show ?thesis
    by (intro exI [of _ "snapshot_default\<lparr>cs_partition_table := divergent_a\<rparr>"]
        exI [of _ "snapshot_default\<lparr>cs_partition_table := divergent_b\<rparr>"]
        exI [of _ "snapshot_default\<lparr>cs_partition_table := assign divergent_a (PartitionId 0) 2\<rparr>"]
        exI [of _ "snapshot_default\<lparr>cs_partition_table := assign divergent_b (PartitionId 1) 2\<rparr>"])
      (simp add: snapshot_wf_def snap_eq_def snapshot_default_def, simp add: divergent_a_def divergent_b_def table_get_def)
qed

end
