(* ===== verification/L3_Store.thy ===== *)
theory L3_Store
  imports Aeon_Types Aeon_Maps
begin

text \<open>
  \<open>aeon-types/src/state.rs\<close>: the \<open>L3Store\<close> trait.  A trait object is a record of its methods
  over a hidden state \<open>'s\<close>; a method that may write returns the new state next to its result.  The
  locale \<open>l3_store\<close> states what the documentation of the trait promises, in terms of the finite map
  \<open>view\<close> of the stored entries.  Keys are compared as byte slices, lexicographically.
\<close>

datatype batch_op = Put | Delete

type_synonym batch_entry = "batch_op \<times> bytes \<times> bytes option"
type_synonym kv_pairs = "(bytes \<times> bytes) list"

record 's l3_ops =
  l3_get :: "'s \<Rightarrow> bytes \<Rightarrow> bytes option res"
  l3_put :: "'s \<Rightarrow> bytes \<Rightarrow> bytes \<Rightarrow> unit res \<times> 's"
  l3_delete :: "'s \<Rightarrow> bytes \<Rightarrow> unit res \<times> 's"
  l3_write_batch :: "'s \<Rightarrow> batch_entry list \<Rightarrow> unit res \<times> 's"
  l3_scan_prefix :: "'s \<Rightarrow> bytes \<Rightarrow> kv_pairs res"
  l3_flush :: "'s \<Rightarrow> unit res \<times> 's"
  l3_len :: "'s \<Rightarrow> nat res"

definition l3_is_empty :: "'s l3_ops \<Rightarrow> 's \<Rightarrow> bool res" where
  "l3_is_empty L s = rbind (l3_len L s) (\<lambda>n. Inr (n = 0))"

definition starts_with :: "bytes \<Rightarrow> bytes \<Rightarrow> bool" where
  "starts_with k prefix \<longleftrightarrow> take (length prefix) k = prefix"

lemma starts_with_simps [simp]:
  "starts_with k []" "\<not> starts_with [] (b # bs)"
  "starts_with (x # xs) (b # bs) \<longleftrightarrow> x = b \<and> starts_with xs bs"
  by (auto simp: starts_with_def)

lemma starts_with_append [simp]: "starts_with (p @ k) p"
  by (simp add: starts_with_def)

lemma starts_with_conv: "starts_with k p \<longleftrightarrow> (\<exists>r. k = p @ r)"
  by (metis append_take_drop_id starts_with_append starts_with_def)

text \<open>One entry of a batch; a put without a value stores the empty slice.\<close>

fun batch_effect :: "batch_entry \<Rightarrow> (bytes \<rightharpoonup> bytes) \<Rightarrow> (bytes \<rightharpoonup> bytes)" where
  "batch_effect (Put, k, v) m = m(k \<mapsto> (case v of None \<Rightarrow> [] | Some x \<Rightarrow> x))"
| "batch_effect (Delete, k, v) m = m(k := None)"

definition ascending_entries :: "(bytes \<rightharpoonup> bytes) \<Rightarrow> (bytes \<Rightarrow> bool) \<Rightarrow> kv_pairs \<Rightarrow> bool" where
  "ascending_entries m P kvs \<longleftrightarrow>
     sorted_wrt (<) (map fst kvs) \<and> set kvs = {(k, v). m k = Some v \<and> P k}"

lemma ascending_entries_unique:
  assumes "ascending_entries m P xs" and "ascending_entries m P ys"
  shows "xs = ys"
proof (rule bt_ext)
  show x: "bt_invar xs" and y: "bt_invar ys"
    using assms by (auto simp: ascending_entries_def bt_invar_def)
  have "set xs = set ys" using assms by (auto simp: ascending_entries_def)
  then show "bt_get xs = bt_get ys" using x y by (simp add: bt_distinct map_of_inject_set)
qed

lemma ascending_entries_get:
  "ascending_entries m P kvs \<Longrightarrow> bt_get kvs k = (if P k then m k else None)"
proof -
  assume *: "ascending_entries m P kvs"
  then have d: "distinct (map fst kvs)" and s: "set kvs = {(k, v). m k = Some v \<and> P k}"
    using bt_distinct [of kvs] by (auto simp: ascending_entries_def bt_invar_def)
  have "bt_get kvs k = Some v \<longleftrightarrow> m k = Some v \<and> P k" for v
    using map_of_eq_Some_iff [OF d, of k v] s by simp
  then have "bt_get kvs k = Some v \<longleftrightarrow> (if P k then m k else None) = Some v" for v by simp
  then show ?thesis by (metis option.exhaust)
qed

locale l3_store =
  fixes L :: "'s l3_ops" and view :: "'s \<Rightarrow> (bytes \<rightharpoonup> bytes)"
  assumes get_view: "l3_get L s k = Inr ov \<Longrightarrow> ov = view s k"
    and put_view: "l3_put L s k v = (Inr (), s') \<Longrightarrow> view s' = (view s)(k \<mapsto> v)"
    and put_err: "l3_put L s k v = (Inl e, s') \<Longrightarrow> view s' = view s"
    and delete_view: "l3_delete L s k = (Inr (), s') \<Longrightarrow> view s' = (view s)(k := None)"
    and delete_err: "l3_delete L s k = (Inl e, s') \<Longrightarrow> view s' = view s"
    and batch_view: "l3_write_batch L s ops = (Inr (), s') \<Longrightarrow> view s' = fold batch_effect ops (view s)"
    and batch_err: "l3_write_batch L s ops = (Inl e, s') \<Longrightarrow> view s' = view s"
    and scan_view: "l3_scan_prefix L s p = Inr kvs \<Longrightarrow> ascending_entries (view s) (\<lambda>k. starts_with k p) kvs"
    and flush_view: "l3_flush L s = (r, s') \<Longrightarrow> view s' = view s"
begin

lemma get_after_put: "l3_put L s k v = (Inr (), s') \<Longrightarrow> l3_get L s' k = Inr w \<Longrightarrow> w = Some v"
  using get_view put_view by fastforce

lemma get_after_put_other:
  "l3_put L s k v = (Inr (), s') \<Longrightarrow> k \<noteq> k' \<Longrightarrow> l3_get L s' k' = Inr w \<Longrightarrow> w = view s k'"
  using get_view put_view by fastforce

lemma scan_get:
  "l3_scan_prefix L s p = Inr kvs \<Longrightarrow> bt_get kvs k = (if starts_with k p then view s k else None)"
  using scan_view by (intro ascending_entries_get)

lemma batch_atomic:
  "l3_write_batch L s ops = (r, s') \<Longrightarrow> view s' = view s \<or> view s' = fold batch_effect ops (view s)"
  using batch_view batch_err by (cases r) auto

end

text \<open>Deleting the keys of a list, as the retention sweeps do.\<close>

lemma fold_batch_deletes:
  "fold batch_effect (map (\<lambda>k. (Delete, k, None)) ks) m = (\<lambda>x. if x \<in> set ks then None else m x)"
  by (induction ks arbitrary: m) (auto simp: fun_eq_iff)

lemma fold_batch_puts:
  "fold batch_effect (map (\<lambda>(k, v). (Put, k, Some v)) kvs) m = m ++ map_of (rev kvs)"
  by (induction kvs arbitrary: m) (auto simp: map_add_def fun_eq_iff map_of_append split: option.splits)

section \<open>Indexed keys\<close>

text \<open>
  The Raft log and the checkpoint store number their records under a prefix with big-endian indexes, so
  that a prefix scan returns them in index order.
\<close>

lemma append_less_same: "(p @ a < p @ b) \<longleftrightarrow> (a < (b :: bytes))"
  by (induction p) simp_all

lemma last_sorted_Max: "sorted xs \<Longrightarrow> xs \<noteq> [] \<Longrightarrow> last xs = Max (set xs)"
  by (induction xs rule: rev_induct) (auto simp: sorted_append intro!: Max_eqI [symmetric])

lemma scan_indexed:
  assumes "ascending_entries m (\<lambda>k. starts_with k p) kvs"
    and "\<And>k v. m k = Some v \<Longrightarrow> starts_with k p \<Longrightarrow> \<exists>i. k = p @ u64_to_be i"
  shows "kvs = map (\<lambda>i. (p @ u64_to_be i, the (m (p @ u64_to_be i))))
           (sorted_list_of_set {i. m (p @ u64_to_be i) \<noteq> None})"
proof (rule ascending_entries_unique [OF assms(1)])
  let ?D = "{i. m (p @ u64_to_be i) \<noteq> None}" and ?f = "\<lambda>i. (p @ u64_to_be i, the (m (p @ u64_to_be i)))"
  show "ascending_entries m (\<lambda>k. starts_with k p) (map ?f (sorted_list_of_set ?D))"
    unfolding ascending_entries_def
  proof
    show "sorted_wrt (<) (map fst (map ?f (sorted_list_of_set ?D)))"
      by (simp add: sorted_wrt_map append_less_same)
    have "(k, v) \<in> ?f ` ?D \<longleftrightarrow> m k = Some v \<and> starts_with k p" for k v
      using assms(2) [of k v] by force
    then show "set (map ?f (sorted_list_of_set ?D)) = {(k, v). m k = Some v \<and> starts_with k p}"
      by auto
  qed
qed

end
