(* ===== verification/Redb_Store.thy ===== *)
theory Redb_Store
  imports L3_Store "HOL-Library.RBT"
begin

text \<open>
  \<open>aeon-state/src/l3.rs\<close>: \<open>RedbStore\<close>, the \<open>L3Store\<close> over the embedded database \<open>redb\<close>.
  \<open>redb\<close> itself is a parameter: a record of the calls the store makes, each of which may fail with a
  message.  A write transaction works on a private copy of the database, which \<open>commit\<close> installs; a
  transaction that is dropped leaves the database as it was.  \<open>redb_laws\<close> states what is relied on.
\<close>

record 'd redb =
  rb_begin_read :: "'d \<Rightarrow> string + 'd"
  rb_begin_write :: "'d \<Rightarrow> string + 'd"
  rb_open_table :: "'d \<Rightarrow> string + unit"
  rb_get :: "'d \<Rightarrow> bytes \<Rightarrow> string + bytes option"
  rb_range :: "'d \<Rightarrow> bytes \<Rightarrow> bytes option \<Rightarrow> string + (string + bytes \<times> bytes) list"
  rb_table_len :: "'d \<Rightarrow> string + nat"
  rb_insert :: "'d \<Rightarrow> bytes \<Rightarrow> bytes \<Rightarrow> string + 'd"
  rb_remove :: "'d \<Rightarrow> bytes \<Rightarrow> string + bytes option \<times> 'd"
  rb_commit :: "'d \<Rightarrow> 'd \<Rightarrow> string + 'd"

definition range_items :: "(bytes \<rightharpoonup> bytes) \<Rightarrow> (bytes \<Rightarrow> bool) \<Rightarrow> (string + bytes \<times> bytes) list \<Rightarrow> bool" where
  "range_items m P items \<longleftrightarrow>
     (\<exists>kvs. ascending_entries m P kvs \<and>
       (items = map Inr kvs \<or> (\<exists>n e rest. items = map Inr (take n kvs) @ Inl e # rest)))"

definition redb_laws :: "'d redb \<Rightarrow> ('d \<Rightarrow> (bytes \<rightharpoonup> bytes)) \<Rightarrow> bool" where
  "redb_laws R view \<longleftrightarrow>
     (\<forall>d s. rb_begin_read R d = Inr s \<longrightarrow> view s = view d) \<and>
     (\<forall>d w. rb_begin_write R d = Inr w \<longrightarrow> view w = view d) \<and>
     (\<forall>d k v. rb_get R d k = Inr v \<longrightarrow> v = view d k) \<and>
     (\<forall>d lo hi items. rb_range R d lo hi = Inr items \<longrightarrow>
        range_items (view d) (\<lambda>k. lo \<le> k \<and> (case hi of None \<Rightarrow> True | Some h \<Rightarrow> k < h)) items) \<and>
     (\<forall>d n. rb_table_len R d = Inr n \<longrightarrow> n = card (dom (view d))) \<and>
     (\<forall>w k v w'. rb_insert R w k v = Inr w' \<longrightarrow> view w' = (view w)(k \<mapsto> v)) \<and>
     (\<forall>w k ov w'. rb_remove R w k = Inr (ov, w') \<longrightarrow> ov = view w k \<and> view w' = (view w)(k := None)) \<and>
     (\<forall>d w d'. rb_commit R d w = Inr d' \<longrightarrow> view d' = view w) \<and>
     (\<forall>d. finite (dom (view d)))"

section \<open>The store\<close>

record 'd redb_store =
  rs_db :: 'd
  rs_entry_count :: u64

definition state_err :: "string \<Rightarrow> string + 'a \<Rightarrow> 'a res" where
  "state_err msg r = (case r of Inl e \<Rightarrow> Inl (State msg) | Inr x \<Rightarrow> Inr x)"

lemma state_err_Inr [simp]: "state_err m r = Inr x \<longleftrightarrow> r = Inr x" "state_err m (Inr y) = Inr y"
  by (simp_all add: state_err_def split: sum.splits)

definition redb_open :: "'d redb \<Rightarrow> 'd \<Rightarrow> 'd redb_store res" where
  "redb_open R db =
     rbind (state_err ''L3 redb: begin_write'' (rb_begin_write R db)) (\<lambda>txn.
     rbind (state_err ''L3 redb: open_table'' (rb_open_table R txn)) (\<lambda>_.
     rbind (state_err ''L3 redb: commit'' (rb_commit R db txn)) (\<lambda>db.
     rbind (state_err ''L3 redb: begin_read'' (rb_begin_read R db)) (\<lambda>snap.
     rbind (state_err ''L3 redb: open_table'' (rb_open_table R snap)) (\<lambda>_.
     rbind (state_err ''L3 redb: len'' (rb_table_len R snap)) (\<lambda>count.
       Inr \<lparr>rs_db = db, rs_entry_count = of_nat count\<rparr>))))))"

definition redb_get :: "'d redb \<Rightarrow> 'd redb_store \<Rightarrow> bytes \<Rightarrow> bytes option res" where
  "redb_get R s key =
     rbind (state_err ''L3 redb get: begin_read'' (rb_begin_read R (rs_db s))) (\<lambda>snap.
     rbind (state_err ''L3 redb get: open_table'' (rb_open_table R snap)) (\<lambda>_.
       state_err ''L3 redb get'' (rb_get R snap key)))"

text \<open>
  The body of a put inside a transaction: the counter is advanced as soon as the insert succeeds,
  before the transaction commits.
\<close>

definition txn_put :: "'d redb \<Rightarrow> string \<Rightarrow> bytes \<Rightarrow> bytes \<Rightarrow> 'd \<Rightarrow> u64 \<Rightarrow> 'd res \<times> u64" where
  "txn_put R ctx key value txn count =
     (case state_err (ctx @ '': get'') (rb_get R txn key) of
        Inl e \<Rightarrow> (Inl e, count)
      | Inr old \<Rightarrow>
          (case state_err (ctx @ '': insert'') (rb_insert R txn key value) of
             Inl e \<Rightarrow> (Inl e, count)
           | Inr txn' \<Rightarrow> (Inr txn', if old = None then count + 1 else count)))"

definition txn_delete :: "'d redb \<Rightarrow> string \<Rightarrow> bytes \<Rightarrow> 'd \<Rightarrow> u64 \<Rightarrow> 'd res \<times> u64" where
  "txn_delete R ctx key txn count =
     (case state_err (ctx @ '': remove'') (rb_remove R txn key) of
        Inl e \<Rightarrow> (Inl e, count)
      | Inr (old, txn') \<Rightarrow> (Inr txn', if old \<noteq> None then count - 1 else count))"

fun txn_batch :: "'d redb \<Rightarrow> batch_entry list \<Rightarrow> 'd \<Rightarrow> u64 \<Rightarrow> 'd res \<times> u64" where
  "txn_batch R [] txn count = (Inr txn, count)"
| "txn_batch R ((op, key, value) # ops) txn count =
     (case (case op of
              Put \<Rightarrow> txn_put R ''L3 redb batch'' key (case value of None \<Rightarrow> [] | Some v \<Rightarrow> v) txn count
            | Delete \<Rightarrow> txn_delete R ''L3 redb batch'' key txn count) of
        (Inl e, count') \<Rightarrow> (Inl e, count')
      | (Inr txn', count') \<Rightarrow> txn_batch R ops txn' count')"

text \<open>A write transaction: begin, open the table, run the body, commit.\<close>

definition with_txn :: "'d redb \<Rightarrow> string \<Rightarrow> ('d \<Rightarrow> u64 \<Rightarrow> 'd res \<times> u64) \<Rightarrow> 'd redb_store
    \<Rightarrow> unit res \<times> 'd redb_store" where
  "with_txn R ctx body s =
     (case state_err (ctx @ '': begin_write'') (rb_begin_write R (rs_db s)) of
        Inl e \<Rightarrow> (Inl e, s)
      | Inr txn \<Rightarrow>
          (case state_err (ctx @ '': open_table'') (rb_open_table R txn) of
             Inl e \<Rightarrow> (Inl e, s)
           | Inr _ \<Rightarrow>
               (case body txn (rs_entry_count s) of
                  (Inl e, count) \<Rightarrow> (Inl e, s\<lparr>rs_entry_count := count\<rparr>)
                | (Inr txn', count) \<Rightarrow>
                    (case state_err (ctx @ '': commit'') (rb_commit R (rs_db s) txn') of
                       Inl e \<Rightarrow> (Inl e, s\<lparr>rs_entry_count := count\<rparr>)
                     | Inr db' \<Rightarrow> (Inr (), \<lparr>rs_db = db', rs_entry_count = count\<rparr>)))))"

definition redb_put :: "'d redb \<Rightarrow> 'd redb_store \<Rightarrow> bytes \<Rightarrow> bytes \<Rightarrow> unit res \<times> 'd redb_store" where
  "redb_put R s key value = with_txn R ''L3 redb put'' (txn_put R ''L3 redb put'' key value) s"

definition redb_delete :: "'d redb \<Rightarrow> 'd redb_store \<Rightarrow> bytes \<Rightarrow> unit res \<times> 'd redb_store" where
  "redb_delete R s key = with_txn R ''L3 redb delete'' (txn_delete R ''L3 redb delete'' key) s"

definition redb_write_batch :: "'d redb \<Rightarrow> 'd redb_store \<Rightarrow> batch_entry list \<Rightarrow> unit res \<times> 'd redb_store" where
  "redb_write_batch R s ops =
     (if ops = [] then (Inr (), s) else with_txn R ''L3 redb batch'' (txn_batch R ops) s)"

text \<open>The loop walks the prefix from its end, so it recurses on the reversed slice.\<close>

fun upper_bound_rev :: "bytes \<Rightarrow> bytes option" where
  "upper_bound_rev [] = None"
| "upper_bound_rev (b # rest) = (if b < 0xFF then Some (rev ((b + 1) # rest)) else upper_bound_rev rest)"

definition prefix_upper_bound :: "bytes \<Rightarrow> bytes option" where
  "prefix_upper_bound prefix = upper_bound_rev (rev prefix)"

fun collect_items :: "(string + bytes \<times> bytes) list \<Rightarrow> kv_pairs res" where
  "collect_items [] = Inr []"
| "collect_items (Inl e # items) = Inl (State ''L3 redb scan: iter'')"
| "collect_items (Inr kv # items) = rbind (collect_items items) (\<lambda>kvs. Inr (kv # kvs))"

fun collect_while_prefix :: "bytes \<Rightarrow> (string + bytes \<times> bytes) list \<Rightarrow> kv_pairs res" where
  "collect_while_prefix p [] = Inr []"
| "collect_while_prefix p (Inl e # items) = Inl (State ''L3 redb scan: iter'')"
| "collect_while_prefix p (Inr kv # items) =
     (if starts_with (fst kv) p then rbind (collect_while_prefix p items) (\<lambda>kvs. Inr (kv # kvs))
      else Inr [])"

definition redb_scan_prefix :: "'d redb \<Rightarrow> 'd redb_store \<Rightarrow> bytes \<Rightarrow> kv_pairs res" where
  "redb_scan_prefix R s prefix =
     rbind (state_err ''L3 redb scan: begin_read'' (rb_begin_read R (rs_db s))) (\<lambda>snap.
     rbind (state_err ''L3 redb scan: open_table'' (rb_open_table R snap)) (\<lambda>_.
       case prefix_upper_bound prefix of
         Some upper \<Rightarrow> rbind (state_err ''L3 redb scan: range'' (rb_range R snap prefix (Some upper))) collect_items
       | None \<Rightarrow> rbind (state_err ''L3 redb scan: range'' (rb_range R snap prefix None)) (collect_while_prefix prefix)))"

definition redb_flush :: "'d redb_store \<Rightarrow> unit res \<times> 'd redb_store" where
  "redb_flush s = (Inr (), s)"

definition redb_len :: "'d redb_store \<Rightarrow> nat res" where
  "redb_len s = Inr (unat (rs_entry_count s))"

definition redb_ops :: "'d redb \<Rightarrow> 'd redb_store l3_ops" where
  "redb_ops R =
     \<lparr>l3_get = redb_get R, l3_put = redb_put R, l3_delete = redb_delete R,
      l3_write_batch = redb_write_batch R, l3_scan_prefix = redb_scan_prefix R,
      l3_flush = redb_flush, l3_len = redb_len\<rparr>"

section \<open>Prefix ranges\<close>

lemma u8_max: "\<not> (0xFF :: u8) < x"
  using unat_u8_less [of x] by (simp add: word_less_nat_alt)

lemma replicate_ff_le: "replicate n (0xFF :: u8) \<le> k \<longleftrightarrow> starts_with k (replicate n 0xFF)"
proof (induction n arbitrary: k)
  case (Suc n)
  show ?case
  proof (cases k)
    case (Cons x xs)
    then show ?thesis using u8_max [of x] Suc [of xs] by (cases "x = 0xFF") simp_all
  qed simp
qed simp

lemma less_plus_one: "(b :: u8) < 0xFF \<Longrightarrow> x < b + 1 \<longleftrightarrow> x \<le> b"
proof -
  assume "b < 0xFF"
  then have "unat (b + 1) = unat b + 1"
    by (simp add: word_less_nat_alt unat_word_ariths)
  then show ?thesis by (simp add: word_less_nat_alt word_le_nat_alt less_Suc_eq_le)
qed

lemma upper_bound_base:
  assumes "b < 0xFF"
  shows "b # replicate n 0xFF \<le> k \<and> k < [b + 1] \<longleftrightarrow> starts_with k (b # replicate n 0xFF)"
proof (cases k)
  case (Cons x xs)
  have "b < x \<Longrightarrow> \<not> x < b + 1 \<and> x \<noteq> b" using assms by (auto simp: less_plus_one not_le)
  moreover have "b < b + 1" using assms by (simp add: less_plus_one)
  ultimately show ?thesis using Cons replicate_ff_le [of n xs] by (cases "x = b") simp_all
qed simp

lemma upper_bound_prefixed:
  assumes "b < 0xFF"
  shows "q @ b # replicate n 0xFF \<le> k \<and> k < q @ [b + 1] \<longleftrightarrow> starts_with k (q @ b # replicate n 0xFF)"
proof (induction q arbitrary: k)
  case Nil
  show ?case using upper_bound_base [OF assms] by simp
next
  case (Cons a q)
  show ?case
  proof (cases k)
    case (Cons x xs)
    show ?thesis
    proof (cases "x = a")
      case True
      then show ?thesis using Cons Cons.IH [of xs] by simp
    next
      case False
      then have "\<not> (a < x \<and> x < a)" by (meson less_asym)
      then show ?thesis using Cons False by (simp add: eq_commute [of a])
    qed
  qed simp
qed

lemma upper_bound_rev_shape:
  "case upper_bound_rev r of
     None \<Rightarrow> r = replicate (length r) 0xFF
   | Some u \<Rightarrow> \<exists>q b n. rev r = q @ b # replicate n 0xFF \<and> u = q @ [b + 1] \<and> b < 0xFF"
proof (induction r)
  case (Cons b r)
  show ?case
  proof (cases "b < 0xFF")
    case True
    then show ?thesis by (auto intro!: exI [of _ "rev r"] exI [of _ b] exI [of _ "0 :: nat"])
  next
    case False
    then have b: "b = 0xFF" using u8_max [of b] by (meson linorder_neqE)
    show ?thesis
    proof (cases "upper_bound_rev r")
      case None
      then show ?thesis using Cons b by simp
    next
      case (Some u)
      then obtain q c n where *: "rev r = q @ c # replicate n 0xFF" "u = q @ [c + 1]" "c < 0xFF"
        using Cons by auto
      then have "rev (b # r) = q @ c # replicate (Suc n) 0xFF"
        by (simp add: b replicate_append_same)
      with * Some b show ?thesis
        by (auto intro!: exI [of _ q] exI [of _ c] exI [of _ "Suc n"])
    qed
  qed
qed simp

text \<open>Both scans of \<open>scan_prefix\<close> range over exactly the keys with the prefix.\<close>

lemma prefix_upper_bound_exact:
  "prefix \<le> k \<and> (case prefix_upper_bound prefix of None \<Rightarrow> True | Some u \<Rightarrow> k < u) \<longleftrightarrow> starts_with k prefix"
proof (cases "prefix_upper_bound prefix")
  case None
  then have "rev prefix = replicate (length prefix) 0xFF"
    using upper_bound_rev_shape [of "rev prefix"] by (simp add: prefix_upper_bound_def)
  then have "prefix = replicate (length prefix) 0xFF" by (metis rev_replicate rev_rev_ident)
  then have "prefix \<le> k \<longleftrightarrow> starts_with k prefix" using replicate_ff_le by metis
  then show ?thesis by (simp add: None)
next
  case (Some u)
  then obtain q b n where "prefix = q @ b # replicate n 0xFF" "u = q @ [b + 1]" "b < 0xFF"
    using upper_bound_rev_shape [of "rev prefix"] by (auto simp: prefix_upper_bound_def)
  then show ?thesis unfolding Some option.case using upper_bound_prefixed [of b q n k] by simp
qed

section \<open>The store implements the trait\<close>

lemma collect_items_Inr: "collect_items items = Inr kvs \<longleftrightarrow> items = map Inr kvs"
  by (induction items arbitrary: kvs rule: collect_items.induct) (auto simp: rbind_Inr_conv)

lemma collect_while_all:
  "\<forall>kv \<in> set kvs. starts_with (fst kv) p \<Longrightarrow>
     collect_while_prefix p (map Inr kvs) = Inr kvs \<and>
     (\<exists>m. collect_while_prefix p (map Inr kvs @ Inl e # rest) = Inl m)"
  by (induction kvs) auto

lemma scan_range_ascending:
  assumes "redb_laws R view" and "rb_range R d prefix (prefix_upper_bound prefix) = Inr items"
  shows "range_items (view d) (\<lambda>k. starts_with k prefix) items"
proof -
  have "range_items (view d)
      (\<lambda>k. prefix \<le> k \<and> (case prefix_upper_bound prefix of None \<Rightarrow> True | Some h \<Rightarrow> k < h)) items"
    using assms unfolding redb_laws_def by blast
  then show ?thesis unfolding prefix_upper_bound_exact .
qed

lemma redb_scan_ascending:
  assumes laws: "redb_laws R view" and scan: "redb_scan_prefix R s prefix = Inr kvs"
  shows "ascending_entries (view (rs_db s)) (\<lambda>k. starts_with k prefix) kvs"
proof -
  obtain snap items where snap: "rb_begin_read R (rs_db s) = Inr snap"
    and items: "rb_range R snap prefix (prefix_upper_bound prefix) = Inr items"
    and kvs: "collect_items items = Inr kvs \<or> collect_while_prefix prefix items = Inr kvs"
    using scan by (cases "prefix_upper_bound prefix") (auto simp: redb_scan_prefix_def rbind_Inr_conv)
  have view: "view snap = view (rs_db s)" using laws snap by (auto simp: redb_laws_def)
  obtain all where all: "ascending_entries (view snap) (\<lambda>k. starts_with k prefix) all"
    and cases: "items = map Inr all \<or> (\<exists>n e rest. items = map Inr (take n all) @ Inl e # rest)"
    using scan_range_ascending [OF laws items] by (auto simp: range_items_def)
  have pre: "\<forall>kv \<in> set all. starts_with (fst kv) prefix"
    using all by (auto simp: ascending_entries_def)
  from cases kvs have "kvs = all"
  proof (elim disjE exE)
    assume "items = map Inr all" "collect_items items = Inr kvs"
    then show ?thesis by (simp add: collect_items_Inr)
  next
    assume "items = map Inr all" "collect_while_prefix prefix items = Inr kvs"
    then show ?thesis using collect_while_all [OF pre] by simp
  next
    fix n e rest
    assume "items = map Inr (take n all) @ Inl e # rest" "collect_items items = Inr kvs"
    then show ?thesis by (auto simp: collect_items_Inr append_eq_map_conv Cons_eq_map_conv)
  next
    fix n e rest
    assume "items = map Inr (take n all) @ Inl e # rest" "collect_while_prefix prefix items = Inr kvs"
    moreover have "\<forall>kv \<in> set (take n all). starts_with (fst kv) prefix"
      using pre by (auto dest: in_set_takeD)
    ultimately show ?thesis using collect_while_all [of "take n all" prefix e rest] by auto
  qed
  then show ?thesis using all view by simp
qed

lemma redb_laws_simps:
  assumes "redb_laws R view"
  shows "rb_begin_read R d = Inr s \<Longrightarrow> view s = view d"
    and "rb_begin_write R d = Inr w \<Longrightarrow> view w = view d"
    and "rb_get R d k = Inr ov \<Longrightarrow> ov = view d k"
    and "rb_insert R w k v = Inr w' \<Longrightarrow> view w' = (view w)(k \<mapsto> v)"
    and "rb_remove R w k = Inr (ov, w') \<Longrightarrow> view w' = (view w)(k := None)"
    and "rb_remove R w k = Inr (ov, w') \<Longrightarrow> ov = view w k"
    and "rb_commit R d w = Inr d' \<Longrightarrow> view d' = view w"
    and "rb_table_len R d = Inr n \<Longrightarrow> n = card (dom (view d))"
    and "finite (dom (view d))"
proof -
  note l = assms [unfolded redb_laws_def]
  show "rb_begin_read R d = Inr s \<Longrightarrow> view s = view d" using l by meson
  show "rb_begin_write R d = Inr w \<Longrightarrow> view w = view d" using l by meson
  show "rb_get R d k = Inr ov \<Longrightarrow> ov = view d k" using l by meson
  show "rb_insert R w k v = Inr w' \<Longrightarrow> view w' = (view w)(k \<mapsto> v)" using l by meson
  show "rb_remove R w k = Inr (ov, w') \<Longrightarrow> view w' = (view w)(k := None)" using l by meson
  show "rb_remove R w k = Inr (ov, w') \<Longrightarrow> ov = view w k" using l by meson
  show "rb_commit R d w = Inr d' \<Longrightarrow> view d' = view w" using l by meson
  show "rb_table_len R d = Inr n \<Longrightarrow> n = card (dom (view d))" using l by meson
  show "finite (dom (view d))" using l by meson
qed

text \<open>What the body of a transaction does to the entries and to the entry counter.\<close>

definition count_after :: "(bytes \<rightharpoonup> bytes) \<Rightarrow> (bytes \<rightharpoonup> bytes) \<Rightarrow> u64 \<Rightarrow> u64" where
  "count_after m m' count = count + of_nat (card (dom m')) - of_nat (card (dom m))"

lemma count_after_refl [simp]: "count_after m m c = c"
  by (simp add: count_after_def)

lemma count_after_trans: "count_after m' m'' (count_after m m' c) = count_after m m'' c"
  by (simp add: count_after_def)

lemma count_after_put:
  "finite (dom m) \<Longrightarrow> count_after m (m(k \<mapsto> v)) c = (if m k = None then c + 1 else c)"
  by (auto simp: count_after_def domIff insert_absorb)

lemma count_after_delete:
  "finite (dom m) \<Longrightarrow> count_after m (m(k := None)) c = (if m k \<noteq> None then c - 1 else c)"
proof (cases "m k")
  case None
  then show ?thesis by (simp add: fun_upd_idem)
next
  case (Some v)
  assume fin: "finite (dom m)"
  have "k \<in> dom m" using Some by blast
  with fin have "card (dom m) = Suc (card (dom m - {k}))" by (rule card.remove)
  then show ?thesis using Some by (simp add: count_after_def)
qed

lemma txn_put_effect:
  assumes "redb_laws R view" and "txn_put R ctx k v txn c = (Inr txn', c')"
  shows "view txn' = (view txn)(k \<mapsto> v) \<and> c' = count_after (view txn) (view txn') c"
proof -
  obtain old where "rb_get R txn k = Inr old" "rb_insert R txn k v = Inr txn'" "c' = (if old = None then c + 1 else c)"
    using assms(2) by (auto simp: txn_put_def split: sum.splits)
  then show ?thesis
    using redb_laws_simps [OF assms(1)] by (auto simp: count_after_put)
qed

lemma txn_delete_effect:
  assumes "redb_laws R view" and "txn_delete R ctx k txn c = (Inr txn', c')"
  shows "view txn' = (view txn)(k := None) \<and> c' = count_after (view txn) (view txn') c"
proof -
  obtain old where "rb_remove R txn k = Inr (old, txn')" "c' = (if old \<noteq> None then c - 1 else c)"
    using assms(2) by (auto simp: txn_delete_def split: sum.splits)
  moreover from redb_laws_simps(5,6) [OF assms(1) this(1)] have "view txn' = (view txn)(k := None)" "old = view txn k"
    by simp_all
  ultimately show ?thesis
    using redb_laws_simps(9) [OF assms(1), of txn] count_after_delete [of "view txn" k c] by simp
qed

lemma txn_batch_effect:
  assumes "redb_laws R view" and "txn_batch R ops txn c = (Inr txn', c')"
  shows "view txn' = fold batch_effect ops (view txn) \<and> c' = count_after (view txn) (view txn') c"
  using assms
proof (induction R ops txn c rule: txn_batch.induct)
  case (2 R op k v ops txn c)
  note laws = 2(2)
  from 2 obtain t1 c1 where step: "(case op of
              Put \<Rightarrow> txn_put R ''L3 redb batch'' k (case v of None \<Rightarrow> [] | Some x \<Rightarrow> x) txn c
            | Delete \<Rightarrow> txn_delete R ''L3 redb batch'' k txn c) = (Inr t1, c1)"
    and rest: "txn_batch R ops t1 c1 = (Inr txn', c')"
    by (auto split: prod.splits sum.splits)
  have "view t1 = batch_effect (op, k, v) (view txn) \<and> c1 = count_after (view txn) (view t1) c"
    using step by (cases op) (auto dest: txn_put_effect [OF laws] txn_delete_effect [OF laws])
  moreover have "view txn' = fold batch_effect ops (view t1) \<and> c' = count_after (view t1) (view txn') c1"
    using 2(1) [OF step [symmetric] refl laws] rest by simp
  ultimately show ?case by (simp add: count_after_trans)
qed simp

lemma with_txn_Inr:
  assumes "redb_laws R view" and "with_txn R ctx body s = (Inr (), s')"
    and "\<And>txn c txn' c'. body txn c = (Inr txn', c') \<Longrightarrow> view txn' = f (view txn) \<and> c' = count_after (view txn) (view txn') c"
  shows "view (rs_db s') = f (view (rs_db s)) \<and>
         rs_entry_count s' = count_after (view (rs_db s)) (view (rs_db s')) (rs_entry_count s)"
proof -
  obtain txn txn' c' db' where *: "rb_begin_write R (rs_db s) = Inr txn" "body txn (rs_entry_count s) = (Inr txn', c')"
    "rb_commit R (rs_db s) txn' = Inr db'" "s' = \<lparr>rs_db = db', rs_entry_count = c'\<rparr>"
    using assms(2) by (auto simp: with_txn_def split: sum.splits prod.splits)
  then show ?thesis
    using redb_laws_simps(2,7) [OF assms(1)] assms(3) [OF *(2)] by simp
qed

lemma with_txn_Inl: "with_txn R ctx body s = (Inl e, s') \<Longrightarrow> rs_db s' = rs_db s"
  by (auto simp: with_txn_def split: sum.splits prod.splits)

lemma redb_put_effect:
  assumes "redb_laws R view" and "redb_put R s k v = (Inr (), s')"
  shows "view (rs_db s') = (view (rs_db s))(k \<mapsto> v) \<and>
         rs_entry_count s' = count_after (view (rs_db s)) (view (rs_db s')) (rs_entry_count s)"
  by (rule with_txn_Inr [OF assms(1) assms(2) [unfolded redb_put_def]]) (rule txn_put_effect [OF assms(1)])

lemma redb_delete_effect:
  assumes "redb_laws R view" and "redb_delete R s k = (Inr (), s')"
  shows "view (rs_db s') = (view (rs_db s))(k := None) \<and>
         rs_entry_count s' = count_after (view (rs_db s)) (view (rs_db s')) (rs_entry_count s)"
  by (rule with_txn_Inr [OF assms(1) assms(2) [unfolded redb_delete_def]]) (rule txn_delete_effect [OF assms(1)])

lemma redb_write_batch_effect:
  assumes "redb_laws R view" and "redb_write_batch R s ops = (Inr (), s')"
  shows "view (rs_db s') = fold batch_effect ops (view (rs_db s)) \<and>
         rs_entry_count s' = count_after (view (rs_db s)) (view (rs_db s')) (rs_entry_count s)"
proof (cases "ops = []")
  case True
  then show ?thesis using assms(2) by (simp add: redb_write_batch_def)
next
  case False
  then have "with_txn R ''L3 redb batch'' (txn_batch R ops) s = (Inr (), s')"
    using assms(2) by (simp add: redb_write_batch_def)
  then show ?thesis by (rule with_txn_Inr [OF assms(1)]) (rule txn_batch_effect [OF assms(1)])
qed

lemma redb_write_batch_Inl: "redb_write_batch R s ops = (Inl e, s') \<Longrightarrow> rs_db s' = rs_db s"
  by (auto simp: redb_write_batch_def dest: with_txn_Inl split: if_splits)

lemma redb_get_view:
  assumes "redb_laws R view" and "redb_get R s k = Inr ov"
  shows "ov = view (rs_db s) k"
  using assms(2) by (auto simp: redb_get_def rbind_Inr_conv dest!: redb_laws_simps(1,3) [OF assms(1)])

lemma redb_store_l3:
  assumes "redb_laws R view"
  shows "l3_store (redb_ops R) (\<lambda>s. view (rs_db s))"
proof (unfold_locales, goal_cases)
  case 1 then show ?case using redb_get_view [OF assms] by (simp add: redb_ops_def)
next
  case 2 then show ?case using redb_put_effect [OF assms] by (simp add: redb_ops_def)
next
  case 3 then show ?case by (auto simp: redb_ops_def redb_put_def dest: with_txn_Inl)
next
  case 4 then show ?case using redb_delete_effect [OF assms] by (simp add: redb_ops_def)
next
  case 5 then show ?case by (auto simp: redb_ops_def redb_delete_def dest: with_txn_Inl)
next
  case 6 then show ?case using redb_write_batch_effect [OF assms] by (simp add: redb_ops_def)
next
  case 7 then show ?case by (auto simp: redb_ops_def dest: redb_write_batch_Inl)
next
  case 8 then show ?case using redb_scan_ascending [OF assms] by (simp add: redb_ops_def)
next
  case 9 then show ?case by (simp add: redb_ops_def redb_flush_def)
qed

section \<open>An ordered table that never fails\<close>

text \<open>The laws have a model: a balanced search tree over the key order.\<close>

definition tree_redb :: "(bytes, bytes) rbt redb" where
  "tree_redb =
     \<lparr>rb_begin_read = Inr, rb_begin_write = Inr, rb_open_table = (\<lambda>d. Inr ()),
      rb_get = (\<lambda>d k. Inr (RBT.lookup d k)),
      rb_range = (\<lambda>d lo hi. Inr (map Inr (filter (\<lambda>(k, v). lo \<le> k \<and> (case hi of None \<Rightarrow> True | Some h \<Rightarrow> k < h))
                                            (RBT.entries d)))),
      rb_table_len = (\<lambda>d. Inr (length (RBT.entries d))),
      rb_insert = (\<lambda>d k v. Inr (RBT.insert k v d)),
      rb_remove = (\<lambda>d k. Inr (RBT.lookup d k, RBT.delete k d)),
      rb_commit = (\<lambda>d w. Inr w)\<rparr>"

lemma tree_entries_strict: "sorted_wrt (<) (map fst (RBT.entries d))"
  by (simp add: strict_sorted_iff RBT.sorted_entries RBT.distinct_entries)

lemma tree_entries_ascending: "ascending_entries (RBT.lookup d) P (filter (\<lambda>(k, v). P k) (RBT.entries d))"
proof -
  have "sorted_wrt (<) (map fst (filter (\<lambda>(k, v). P k) (RBT.entries d)))"
    using bt_invar_filter [of "RBT.entries d"] tree_entries_strict [of d] by (simp add: bt_invar_def)
  moreover have "(k, v) \<in> set (RBT.entries d) \<longleftrightarrow> RBT.lookup d k = Some v" for k v
    using map_of_eq_Some_iff [OF RBT.distinct_entries, of d k v] by (simp add: RBT.map_of_entries)
  ultimately show ?thesis by (auto simp: ascending_entries_def)
qed

lemma tree_redb_simps:
  "rb_begin_read tree_redb d = Inr d" "rb_begin_write tree_redb d = Inr d" "rb_open_table tree_redb d = Inr ()"
  "rb_get tree_redb d k = Inr (RBT.lookup d k)"
  "rb_range tree_redb d lo hi =
     Inr (map Inr (filter (\<lambda>(k, v). lo \<le> k \<and> (case hi of None \<Rightarrow> True | Some h \<Rightarrow> k < h)) (RBT.entries d)))"
  "rb_table_len tree_redb d = Inr (length (RBT.entries d))"
  "rb_insert tree_redb d k v = Inr (RBT.insert k v d)"
  "rb_remove tree_redb d k = Inr (RBT.lookup d k, RBT.delete k d)"
  "rb_commit tree_redb d w = Inr w"
  by (simp_all add: tree_redb_def)

lemma tree_len: "length (RBT.entries d) = card (dom (RBT.lookup (d :: (bytes, bytes) rbt)))"
proof -
  have "dom (RBT.lookup d) = set (map fst (RBT.entries d))"
    using dom_map_of_conv_image_fst [of "RBT.entries d"] by (simp only: RBT.map_of_entries set_map)
  then show ?thesis by (simp only: distinct_card [OF RBT.distinct_entries] length_map)
qed

lemma tree_range: "range_items (RBT.lookup d) P (map Inr (filter (\<lambda>(k, v). P k) (RBT.entries d)))"
  using tree_entries_ascending unfolding range_items_def by blast

lemma tree_redb_laws: "redb_laws tree_redb RBT.lookup"
  unfolding redb_laws_def tree_redb_simps sum.inject prod.inject
  by (intro conjI allI impI) (auto simp only: tree_range tree_len RBT.lookup_insert RBT.lookup_delete RBT.finite_dom_lookup)

interpretation redb: l3_store "redb_ops tree_redb" "\<lambda>s. RBT.lookup (rs_db s)"
  by (rule redb_store_l3) (rule tree_redb_laws)

type_synonym tree_store = "(bytes, bytes) rbt redb_store"

definition empty_store :: tree_store where
  "empty_store = \<lparr>rs_db = RBT.empty, rs_entry_count = 0\<rparr>"

lemma tree_ops_total:
  "\<exists>s'. l3_put (redb_ops tree_redb) s k v = (Inr (), s')"
  "\<exists>s'. l3_delete (redb_ops tree_redb) s k = (Inr (), s')"
  "\<exists>v. l3_get (redb_ops tree_redb) s k = Inr v"
  by (simp_all add: redb_ops_def redb_put_def redb_delete_def redb_get_def with_txn_def txn_put_def
      txn_delete_def tree_redb_simps)

lemma tree_batch_total: "\<exists>w' c'. txn_batch tree_redb ops w c = (Inr w', c')"
  by (induction tree_redb ops w c rule: txn_batch.induct)
    (auto simp: txn_put_def txn_delete_def tree_redb_simps split: batch_op.splits)

lemma tree_write_batch_total: "\<exists>s'. l3_write_batch (redb_ops tree_redb) s ops = (Inr (), s')"
proof -
  obtain w' c' where "txn_batch tree_redb ops (rs_db s) (rs_entry_count s) = (Inr w', c')"
    using tree_batch_total by blast
  then show ?thesis by (simp add: redb_ops_def redb_write_batch_def with_txn_def tree_redb_simps)
qed

lemma collect_while_total: "\<exists>kvs'. collect_while_prefix p (map Inr kvs) = Inr kvs'"
  by (induction kvs) auto

lemma tree_scan_total: "\<exists>kvs. l3_scan_prefix (redb_ops tree_redb) s p = Inr kvs"
  using collect_while_total
  by (simp add: redb_ops_def redb_scan_prefix_def tree_redb_simps collect_items_Inr split: option.splits)

section \<open>Properties\<close>

text \<open>
  C5: over any database that keeps the laws of \<open>redb\<close>, \<open>RedbStore\<close> implements the \<open>L3Store\<close>
  contract: reads return what the last successful write stored, a batch is applied entirely or not at
  all, a failed write changes no entry, and a prefix scan returns exactly the entries with the prefix
  in ascending key order.
\<close>

theorem redb_store_implements_l3:
  assumes "redb_laws R view"
  shows "l3_store (redb_ops R) (\<lambda>s. view (rs_db s))"
  using assms by (rule redb_store_l3)

theorem redb_store_implements_l3_witness:
  "l3_store (redb_ops tree_redb) (\<lambda>s. RBT.lookup (rs_db s))"
  by (rule redb_store_implements_l3) (rule tree_redb_laws)

text \<open>
  The byte range a prefix scan reads, from the prefix to its upper bound or to the end of the
  table when every byte is \<open>0xFF\<close>, contains exactly the keys that start with the prefix.
\<close>

theorem prefix_range_exact:
  "prefix \<le> k \<and> (case prefix_upper_bound prefix of None \<Rightarrow> True | Some upper \<Rightarrow> k < upper)
     \<longleftrightarrow> starts_with k prefix"
  by (rule prefix_upper_bound_exact)

definition count_exact :: "('d \<Rightarrow> (bytes \<rightharpoonup> bytes)) \<Rightarrow> 'd redb_store \<Rightarrow> bool" where
  "count_exact view s \<longleftrightarrow> rs_entry_count s = of_nat (card (dom (view (rs_db s))))"

text \<open>
  The entry counter is exact after \<open>open\<close>, and every put, delete and batch that reports success
  keeps it exact.
\<close>

theorem redb_count_exact:
  assumes "redb_laws R view"
  shows "(redb_open R db = Inr s0 \<longrightarrow> count_exact view s0) \<and>
         (count_exact view s \<longrightarrow>
            (redb_put R s k v = (Inr (), s1) \<longrightarrow> count_exact view s1) \<and>
            (redb_delete R s k = (Inr (), s2) \<longrightarrow> count_exact view s2) \<and>
            (redb_write_batch R s ops = (Inr (), s3) \<longrightarrow> count_exact view s3))"
proof -
  have "count_exact view s0" if "redb_open R db = Inr s0"
    using that by (auto simp: redb_open_def rbind_Inr_conv count_exact_def dest!: redb_laws_simps(1,8) [OF assms])
  moreover have step: "count_exact view s'" if "count_exact view s"
    "rs_entry_count s' = count_after (view (rs_db s)) (view (rs_db s')) (rs_entry_count s)" for s'
    using that by (simp add: count_exact_def count_after_def)
  ultimately show ?thesis
    by (auto intro!: step dest!: redb_put_effect [OF assms] redb_delete_effect [OF assms]
        redb_write_batch_effect [OF assms])
qed

theorem redb_count_exact_witness:
  "count_exact RBT.lookup
     (snd (redb_put tree_redb \<lparr>rs_db = RBT.empty, rs_entry_count = 0\<rparr> [1] [2]))"
proof -
  let ?s = "\<lparr>rs_db = RBT.empty, rs_entry_count = 0\<rparr> :: (bytes, bytes) rbt redb_store"
  have "count_exact RBT.lookup ?s" by (simp add: count_exact_def)
  moreover have "redb_put tree_redb ?s [1] [2] = (Inr (), snd (redb_put tree_redb ?s [1] [2]))"
    by (simp add: redb_put_def with_txn_def txn_put_def tree_redb_simps)
  ultimately show ?thesis using redb_count_exact [OF tree_redb_laws, of _ _ ?s "[1]" "[2]"] by blast
qed

text \<open>
  The counter is advanced before the transaction commits, so a put whose commit fails reports an
  error and stores nothing, yet \<open>len\<close> counts one entry more than the table holds.
\<close>

theorem redb_count_drifts_on_failed_commit:
  "\<exists>R :: (bytes, bytes) rbt redb. redb_laws R RBT.lookup \<and>
     (\<exists>s e s'. count_exact RBT.lookup s \<and> redb_put R s [1] [2] = (Inl e, s') \<and>
        rs_db s' = rs_db s \<and> redb_len s' = Inr 1 \<and> card (dom (RBT.lookup (rs_db s'))) = 0)"
proof -
  let ?R = "tree_redb\<lparr>rb_commit := (\<lambda>d w. Inl ''disk full'')\<rparr>"
  let ?s = "\<lparr>rs_db = RBT.empty, rs_entry_count = 0\<rparr> :: (bytes, bytes) rbt redb_store"
  have "redb_laws ?R RBT.lookup"
    using tree_redb_laws unfolding redb_laws_def by simp
  moreover have "redb_put ?R ?s [1] [2] =
      (Inl (State ''L3 redb put: commit''), ?s\<lparr>rs_entry_count := 1\<rparr>)"
    by (simp add: redb_put_def with_txn_def txn_put_def tree_redb_simps state_err_def)
  ultimately show ?thesis
    by (intro exI [of _ ?R] conjI exI [of _ ?s]) (auto simp: count_exact_def redb_len_def)
qed

end
