(* ===== verification/Cluster_Store.thy ===== *)
theory Cluster_Store
  imports Cluster_State Redb_Store Byte_Codec
begin

text \<open>
  \<open>aeon-cluster/src/store.rs\<close>: \<open>StateMachineStore\<close>, the Raft state machine around the cluster
  state, with its shared read handle, its owned-partitions watch and its persisted snapshots.
  \<open>'m\<close> is the membership type of \<open>openraft\<close>, \<open>'s\<close> the state of the \<open>L3Store\<close> holding
  snapshots, \<open>'g\<close> the state of the registry applier.  \<open>bincode\<close>, \<open>serde_json\<close>, the applier
  and the snapshot cipher are parameters.  The \<open>L3Store\<close> is shared by reference between the state
  machine and its snapshot builders; the model threads its state.
\<close>

record log_id =
  li_term :: u64
  li_node :: u64
  li_index :: u64

datatype 'm entry_payload = Blank | Normal cluster_request | Membership 'm

type_synonym 'm entry = "log_id \<times> 'm entry_payload"
type_synonym 'm stored_membership = "log_id option \<times> 'm"

record 'm snapshot_meta =
  meta_last_log_id :: "log_id option"
  meta_last_membership :: "'m stored_membership"
  meta_snapshot_id :: string

datatype storage_error = StorageError string

record etm_key =
  etm_encrypt :: "bytes \<Rightarrow> string + bytes"
  etm_decrypt :: "bytes \<Rightarrow> string + bytes"

record 'm bincode =
  bc_snapshot_to_bytes :: "cluster_snapshot \<Rightarrow> string + bytes"
  bc_snapshot_from_bytes :: "bytes \<Rightarrow> string + cluster_snapshot"
  bc_meta_serialize :: "'m snapshot_meta \<Rightarrow> string + bytes"
  bc_meta_deserialize :: "bytes \<Rightarrow> string + 'm snapshot_meta"

record ('c, 'r, 'g) registry_env =
  re_from_slice :: "bytes \<Rightarrow> string + 'c"
  re_apply :: "'g \<Rightarrow> 'c \<Rightarrow> 'r \<times> 'g"
  re_to_vec :: "'r \<Rightarrow> string + bytes"

record ('m, 's, 'g) state_machine =
  sm_state :: cluster_snapshot
  sm_last_applied_log :: "log_id option"
  sm_last_membership :: "'m stored_membership"
  sm_snapshot_idx :: u64
  sm_encryption_key :: "etm_key option"
  sm_shared_state :: cluster_snapshot
  sm_snapshot_store :: "'s option"
  sm_registry_applier :: "'g option"
  sm_owned_watch :: "(node_id \<times> partition_id list) option"

definition sm_new :: "'m \<Rightarrow> ('m, 's, 'g) state_machine" where
  "sm_new empty_membership =
     \<lparr>sm_state = snapshot_default, sm_last_applied_log = None,
      sm_last_membership = (None, empty_membership), sm_snapshot_idx = 0, sm_encryption_key = None,
      sm_shared_state = snapshot_default, sm_snapshot_store = None, sm_registry_applier = None,
      sm_owned_watch = None\<rparr>"

text \<open>\<open>send_if_modified\<close> stores the new slice exactly when it differs from the current one.\<close>

definition broadcast_owned_partitions :: "('m, 's, 'g) state_machine \<Rightarrow> ('m, 's, 'g) state_machine" where
  "broadcast_owned_partitions sm =
     (case sm_owned_watch sm of
        None \<Rightarrow> sm
      | Some (node, current) \<Rightarrow>
          let owned = sort (partitions_for_node (cs_partition_table (sm_state sm)) node)
          in if current = owned then sm else sm\<lparr>sm_owned_watch := Some (node, owned)\<rparr>)"

section \<open>Applying committed entries\<close>

definition registry_response :: "('c, 'r, 'g) registry_env \<Rightarrow> 'r \<Rightarrow> cluster_response" where
  "registry_response E r =
     (case re_to_vec E r of
        Inl e \<Rightarrow> RespError ''RegistryResponse serialize failed''
      | Inr bs \<Rightarrow> RespRegistry bs)"

definition apply_registry :: "('c, 'r, 'g) registry_env \<Rightarrow> bytes \<Rightarrow> ('m, 's, 'g) state_machine
    \<Rightarrow> cluster_response \<times> ('m, 's, 'g) state_machine" where
  "apply_registry E payload sm =
     (case re_from_slice E payload of
        Inl e \<Rightarrow> (RespError ''malformed Registry payload'', sm)
      | Inr cmd \<Rightarrow>
          (case sm_registry_applier sm of
             None \<Rightarrow> (RespOk, sm)
           | Some g \<Rightarrow>
               let (rresp, g') = re_apply E g cmd
               in (registry_response E rresp, sm\<lparr>sm_registry_applier := Some g'\<rparr>)))"

definition apply_payload :: "('c, 'r, 'g) registry_env \<Rightarrow> log_id \<Rightarrow> 'm entry_payload \<Rightarrow> ('m, 's, 'g) state_machine
    \<Rightarrow> (cluster_response \<times> ('m, 's, 'g) state_machine) option" where
  "apply_payload E lid payload sm =
     (case payload of
        Blank \<Rightarrow> Some (RespOk, sm)
      | Normal (Registry bs) \<Rightarrow> Some (apply_registry E bs sm)
      | Normal req \<Rightarrow>
          (case apply_request req (sm_state sm) of
             None \<Rightarrow> None
           | Some (resp, st) \<Rightarrow> Some (resp, sm\<lparr>sm_state := st\<rparr>))
      | Membership m \<Rightarrow> Some (RespOk, sm\<lparr>sm_last_membership := (Some lid, m)\<rparr>))"

definition record_applied :: "log_id \<Rightarrow> ('m, 's, 'g) state_machine \<Rightarrow> ('m, 's, 'g) state_machine" where
  "record_applied lid sm =
     sm\<lparr>sm_last_applied_log := Some lid,
        sm_state := (sm_state sm)\<lparr>cs_last_applied_log_index := li_index lid,
                                 cs_last_applied_log_term := li_term lid\<rparr>\<rparr>"

fun apply_entries :: "('c, 'r, 'g) registry_env \<Rightarrow> 'm entry list \<Rightarrow> ('m, 's, 'g) state_machine
    \<Rightarrow> (cluster_response list \<times> ('m, 's, 'g) state_machine) option" where
  "apply_entries E [] sm = Some ([], sm)"
| "apply_entries E ((lid, payload) # entries) sm =
     (case apply_payload E lid payload (record_applied lid sm) of
        None \<Rightarrow> None
      | Some (resp, sm') \<Rightarrow>
          (case apply_entries E entries sm' of
             None \<Rightarrow> None
           | Some (resps, sm'') \<Rightarrow> Some (resp # resps, sm'')))"

definition sm_apply :: "('c, 'r, 'g) registry_env \<Rightarrow> 'm entry list \<Rightarrow> ('m, 's, 'g) state_machine
    \<Rightarrow> (cluster_response list \<times> ('m, 's, 'g) state_machine) option" where
  "sm_apply E entries sm =
     (case apply_entries E entries sm of
        None \<Rightarrow> None
      | Some (resps, sm') \<Rightarrow>
          Some (resps, broadcast_owned_partitions (sm'\<lparr>sm_shared_state := sm_state sm'\<rparr>)))"

definition applied_state :: "('m, 's, 'g) state_machine \<Rightarrow> log_id option \<times> 'm stored_membership" where
  "applied_state sm = (sm_last_applied_log sm, sm_last_membership sm)"

section \<open>Snapshots\<close>

definition ascii :: "string \<Rightarrow> bytes" where
  "ascii s = map (\<lambda>c. of_nat (of_char c)) s"

definition snapshot_meta_key :: bytes where
  "snapshot_meta_key = ascii ''raft/snapshot/meta''"

definition snapshot_data_key :: bytes where
  "snapshot_data_key = ascii ''raft/snapshot/data''"

definition persist_snapshot_bytes :: "'s l3_ops \<Rightarrow> 'm bincode \<Rightarrow> 's \<Rightarrow> 'm snapshot_meta \<Rightarrow> bytes
    \<Rightarrow> unit res \<times> 's" where
  "persist_snapshot_bytes L B l3 meta data_bytes =
     (case bc_meta_serialize B meta of
        Inl e \<Rightarrow> (Inl (Cluster ''snapshot meta serialization failed''), l3)
      | Inr meta_bytes \<Rightarrow>
          (case l3_write_batch L l3 [(Put, snapshot_meta_key, Some meta_bytes),
                                     (Put, snapshot_data_key, Some data_bytes)] of
             (Inl e, l3') \<Rightarrow> (Inl e, l3')
           | (Inr _, l3') \<Rightarrow> l3_flush L l3'))"

text \<open>Writing the snapshot when a store is configured; a failure becomes a storage error.\<close>

definition persist_if_configured :: "'s l3_ops \<Rightarrow> 'm bincode \<Rightarrow> 'm snapshot_meta \<Rightarrow> bytes
    \<Rightarrow> ('m, 's, 'g) state_machine \<Rightarrow> (storage_error + unit) \<times> ('m, 's, 'g) state_machine" where
  "persist_if_configured L B meta raw sm =
     (case sm_snapshot_store sm of
        None \<Rightarrow> (Inr (), sm)
      | Some l3 \<Rightarrow>
          (case persist_snapshot_bytes L B l3 meta raw of
             (Inl e, l3') \<Rightarrow> (Inl (StorageError ''snapshot persistence failed''), sm\<lparr>sm_snapshot_store := Some l3'\<rparr>)
           | (Inr _, l3') \<Rightarrow> (Inr (), sm\<lparr>sm_snapshot_store := Some l3'\<rparr>)))"

definition encrypt_if_configured :: "('m, 's, 'g) state_machine \<Rightarrow> bytes \<Rightarrow> string + bytes" where
  "encrypt_if_configured sm data =
     (case sm_encryption_key sm of None \<Rightarrow> Inr data | Some k \<Rightarrow> etm_encrypt k data)"

definition decrypt_if_configured :: "('m, 's, 'g) state_machine \<Rightarrow> bytes \<Rightarrow> string + bytes" where
  "decrypt_if_configured sm data =
     (case sm_encryption_key sm of None \<Rightarrow> Inr data | Some k \<Rightarrow> etm_decrypt k data)"

definition last_index_or_zero :: "('m, 's, 'g) state_machine \<Rightarrow> nat" where
  "last_index_or_zero sm = (case sm_last_applied_log sm of None \<Rightarrow> 0 | Some l \<Rightarrow> unat (li_index l))"

definition build_snapshot :: "'s l3_ops \<Rightarrow> 'm bincode \<Rightarrow> ('m, 's, 'g) state_machine
    \<Rightarrow> (storage_error + 'm snapshot_meta \<times> bytes) \<times> ('m, 's, 'g) state_machine" where
  "build_snapshot L B sm =
     (let snapshot_id = ''snap-'' @ show_nat (last_index_or_zero sm) @ ''-'' @ show_nat (unat (sm_snapshot_idx sm))
      in case bc_snapshot_to_bytes B (sm_state sm) of
           Inl e \<Rightarrow> (Inl (StorageError e), sm)
         | Inr plain \<Rightarrow>
             (case encrypt_if_configured sm plain of
                Inl e \<Rightarrow> (Inl (StorageError ''snapshot encryption failed''), sm)
              | Inr data \<Rightarrow>
                  let meta = \<lparr>meta_last_log_id = sm_last_applied_log sm,
                              meta_last_membership = sm_last_membership sm, meta_snapshot_id = snapshot_id\<rparr>
                  in case persist_if_configured L B meta data sm of
                       (Inl e, sm') \<Rightarrow> (Inl e, sm')
                     | (Inr _, sm') \<Rightarrow> (Inr (meta, data), sm')))"

definition get_snapshot_builder :: "('m, 's, 'g) state_machine
    \<Rightarrow> ('m, 's, 'g) state_machine \<times> ('m, 's, 'g) state_machine" where
  "get_snapshot_builder sm =
     (let sm' = sm\<lparr>sm_snapshot_idx := sm_snapshot_idx sm + 1\<rparr> in (sm', sm'))"

definition install_snapshot :: "'s l3_ops \<Rightarrow> 'm bincode \<Rightarrow> 'm snapshot_meta \<Rightarrow> bytes \<Rightarrow> ('m, 's, 'g) state_machine
    \<Rightarrow> (storage_error + unit) \<times> ('m, 's, 'g) state_machine" where
  "install_snapshot L B meta raw sm =
     (case decrypt_if_configured sm raw of
        Inl e \<Rightarrow> (Inl (StorageError ''snapshot decryption failed''), sm)
      | Inr data \<Rightarrow>
          (case persist_if_configured L B meta raw sm of
             (Inl e, sm1) \<Rightarrow> (Inl e, sm1)
           | (Inr _, sm1) \<Rightarrow>
               (case bc_snapshot_from_bytes B data of
                  Inl e \<Rightarrow> (Inl (StorageError e), sm1)
                | Inr st \<Rightarrow>
                    (Inr (), broadcast_owned_partitions
                       (sm1\<lparr>sm_state := st, sm_last_applied_log := meta_last_log_id meta,
                            sm_last_membership := meta_last_membership meta, sm_shared_state := st\<rparr>)))))"

definition get_current_snapshot :: "'m bincode \<Rightarrow> ('m, 's, 'g) state_machine
    \<Rightarrow> storage_error + ('m snapshot_meta \<times> bytes) option" where
  "get_current_snapshot B sm =
     (if sm_last_applied_log sm = None then Inr None
      else case bc_snapshot_to_bytes B (sm_state sm) of
             Inl e \<Rightarrow> Inl (StorageError e)
           | Inr plain \<Rightarrow>
               (case encrypt_if_configured sm plain of
                  Inl e \<Rightarrow> Inl (StorageError ''snapshot encryption failed'')
                | Inr data \<Rightarrow>
                    Inr (Some (\<lparr>meta_last_log_id = sm_last_applied_log sm,
                                meta_last_membership = sm_last_membership sm,
                                meta_snapshot_id = ''snap-'' @ show_nat (last_index_or_zero sm) @ ''-current''\<rparr>, data))))"

definition hydrate_from_l3 :: "'s l3_ops \<Rightarrow> 'm bincode \<Rightarrow> 's \<Rightarrow> ('m, 's, 'g) state_machine
    \<Rightarrow> ('m, 's, 'g) state_machine res" where
  "hydrate_from_l3 L B l3 sm =
     rbind (l3_get L l3 snapshot_meta_key) (\<lambda>meta_bytes.
     rbind (l3_get L l3 snapshot_data_key) (\<lambda>data_bytes.
       case (meta_bytes, data_bytes) of
         (Some mb, Some db) \<Rightarrow>
           (case bc_meta_deserialize B mb of
              Inl e \<Rightarrow> Inl (Cluster ''corrupt raft snapshot meta'')
            | Inr meta \<Rightarrow>
                (case decrypt_if_configured sm db of
                   Inl e \<Rightarrow> Inl (Cluster ''raft snapshot decryption failed'')
                 | Inr plain \<Rightarrow>
                     (case bc_snapshot_from_bytes B plain of
                        Inl e \<Rightarrow> Inl (Cluster ''corrupt raft snapshot data'')
                      | Inr st \<Rightarrow>
                          Inr (sm\<lparr>sm_shared_state := st, sm_state := st,
                                  sm_last_applied_log := meta_last_log_id meta,
                                  sm_last_membership := meta_last_membership meta\<rparr>))))
       | _ \<Rightarrow> Inr sm))"

definition with_encryption_key :: "'m \<Rightarrow> etm_key \<Rightarrow> ('m, 's, 'g) state_machine" where
  "with_encryption_key m k = (sm_new m)\<lparr>sm_encryption_key := Some k\<rparr>"

definition new_persistent :: "'s l3_ops \<Rightarrow> 'm bincode \<Rightarrow> 'm \<Rightarrow> 's \<Rightarrow> ('m, 's, 'g) state_machine res" where
  "new_persistent L B m l3 =
     rbind (hydrate_from_l3 L B l3 (sm_new m)) (\<lambda>sm. Inr (sm\<lparr>sm_snapshot_store := Some l3\<rparr>))"

definition new_persistent_encrypted :: "'s l3_ops \<Rightarrow> 'm bincode \<Rightarrow> 'm \<Rightarrow> 's \<Rightarrow> etm_key
    \<Rightarrow> ('m, 's, 'g) state_machine res" where
  "new_persistent_encrypted L B m l3 k =
     rbind (hydrate_from_l3 L B l3 (with_encryption_key m k)) (\<lambda>sm. Inr (sm\<lparr>sm_snapshot_store := Some l3\<rparr>))"

section \<open>Apply keeps the read handles coherent\<close>

lemma broadcast_frame [simp]:
  "sm_state (broadcast_owned_partitions sm) = sm_state sm"
  "sm_shared_state (broadcast_owned_partitions sm) = sm_shared_state sm"
  "sm_last_applied_log (broadcast_owned_partitions sm) = sm_last_applied_log sm"
  "sm_last_membership (broadcast_owned_partitions sm) = sm_last_membership sm"
  "sm_snapshot_store (broadcast_owned_partitions sm) = sm_snapshot_store sm"
  by (auto simp: broadcast_owned_partitions_def Let_def split: option.splits)

definition watch_current :: "('m, 's, 'g) state_machine \<Rightarrow> bool" where
  "watch_current sm \<longleftrightarrow>
     (case sm_owned_watch sm of
        None \<Rightarrow> True
      | Some (node, current) \<Rightarrow> current = sort (partitions_for_node (cs_partition_table (sm_state sm)) node))"

lemma broadcast_current: "watch_current (broadcast_owned_partitions sm)"
  by (auto simp: watch_current_def broadcast_owned_partitions_def Let_def split: option.splits)

text \<open>An entry either leaves the cluster state alone or applies one request to it.\<close>

lemma apply_payload_cases:
  assumes "apply_payload E lid payload sm = Some (resp, sm')"
  obtains (same) "sm_state sm' = sm_state sm" "sm_last_applied_log sm' = sm_last_applied_log sm"
  | (request) req st where "apply_request req (sm_state sm) = Some (resp, st)" "sm' = sm\<lparr>sm_state := st\<rparr>"
proof (cases payload)
  case Blank
  then have "sm' = sm" using assms by (simp add: apply_payload_def)
  then show ?thesis using same by simp
next
  case (Membership m)
  then have "sm_state sm' = sm_state sm \<and> sm_last_applied_log sm' = sm_last_applied_log sm"
    using assms by (auto simp: apply_payload_def)
  then show ?thesis using same by simp
next
  case (Normal req)
  show ?thesis
  proof (cases "\<exists>bs. req = Registry bs")
    case True
    then have "sm_state sm' = sm_state sm \<and> sm_last_applied_log sm' = sm_last_applied_log sm"
      using assms Normal
      by (auto simp: apply_payload_def apply_registry_def split: sum.splits option.splits prod.splits)
    then show ?thesis using same by simp
  next
    case False
    then have "\<exists>st. apply_request req (sm_state sm) = Some (resp, st) \<and> sm' = sm\<lparr>sm_state := st\<rparr>"
      using assms Normal
      by (cases req) (auto simp: apply_payload_def simp del: apply_request.simps split: option.splits)
    then show ?thesis using request by blast
  qed
qed

lemma apply_payload_log:
  "apply_payload E lid payload sm = Some (resp, sm') \<Longrightarrow>
     sm_last_applied_log sm' = sm_last_applied_log sm"
  by (erule apply_payload_cases) simp_all

lemma apply_request_log:
  "apply_request req s = Some (resp, s') \<Longrightarrow>
     cs_last_applied_log_index s' = cs_last_applied_log_index s \<and>
     cs_last_applied_log_term s' = cs_last_applied_log_term s"
  by (cases req) (auto split: option.splits partition_ownership.splits if_splits)

lemma apply_payload_index:
  "apply_payload E lid payload sm = Some (resp, sm') \<Longrightarrow>
     cs_last_applied_log_index (sm_state sm') = cs_last_applied_log_index (sm_state sm) \<and>
     cs_last_applied_log_term (sm_state sm') = cs_last_applied_log_term (sm_state sm)"
  by (erule apply_payload_cases) (auto dest: apply_request_log)

lemma apply_entries_length:
  "apply_entries E entries sm = Some (resps, sm') \<Longrightarrow> length resps = length entries"
  by (induction E entries sm arbitrary: resps sm' rule: apply_entries.induct) (auto split: option.splits)

lemma apply_entries_last:
  "apply_entries E entries sm = Some (resps, sm') \<Longrightarrow> entries \<noteq> [] \<Longrightarrow>
     sm_last_applied_log sm' = Some (fst (last entries)) \<and>
     cs_last_applied_log_index (sm_state sm') = li_index (fst (last entries)) \<and>
     cs_last_applied_log_term (sm_state sm') = li_term (fst (last entries))"
proof (induction entries arbitrary: sm resps)
  case (Cons e entries)
  obtain lid payload where e: "e = (lid, payload)" by force
  obtain resp sm1 rest where 1: "apply_payload E lid payload (record_applied lid sm) = Some (resp, sm1)"
    and 2: "apply_entries E entries sm1 = Some (rest, sm')"
    using Cons.prems(1) by (auto simp: e split: option.splits)
  show ?case
  proof (cases "entries = []")
    case True
    then show ?thesis
      using 2 apply_payload_log [OF 1] apply_payload_index [OF 1] by (simp add: e record_applied_def)
  next
    case False
    then show ?thesis using Cons.IH [OF 2] by simp
  qed
qed simp

text \<open>
  C26: after a batch of committed entries is applied there is one response per entry, the last entry is
  recorded as applied, the shared read handle equals the state, and an installed owned-partitions
  watch holds exactly the partitions the table gives its node, in ascending order.
\<close>

theorem sm_apply_coherent:
  assumes "sm_apply E entries sm = Some (resps, sm')"
  shows "length resps = length entries \<and> sm_shared_state sm' = sm_state sm' \<and> watch_current sm' \<and>
         (entries \<noteq> [] \<longrightarrow> sm_last_applied_log sm' = Some (fst (last entries)) \<and>
            cs_last_applied_log_index (sm_state sm') = li_index (fst (last entries)) \<and>
            cs_last_applied_log_term (sm_state sm') = li_term (fst (last entries)))"
proof -
  obtain sm1 where "apply_entries E entries sm = Some (resps, sm1)"
    "sm' = broadcast_owned_partitions (sm1\<lparr>sm_shared_state := sm_state sm1\<rparr>)"
    using assms by (auto simp: sm_apply_def split: option.splits)
  then show ?thesis
    using apply_entries_length apply_entries_last by (fastforce simp: broadcast_current)
qed

definition unit_env :: "(unit, unit, unit) registry_env" where
  "unit_env = \<lparr>re_from_slice = (\<lambda>_. Inr ()), re_apply = (\<lambda>g c. ((), g)), re_to_vec = (\<lambda>_. Inr [])\<rparr>"

definition sample_entry :: "unit entry" where
  "sample_entry = (\<lparr>li_term = 1, li_node = 1, li_index = 7\<rparr>, Normal (AssignPartition (PartitionId 0) 5))"

theorem sm_apply_coherent_witness:
  "\<exists>sm'. sm_apply unit_env [sample_entry] (sm_new () :: (unit, unit, unit) state_machine) = Some ([RespOk], sm') \<and>
     sm_last_applied_log sm' = Some (fst sample_entry) \<and> sm_shared_state sm' = sm_state sm'"
proof -
  obtain sm' where "sm_apply unit_env [sample_entry] (sm_new () :: (unit, unit, unit) state_machine) = Some ([RespOk], sm')"
    by (simp add: sm_apply_def sample_entry_def apply_payload_def)
  from sm_apply_coherent [OF this] this show ?thesis by auto
qed

section \<open>Anchors across a run\<close>

lemma apply_payload_anchors:
  assumes "apply_payload E lid payload sm = Some (resp, sm')"
    and "hm_get (cs_source_anchor_offsets (sm_state sm)) p = Some a"
  shows "\<exists>a'. hm_get (cs_source_anchor_offsets (sm_state sm')) p = Some a' \<and> sint a \<le> sint a'"
  using assms(1)
proof (cases rule: apply_payload_cases)
  case (request req st)
  then show ?thesis using apply_request_anchors assms(2) by fastforce
qed (use assms(2) in simp)

lemma apply_entries_anchors:
  "apply_entries E entries sm = Some (resps, sm') \<Longrightarrow>
     hm_get (cs_source_anchor_offsets (sm_state sm)) p = Some a \<Longrightarrow>
     \<exists>a'. hm_get (cs_source_anchor_offsets (sm_state sm')) p = Some a' \<and> sint a \<le> sint a'"
proof (induction entries arbitrary: sm resps a)
  case (Cons e entries)
  obtain lid payload where e: "e = (lid, payload)" by force
  obtain resp sm1 rest where 1: "apply_payload E lid payload (record_applied lid sm) = Some (resp, sm1)"
    and 2: "apply_entries E entries sm1 = Some (rest, sm')"
    using Cons.prems(1) by (auto simp: e split: option.splits)
  have "hm_get (cs_source_anchor_offsets (sm_state (record_applied lid sm))) p = Some a"
    using Cons.prems(2) by (simp add: record_applied_def)
  from apply_payload_anchors [OF 1 this] obtain b where
    b: "hm_get (cs_source_anchor_offsets (sm_state sm1)) p = Some b" "sint a \<le> sint b" by blast
  from Cons.IH [OF 2 b(1)] b(2) show ?case by force
qed simp

text \<open>
  A checkpoint anchor never moves backwards.  Whatever committed entries are applied to a
  well-formed state, the source offset recorded for a partition, read as the \<open>u64\<close> it is stored as,
  only grows and is never dropped.
\<close>

theorem anchors_never_regress:
  assumes "snapshot_wf (sm_state sm)" and "sm_apply E entries sm = Some (resps, sm')"
    and "hm_get (cs_source_anchor_offsets (sm_state sm)) p = Some a"
  shows "\<exists>a'. hm_get (cs_source_anchor_offsets (sm_state sm')) p = Some a' \<and> a \<le> a'"
proof -
  obtain sm1 where "apply_entries E entries sm = Some (resps, sm1)" "sm_state sm' = sm_state sm1"
    using assms(2) by (auto simp: sm_apply_def split: option.splits)
  moreover have "0 \<le> sint a"
    using assms(1,3) by (auto simp: snapshot_wf_def list_all_iff dest!: map_of_SomeD)
  ultimately show ?thesis
    using apply_entries_anchors assms(3) sint_mono_unsigned by metis
qed

theorem anchors_never_regress_witness:
  "\<exists>sm'. sm_apply unit_env [(\<lparr>li_term = 1, li_node = 1, li_index = 1\<rparr>, Normal (SubmitCheckpoint [(0, 3)]))]
      ((sm_new () :: (unit, unit, unit) state_machine)
         \<lparr>sm_state := snapshot_default\<lparr>cs_source_anchor_offsets := [(PartitionId 0, 10)]\<rparr>\<rparr>) = Some ([RespOk], sm') \<and>
     (\<exists>a'. hm_get (cs_source_anchor_offsets (sm_state sm')) (PartitionId 0) = Some a' \<and> 10 \<le> a')"
proof -
  let ?sm = "(sm_new () :: (unit, unit, unit) state_machine)
         \<lparr>sm_state := snapshot_default\<lparr>cs_source_anchor_offsets := [(PartitionId 0, 10)]\<rparr>\<rparr>"
  let ?es = "[(\<lparr>li_term = 1, li_node = 1, li_index = 1\<rparr>, Normal (SubmitCheckpoint [(0, 3)]))]"
  obtain sm' where run: "sm_apply unit_env ?es ?sm = Some ([RespOk], sm')"
    by (simp add: sm_apply_def apply_payload_def)
  have "snapshot_wf (sm_state ?sm)"
    by (simp add: snapshot_wf_def snapshot_default_def table_new_def)
  from anchors_never_regress [OF this run, of "PartitionId 0" 10] run show ?thesis by simp
qed

section \<open>Snapshots carry the state\<close>

text \<open>What is relied on of \<open>bincode\<close> and of the snapshot cipher.\<close>

definition bincode_roundtrips :: "'m bincode \<Rightarrow> bool" where
  "bincode_roundtrips B \<longleftrightarrow>
     (\<forall>s bs. bc_snapshot_to_bytes B s = Inr bs \<longrightarrow> bc_snapshot_from_bytes B bs = Inr s) \<and>
     (\<forall>m bs. bc_meta_serialize B m = Inr bs \<longrightarrow> bc_meta_deserialize B bs = Inr m)"

definition cipher_roundtrips :: "etm_key option \<Rightarrow> bool" where
  "cipher_roundtrips ko \<longleftrightarrow>
     (case ko of None \<Rightarrow> True | Some k \<Rightarrow> (\<forall>d c. etm_encrypt k d = Inr c \<longrightarrow> etm_decrypt k c = Inr d))"

lemma decrypt_encrypt:
  "cipher_roundtrips (sm_encryption_key a) \<Longrightarrow> sm_encryption_key b = sm_encryption_key a \<Longrightarrow>
     encrypt_if_configured a d = Inr c \<Longrightarrow> decrypt_if_configured b c = Inr d"
  by (auto simp: cipher_roundtrips_def encrypt_if_configured_def decrypt_if_configured_def split: option.splits)

lemma build_snapshot_data:
  assumes "build_snapshot L B a = (Inr (meta, raw), a')"
  obtains plain where "bc_snapshot_to_bytes B (sm_state a) = Inr plain" "encrypt_if_configured a plain = Inr raw"
    "meta_last_log_id meta = sm_last_applied_log a" "meta_last_membership meta = sm_last_membership a"
    "persist_if_configured L B meta raw a = (Inr (), a')"
  using assms by (auto simp: build_snapshot_def Let_def split: sum.splits prod.splits)

lemma persist_frame:
  "persist_if_configured L B meta raw sm = (r, sm') \<Longrightarrow>
     sm_state sm' = sm_state sm \<and> sm_encryption_key sm' = sm_encryption_key sm \<and>
     sm_owned_watch sm' = sm_owned_watch sm"
  by (auto simp: persist_if_configured_def split: option.splits sum.splits prod.splits)


lemma snapshot_keys_distinct: "snapshot_meta_key \<noteq> snapshot_data_key"
  by (simp add: snapshot_meta_key_def snapshot_data_key_def ascii_def)

context l3_store begin

lemma persisted_snapshot_view:
  assumes "persist_snapshot_bytes L B l3 meta raw = (Inr (), l3')"
  shows "\<exists>mb. bc_meta_serialize B meta = Inr mb \<and> view l3' snapshot_meta_key = Some mb \<and>
              view l3' snapshot_data_key = Some raw"
  using assms snapshot_keys_distinct
  by (auto simp: persist_snapshot_bytes_def dest!: batch_view flush_view split: sum.splits prod.splits)

lemma hydrate_reads_snapshot:
  assumes "bincode_roundtrips B" and "persist_snapshot_bytes L B l3 meta raw = (Inr (), l3')"
    and "hydrate_from_l3 L B l3' sm0 = r" and "l3_get L l3' snapshot_meta_key = Inr v1" "l3_get L l3' snapshot_data_key = Inr v2"
    and "decrypt_if_configured sm0 raw = Inr plain" and "bc_snapshot_from_bytes B plain = Inr st"
  shows "r = Inr (sm0\<lparr>sm_shared_state := st, sm_state := st, sm_last_applied_log := meta_last_log_id meta,
                      sm_last_membership := meta_last_membership meta\<rparr>)"
proof -
  from persisted_snapshot_view [OF assms(2)] obtain mb where
    "bc_meta_serialize B meta = Inr mb" "v1 = Some mb" "v2 = Some raw"
    using get_view [OF assms(4)] get_view [OF assms(5)] by auto
  then show ?thesis
    using assms by (auto simp: hydrate_from_l3_def bincode_roundtrips_def)
qed

end

text \<open>
  A node that restarts from the store in which its last snapshot was persisted comes back with the
  state, the last applied entry and the membership of that snapshot, provided the two reads succeed.
\<close>

theorem restart_recovers_snapshot:
  fixes a :: "('m, 's, 'g) state_machine"
  assumes "l3_store L view" and "bincode_roundtrips B" and "sm_encryption_key a = None"
    and "build_snapshot L B a = (Inr (meta, raw), a')" and "sm_snapshot_store a = Some l3"
    and "sm_snapshot_store a' = Some l3'"
    and "l3_get L l3' snapshot_meta_key = Inr v1" and "l3_get L l3' snapshot_data_key = Inr v2"
  shows "\<exists>sm :: ('m, 's, 'g) state_machine. new_persistent L B m l3' = Inr sm \<and> sm_state sm = sm_state a \<and>
              sm_shared_state sm = sm_state a \<and> applied_state sm = applied_state a"
proof -
  obtain plain where plain: "bc_snapshot_to_bytes B (sm_state a) = Inr plain" "encrypt_if_configured a plain = Inr raw"
    and meta: "meta_last_log_id meta = sm_last_applied_log a" "meta_last_membership meta = sm_last_membership a"
    and persist: "persist_if_configured L B meta raw a = (Inr (), a')"
    using assms(4) by (rule build_snapshot_data)
  have "raw = plain" using plain(2) assms(3) by (simp add: encrypt_if_configured_def)
  then have "bc_snapshot_from_bytes B raw = Inr (sm_state a)"
    using assms(2) plain(1) by (simp add: bincode_roundtrips_def)
  moreover have "persist_snapshot_bytes L B l3 meta raw = (Inr (), l3')"
    using persist assms(5,6) by (auto simp: persist_if_configured_def split: sum.splits prod.splits)
  moreover have "decrypt_if_configured (sm_new m :: ('m, 's, 'g) state_machine) raw = Inr raw"
    by (simp add: decrypt_if_configured_def sm_new_def)
  ultimately have "hydrate_from_l3 L B l3' (sm_new m :: ('m, 's, 'g) state_machine) = Inr ((sm_new m)\<lparr>sm_shared_state := sm_state a,
      sm_state := sm_state a, sm_last_applied_log := meta_last_log_id meta,
      sm_last_membership := meta_last_membership meta\<rparr>)"
    using l3_store.hydrate_reads_snapshot [OF assms(1,2) _ refl assms(7,8)] by blast
  then show ?thesis by (simp add: new_persistent_def applied_state_def meta)
qed

section \<open>A concrete codec for snapshots\<close>

abbreviation "enc_ownership \<equiv> enc_via (\<lambda>ow. case ow of Owned n \<Rightarrow> (False, n, 0) | Transferring s d \<Rightarrow> (True, s, d))
  (enc_pair enc_bool (enc_pair enc_word enc_word))"
abbreviation "dec_ownership \<equiv> dec_via (\<lambda>(tr, s, d). if tr then Transferring s d else Owned s)
  (dec_pair dec_bool (dec_pair dec_word dec_word))"

lemma codec_ownership [codec_intros]: "byte_codec enc_ownership dec_ownership"
  by (rule codec_via) (intro codec_intros, simp split: partition_ownership.split)

definition enc_snapshot :: "cluster_snapshot \<Rightarrow> bytes" where
  "enc_snapshot =
     enc_via (\<lambda>s. (cs_partition_table s, cs_last_applied_log_index s, cs_last_applied_log_term s,
                  cs_source_anchor_offsets s, cs_poh_checkpoint s, cs_config_overrides s))
       (enc_pair (enc_list (enc_pair enc_partition enc_ownership)) (enc_pair enc_word (enc_pair enc_word
         (enc_pair (enc_list (enc_pair enc_partition enc_word)) (enc_pair (enc_option enc_bytes)
           (enc_list (enc_pair enc_string enc_string)))))))"

definition dec_snapshot :: "bytes \<Rightarrow> (cluster_snapshot \<times> bytes) option" where
  "dec_snapshot =
     dec_via (\<lambda>(t, i, tm, an, poh, cfg).
         \<lparr>cs_partition_table = t, cs_last_applied_log_index = i, cs_last_applied_log_term = tm,
          cs_source_anchor_offsets = an, cs_poh_checkpoint = poh, cs_config_overrides = cfg\<rparr>)
       (dec_pair (dec_list (dec_pair dec_partition dec_ownership)) (dec_pair dec_word (dec_pair dec_word
         (dec_pair (dec_list (dec_pair dec_partition dec_word)) (dec_pair (dec_option dec_bytes)
           (dec_list (dec_pair dec_string dec_string)))))))"

interpretation snapshot_codec: byte_codec enc_snapshot dec_snapshot
  unfolding enc_snapshot_def dec_snapshot_def by (rule codec_via) (intro codec_intros, simp)

abbreviation "enc_log_id \<equiv> enc_via (\<lambda>l. (li_term l, li_node l, li_index l)) (enc_pair enc_word (enc_pair enc_word enc_word))"
abbreviation "dec_log_id \<equiv> dec_via (\<lambda>(t, n, i). \<lparr>li_term = t, li_node = n, li_index = i\<rparr>)
  (dec_pair dec_word (dec_pair dec_word dec_word))"

lemma codec_log_id [codec_intros]: "byte_codec enc_log_id dec_log_id"
  by (rule codec_via) (intro codec_intros, simp)

definition enc_meta :: "unit snapshot_meta \<Rightarrow> bytes" where
  "enc_meta = enc_via (\<lambda>m. (meta_last_log_id m, fst (meta_last_membership m), meta_snapshot_id m))
     (enc_pair (enc_option enc_log_id) (enc_pair (enc_option enc_log_id) enc_string))"

definition dec_meta :: "bytes \<Rightarrow> (unit snapshot_meta \<times> bytes) option" where
  "dec_meta = dec_via (\<lambda>(l, ml, i). \<lparr>meta_last_log_id = l, meta_last_membership = (ml, ()), meta_snapshot_id = i\<rparr>)
     (dec_pair (dec_option dec_log_id) (dec_pair (dec_option dec_log_id) dec_string))"

interpretation meta_codec: byte_codec enc_meta dec_meta
  unfolding enc_meta_def dec_meta_def
  by (rule codec_via) (intro codec_intros, auto intro!: snapshot_meta.equality simp: prod_eq_iff)

definition byte_bincode :: "unit bincode" where
  "byte_bincode =
     \<lparr>bc_snapshot_to_bytes = (\<lambda>s. Inr (enc_snapshot s)), bc_snapshot_from_bytes = parse_all dec_snapshot,
      bc_meta_serialize = (\<lambda>m. Inr (enc_meta m)), bc_meta_deserialize = parse_all dec_meta\<rparr>"

lemma byte_bincode_roundtrips: "bincode_roundtrips byte_bincode"
  by (auto simp: bincode_roundtrips_def byte_bincode_def intro!: parse_all_enc
      snapshot_codec.byte_codec_axioms meta_codec.byte_codec_axioms)

definition sample_sm :: "(unit, tree_store, unit) state_machine" where
  "sample_sm = (sm_new ())\<lparr>sm_state := new_single_node 2 9, sm_snapshot_store := Some empty_store,
     sm_last_applied_log := Some \<lparr>li_term = 1, li_node = 9, li_index = 3\<rparr>\<rparr>"

lemma persist_total:
  "\<exists>s'. persist_snapshot_bytes (redb_ops tree_redb) byte_bincode s meta raw = (Inr (), s')"
proof -
  obtain s1 where "l3_write_batch (redb_ops tree_redb) s
      [(Put, snapshot_meta_key, Some (enc_meta meta)), (Put, snapshot_data_key, Some raw)] = (Inr (), s1)"
    using tree_write_batch_total by blast
  then show ?thesis
    by (simp add: persist_snapshot_bytes_def byte_bincode_def) (simp add: redb_ops_def redb_flush_def)
qed

lemma sample_build:
  "\<exists>meta raw a' l3'. build_snapshot (redb_ops tree_redb) byte_bincode sample_sm = (Inr (meta, raw), a') \<and>
     sm_snapshot_store a' = Some l3'"
proof -
  obtain l3' where "persist_snapshot_bytes (redb_ops tree_redb) byte_bincode empty_store
      \<lparr>meta_last_log_id = sm_last_applied_log sample_sm, meta_last_membership = sm_last_membership sample_sm,
       meta_snapshot_id = ''snap-'' @ show_nat (last_index_or_zero sample_sm) @ ''-'' @ show_nat (unat (sm_snapshot_idx sample_sm))\<rparr>
      (enc_snapshot (sm_state sample_sm)) = (Inr (), l3')"
    using persist_total by blast
  moreover have "sm_encryption_key sample_sm = None" "sm_snapshot_store sample_sm = Some empty_store"
    by (simp_all add: sample_sm_def sm_new_def)
  moreover have "bc_snapshot_to_bytes byte_bincode s = Inr (enc_snapshot s)" for s by (simp add: byte_bincode_def)
  ultimately show ?thesis
    by (simp add: build_snapshot_def persist_if_configured_def encrypt_if_configured_def Let_def)
qed


theorem restart_recovers_snapshot_witness:
  "\<exists>l3' (sm :: (unit, tree_store, unit) state_machine).
     new_persistent (redb_ops tree_redb) byte_bincode () l3' = Inr sm \<and> sm_state sm = sm_state sample_sm \<and>
     sm_shared_state sm = sm_state sample_sm \<and> applied_state sm = applied_state sample_sm"
proof -
  obtain meta raw a' l3' where "build_snapshot (redb_ops tree_redb) byte_bincode sample_sm = (Inr (meta, raw), a')"
    "sm_snapshot_store a' = Some l3'" using sample_build by blast
  moreover have "sm_encryption_key sample_sm = None" "sm_snapshot_store sample_sm = Some empty_store"
    by (simp_all add: sample_sm_def sm_new_def)
  moreover obtain v1 v2 where "l3_get (redb_ops tree_redb) l3' snapshot_meta_key = Inr v1"
    "l3_get (redb_ops tree_redb) l3' snapshot_data_key = Inr v2" using tree_ops_total(3) by blast
  ultimately show ?thesis
    using restart_recovers_snapshot [OF redb.l3_store_axioms byte_bincode_roundtrips] by blast
qed


end
