(* ===== verification/Raft_Log.thy ===== *)
theory Raft_Log
  imports Cluster_Store
begin

text \<open>
  Raft log storage: \<open>MemLogStore\<close> (\<open>aeon-cluster/src/store.rs\<close>) and \<open>L3RaftLogStore\<close>
  (\<open>aeon-cluster/src/log_store.rs\<close>).  \<open>'v\<close> is the vote type of \<open>openraft\<close>, \<open>'m\<close> its
  membership type; \<open>bincode\<close> is a parameter.  The result of an operation is an option: \<^term>\<open>None\<close>
  is a call that does not return normally, a panic or a task that waits for itself.
\<close>

datatype range_bound = Included u64 | Excluded u64 | Unbounded

fun lower_ok :: "range_bound \<Rightarrow> u64 \<Rightarrow> bool" where
  "lower_ok (Included s) i = (i \<ge> s)"
| "lower_ok (Excluded s) i = (i > s)"
| "lower_ok Unbounded i = True"

fun upper_ok :: "range_bound \<Rightarrow> u64 \<Rightarrow> bool" where
  "upper_ok (Included e) i = (i \<le> e)"
| "upper_ok (Excluded e) i = (i < e)"
| "upper_ok Unbounded i = True"

record log_state =
  lst_last_purged_log_id :: "log_id option"
  lst_last_log_id :: "log_id option"

definition or_else :: "'a option \<Rightarrow> 'a option \<Rightarrow> 'a option" where
  "or_else a b = (case a of None \<Rightarrow> b | Some x \<Rightarrow> Some x)"

section \<open>In-memory log\<close>

record ('v, 'm) mem_log =
  ml_vote :: "'v option"
  ml_log :: "(u64 \<times> 'm entry) list"
  ml_committed :: "log_id option"
  ml_last_purged :: "log_id option"

definition mem_log_new :: "('v, 'm) mem_log" where
  "mem_log_new = \<lparr>ml_vote = None, ml_log = [], ml_committed = None, ml_last_purged = None\<rparr>"

text \<open>\<open>BTreeMap::range\<close> panics when the range starts after its end or is empty between exclusions.\<close>

fun range_panics :: "range_bound \<Rightarrow> range_bound \<Rightarrow> bool" where
  "range_panics (Excluded s) (Excluded e) = (s \<ge> e)"
| "range_panics (Excluded s) (Included e) = (s > e)"
| "range_panics (Included s) (Excluded e) = (s > e)"
| "range_panics (Included s) (Included e) = (s > e)"
| "range_panics _ _ = False"

definition mem_try_get_log_entries :: "range_bound \<Rightarrow> range_bound \<Rightarrow> ('v, 'm) mem_log
    \<Rightarrow> (storage_error + 'm entry list) option" where
  "mem_try_get_log_entries lo hi s =
     (if range_panics lo hi then None
      else Some (Inr (map snd (bt_range (\<lambda>i. lower_ok lo i \<and> upper_ok hi i) (ml_log s)))))"

definition mem_get_log_state :: "('v, 'm) mem_log \<Rightarrow> log_state" where
  "mem_get_log_state s =
     (let last_log_id = (if ml_log s = [] then None else Some (fst (snd (last (ml_log s)))))
      in \<lparr>lst_last_purged_log_id = ml_last_purged s, lst_last_log_id = or_else last_log_id (ml_last_purged s)\<rparr>)"

definition mem_save_vote :: "'v \<Rightarrow> ('v, 'm) mem_log \<Rightarrow> ((storage_error + unit) \<times> ('v, 'm) mem_log) option" where
  "mem_save_vote v s = Some (Inr (), s\<lparr>ml_vote := Some v\<rparr>)"

definition mem_read_vote :: "('v, 'm) mem_log \<Rightarrow> 'v option" where
  "mem_read_vote s = ml_vote s"

definition mem_save_committed :: "log_id option \<Rightarrow> ('v, 'm) mem_log
    \<Rightarrow> ((storage_error + unit) \<times> ('v, 'm) mem_log) option" where
  "mem_save_committed c s = Some (Inr (), s\<lparr>ml_committed := c\<rparr>)"

definition mem_read_committed :: "('v, 'm) mem_log \<Rightarrow> log_id option" where
  "mem_read_committed s = ml_committed s"

definition mem_append :: "'m entry list \<Rightarrow> ('v, 'm) mem_log \<Rightarrow> ((storage_error + unit) \<times> ('v, 'm) mem_log) option" where
  "mem_append entries s =
     Some (Inr (), s\<lparr>ml_log := fold (\<lambda>e m. bt_insert (li_index (fst e)) e m) entries (ml_log s)\<rparr>)"

definition mem_truncate :: "log_id \<Rightarrow> ('v, 'm) mem_log \<Rightarrow> ((storage_error + unit) \<times> ('v, 'm) mem_log) option" where
  "mem_truncate lid s =
     (let keys_to_remove = map fst (bt_range (\<lambda>i. i \<ge> li_index lid) (ml_log s))
      in Some (Inr (), s\<lparr>ml_log := fold bt_remove keys_to_remove (ml_log s)\<rparr>))"

definition mem_purge :: "log_id \<Rightarrow> ('v, 'm) mem_log \<Rightarrow> ((storage_error + unit) \<times> ('v, 'm) mem_log) option" where
  "mem_purge lid s =
     (let keys_to_remove = map fst (bt_range (\<lambda>i. i \<le> li_index lid) (ml_log s))
      in Some (Inr (), s\<lparr>ml_log := fold bt_remove keys_to_remove (ml_log s), ml_last_purged := Some lid\<rparr>))"

section \<open>Persistent log\<close>

record ('v, 'm) log_codec =
  lc_vote_ser :: "'v \<Rightarrow> string + bytes"
  lc_vote_de :: "bytes \<Rightarrow> string + 'v"
  lc_id_ser :: "log_id \<Rightarrow> string + bytes"
  lc_id_de :: "bytes \<Rightarrow> string + log_id"
  lc_entry_ser :: "'m entry \<Rightarrow> string + bytes"
  lc_entry_de :: "bytes \<Rightarrow> string + 'm entry"

definition vote_key :: bytes where "vote_key = ascii ''raft/vote''"
definition committed_key :: bytes where "committed_key = ascii ''raft/committed''"
definition last_purged_key :: bytes where "last_purged_key = ascii ''raft/last_purged''"
definition log_prefix :: bytes where "log_prefix = ascii ''raft/log/''"

definition log_key :: "u64 \<Rightarrow> bytes" where
  "log_key index = log_prefix @ u64_to_be index"

definition log_index_from_key :: "bytes \<Rightarrow> u64 option" where
  "log_index_from_key key =
     (if length key \<noteq> length log_prefix + 8 \<or> \<not> starts_with key log_prefix then None
      else Some (u64_from_be (drop (length log_prefix) key)))"

record ('v, 's) l3_log =
  ll_l3 :: 's
  ll_vote :: "'v option"
  ll_committed :: "log_id option"
  ll_last_purged :: "log_id option"
  ll_last_log_id :: "log_id option"

definition storage_err :: "string \<Rightarrow> 'e + 'a \<Rightarrow> storage_error + 'a" where
  "storage_err what r = (case r of Inl _ \<Rightarrow> Inl (StorageError what) | Inr x \<Rightarrow> Inr x)"

lemma storage_err_Inr [simp]: "storage_err w r = Inr x \<longleftrightarrow> r = Inr x" "storage_err w (Inr y) = Inr y"
  by (simp_all add: storage_err_def split: sum.splits)

text \<open>Reading an optional marker.\<close>

definition read_marker :: "'s l3_ops \<Rightarrow> string \<Rightarrow> (bytes \<Rightarrow> string + 'a) \<Rightarrow> 's \<Rightarrow> bytes \<Rightarrow> storage_error + 'a option" where
  "read_marker L what de l3 key =
     (case storage_err what (l3_get L l3 key) of
        Inl e \<Rightarrow> Inl e
      | Inr None \<Rightarrow> Inr None
      | Inr (Some bs) \<Rightarrow> (case storage_err what (de bs) of Inl e \<Rightarrow> Inl e | Inr x \<Rightarrow> Inr (Some x)))"

text \<open>The id of the last entry in scan order.\<close>

definition scan_last :: "'s l3_ops \<Rightarrow> ('v, 'm) log_codec \<Rightarrow> 's \<Rightarrow> storage_error + log_id option" where
  "scan_last L C l3 =
     (case storage_err ''logs'' (l3_scan_prefix L l3 log_prefix) of
        Inl e \<Rightarrow> Inl e
      | Inr [] \<Rightarrow> Inr None
      | Inr kvs \<Rightarrow> (case storage_err ''logs'' (lc_entry_de C (snd (last kvs))) of
                     Inl e \<Rightarrow> Inl e | Inr entry \<Rightarrow> Inr (Some (fst entry))))"

definition l3_log_open :: "'s l3_ops \<Rightarrow> ('v, 'm) log_codec \<Rightarrow> 's \<Rightarrow> storage_error + ('v, 's) l3_log" where
  "l3_log_open L C l3 =
     rbind (read_marker L ''vote'' (lc_vote_de C) l3 vote_key) (\<lambda>vote.
     rbind (read_marker L ''store'' (lc_id_de C) l3 committed_key) (\<lambda>committed.
     rbind (read_marker L ''store'' (lc_id_de C) l3 last_purged_key) (\<lambda>last_purged.
     rbind (scan_last L C l3) (\<lambda>last_log_id.
       Inr \<lparr>ll_l3 = l3, ll_vote = vote, ll_committed = committed, ll_last_purged = last_purged,
            ll_last_log_id = last_log_id\<rparr>))))"

fun decode_range :: "('v, 'm) log_codec \<Rightarrow> range_bound \<Rightarrow> range_bound \<Rightarrow> kv_pairs \<Rightarrow> storage_error + 'm entry list" where
  "decode_range C lo hi [] = Inr []"
| "decode_range C lo hi ((k, v) # raw) =
     (case log_index_from_key k of
        None \<Rightarrow> decode_range C lo hi raw
      | Some idx \<Rightarrow>
          if \<not> (lower_ok lo idx \<and> upper_ok hi idx) then decode_range C lo hi raw
          else case storage_err ''logs'' (lc_entry_de C v) of
                 Inl e \<Rightarrow> Inl e
               | Inr entry \<Rightarrow> rbind (decode_range C lo hi raw) (\<lambda>out. Inr (entry # out)))"

definition l3_try_get_log_entries :: "'s l3_ops \<Rightarrow> ('v, 'm) log_codec \<Rightarrow> range_bound \<Rightarrow> range_bound
    \<Rightarrow> ('v, 's) l3_log \<Rightarrow> (storage_error + 'm entry list) option" where
  "l3_try_get_log_entries L C lo hi s =
     Some (rbind (storage_err ''logs'' (l3_scan_prefix L (ll_l3 s) log_prefix)) (decode_range C lo hi))"

definition l3_get_log_state :: "('v, 's) l3_log \<Rightarrow> log_state" where
  "l3_get_log_state s =
     \<lparr>lst_last_purged_log_id = ll_last_purged s, lst_last_log_id = or_else (ll_last_log_id s) (ll_last_purged s)\<rparr>"

definition l3_save_vote :: "'s l3_ops \<Rightarrow> ('v, 'm) log_codec \<Rightarrow> 'v \<Rightarrow> ('v, 's) l3_log
    \<Rightarrow> ((storage_error + unit) \<times> ('v, 's) l3_log) option" where
  "l3_save_vote L C v s =
     Some (case storage_err ''vote'' (lc_vote_ser C v) of
        Inl e \<Rightarrow> (Inl e, s)
      | Inr bs \<Rightarrow>
          (case l3_put L (ll_l3 s) vote_key bs of
             (Inl e, l3') \<Rightarrow> (Inl (StorageError ''vote''), s\<lparr>ll_l3 := l3'\<rparr>)
           | (Inr _, l3') \<Rightarrow> (Inr (), s\<lparr>ll_l3 := l3', ll_vote := Some v\<rparr>)))"

definition l3_read_vote :: "('v, 's) l3_log \<Rightarrow> 'v option" where
  "l3_read_vote s = ll_vote s"

definition l3_save_committed :: "'s l3_ops \<Rightarrow> ('v, 'm) log_codec \<Rightarrow> log_id option \<Rightarrow> ('v, 's) l3_log
    \<Rightarrow> ((storage_error + unit) \<times> ('v, 's) l3_log) option" where
  "l3_save_committed L C committed s =
     Some (case committed of
        Some c \<Rightarrow>
          (case storage_err ''store'' (lc_id_ser C c) of
             Inl e \<Rightarrow> (Inl e, s)
           | Inr bs \<Rightarrow>
               (case l3_put L (ll_l3 s) committed_key bs of
                  (Inl e, l3') \<Rightarrow> (Inl (StorageError ''store''), s\<lparr>ll_l3 := l3'\<rparr>)
                | (Inr _, l3') \<Rightarrow> (Inr (), s\<lparr>ll_l3 := l3', ll_committed := Some c\<rparr>)))
      | None \<Rightarrow>
          (case l3_delete L (ll_l3 s) committed_key of
             (Inl e, l3') \<Rightarrow> (Inl (StorageError ''store''), s\<lparr>ll_l3 := l3'\<rparr>)
           | (Inr _, l3') \<Rightarrow> (Inr (), s\<lparr>ll_l3 := l3', ll_committed := None\<rparr>)))"

definition l3_read_committed :: "('v, 's) l3_log \<Rightarrow> log_id option" where
  "l3_read_committed s = ll_committed s"

fun append_ops :: "('v, 'm) log_codec \<Rightarrow> 'm entry list \<Rightarrow> log_id option
    \<Rightarrow> storage_error + (batch_entry list \<times> log_id option)" where
  "append_ops C [] new_last = Inr ([], new_last)"
| "append_ops C (entry # entries) new_last =
     (case storage_err ''logs'' (lc_entry_ser C entry) of
        Inl e \<Rightarrow> Inl e
      | Inr v \<Rightarrow>
          let lid = fst entry;
              new_last' = Some (case new_last of
                                  Some prev \<Rightarrow> if li_index prev \<ge> li_index lid then prev else lid
                                | None \<Rightarrow> lid)
          in rbind (append_ops C entries new_last')
               (\<lambda>(ops, last). Inr ((Put, log_key (li_index lid), Some v) # ops, last)))"

definition l3_append :: "'s l3_ops \<Rightarrow> ('v, 'm) log_codec \<Rightarrow> 'm entry list \<Rightarrow> ('v, 's) l3_log
    \<Rightarrow> ((storage_error + unit) \<times> ('v, 's) l3_log) option" where
  "l3_append L C entries s =
     Some (case append_ops C entries (ll_last_log_id s) of
        Inl e \<Rightarrow> (Inl e, s)
      | Inr (ops, new_last) \<Rightarrow>
          if ops = [] then (Inr (), s)
          else case l3_write_batch L (ll_l3 s) ops of
                 (Inl e, l3') \<Rightarrow> (Inl (StorageError ''logs''), s\<lparr>ll_l3 := l3'\<rparr>)
               | (Inr _, l3') \<Rightarrow> (Inr (), s\<lparr>ll_l3 := l3', ll_last_log_id := new_last\<rparr>))"

definition delete_ops :: "(u64 \<Rightarrow> bool) \<Rightarrow> kv_pairs \<Rightarrow> batch_entry list" where
  "delete_ops P raw =
     concat (map (\<lambda>(k, v). case log_index_from_key k of
                             None \<Rightarrow> []
                           | Some idx \<Rightarrow> if P idx then [(Delete, k, None)] else []) raw)"

definition l3_truncate :: "'s l3_ops \<Rightarrow> ('v, 'm) log_codec \<Rightarrow> log_id \<Rightarrow> ('v, 's) l3_log
    \<Rightarrow> ((storage_error + unit) \<times> ('v, 's) l3_log) option" where
  "l3_truncate L C lid s =
     Some (case storage_err ''logs'' (l3_scan_prefix L (ll_l3 s) log_prefix) of
        Inl e \<Rightarrow> (Inl e, s)
      | Inr raw \<Rightarrow>
          let ops = delete_ops (\<lambda>idx. idx \<ge> li_index lid) raw;
              (r, l3') = (if ops = [] then (Inr (), ll_l3 s) else l3_write_batch L (ll_l3 s) ops)
          in case r of
               Inl e \<Rightarrow> (Inl (StorageError ''logs''), s\<lparr>ll_l3 := l3'\<rparr>)
             | Inr _ \<Rightarrow>
                 (case scan_last L C l3' of
                    Inl e \<Rightarrow> (Inl e, s\<lparr>ll_l3 := l3'\<rparr>)
                  | Inr new_last \<Rightarrow> (Inr (), s\<lparr>ll_l3 := l3', ll_last_log_id := new_last\<rparr>)))"

text \<open>
  The last statement of \<open>purge\<close> matches on \<open>*self.cache.last_log_id.read().await\<close> and takes the
  write lock of the same \<open>RwLock\<close> in its body.  The read guard is a temporary of the scrutinee and
  lives until the end of the \<open>if let\<close>, so the write lock is never granted: in that branch the call
  does not return.
\<close>

definition l3_purge :: "'s l3_ops \<Rightarrow> ('v, 'm) log_codec \<Rightarrow> log_id \<Rightarrow> ('v, 's) l3_log
    \<Rightarrow> ((storage_error + unit) \<times> ('v, 's) l3_log) option" where
  "l3_purge L C lid s =
     (case storage_err ''logs'' (l3_scan_prefix L (ll_l3 s) log_prefix) of
        Inl e \<Rightarrow> Some (Inl e, s)
      | Inr raw \<Rightarrow>
          (case storage_err ''store'' (lc_id_ser C lid) of
             Inl e \<Rightarrow> Some (Inl e, s)
           | Inr marker \<Rightarrow>
               (case l3_write_batch L (ll_l3 s)
                       (delete_ops (\<lambda>idx. idx \<le> li_index lid) raw @ [(Put, last_purged_key, Some marker)]) of
                  (Inl e, l3') \<Rightarrow> Some (Inl (StorageError ''logs''), s\<lparr>ll_l3 := l3'\<rparr>)
                | (Inr _, l3') \<Rightarrow>
                    let s' = s\<lparr>ll_l3 := l3', ll_last_purged := Some lid\<rparr>
                    in case ll_last_log_id s' of
                         Some current \<Rightarrow> if li_index current \<le> li_index lid then None else Some (Inr (), s')
                       | None \<Rightarrow> Some (Inr (), s'))))"

section \<open>Keys\<close>

lemma log_key_simps [simp]:
  "log_index_from_key (log_key i) = Some i" "starts_with (log_key i) log_prefix"
  "log_key i = log_key j \<longleftrightarrow> i = j" "log_key i < log_key j \<longleftrightarrow> i < j"
  by (simp_all add: log_index_from_key_def log_key_def append_less_same)

lemma log_index_from_key_Some:
  "log_index_from_key k = Some i \<longleftrightarrow> k = log_key i"
proof
  assume *: "log_index_from_key k = Some i"
  then obtain r where "k = log_prefix @ r" "length r = 8" "i = u64_from_be r"
    by (auto simp: log_index_from_key_def starts_with_conv split: if_splits)
  then show "k = log_key i" by (simp add: log_key_def to_be_from_be)
qed simp

lemma marker_keys:
  "\<not> starts_with vote_key log_prefix" "\<not> starts_with committed_key log_prefix" "\<not> starts_with last_purged_key log_prefix"
  "vote_key \<noteq> committed_key" "vote_key \<noteq> last_purged_key" "committed_key \<noteq> last_purged_key"
  by (simp_all add: vote_key_def committed_key_def last_purged_key_def log_prefix_def ascii_def)

lemma marker_not_log_key [simp]:
  "vote_key \<noteq> log_key i" "committed_key \<noteq> log_key i" "last_purged_key \<noteq> log_key i"
  "log_key i \<noteq> vote_key" "log_key i \<noteq> committed_key" "log_key i \<noteq> last_purged_key"
  using marker_keys(1-3) log_key_simps(2) by metis+

section \<open>The storage contract\<close>

text \<open>
  The methods of \<open>openraft\<close>'s \<open>RaftLogStorage\<close> trait that the cluster implements, as a record over
  a hidden state.
\<close>

record ('v, 'm, 's) log_ops =
  rl_entries :: "range_bound \<Rightarrow> range_bound \<Rightarrow> 's \<Rightarrow> (storage_error + 'm entry list) option"
  rl_state :: "'s \<Rightarrow> log_state"
  rl_save_vote :: "'v \<Rightarrow> 's \<Rightarrow> ((storage_error + unit) \<times> 's) option"
  rl_read_vote :: "'s \<Rightarrow> 'v option"
  rl_save_committed :: "log_id option \<Rightarrow> 's \<Rightarrow> ((storage_error + unit) \<times> 's) option"
  rl_read_committed :: "'s \<Rightarrow> log_id option"
  rl_append :: "'m entry list \<Rightarrow> 's \<Rightarrow> ((storage_error + unit) \<times> 's) option"
  rl_truncate :: "log_id \<Rightarrow> 's \<Rightarrow> ((storage_error + unit) \<times> 's) option"
  rl_purge :: "log_id \<Rightarrow> 's \<Rightarrow> ((storage_error + unit) \<times> 's) option"

definition mem_ops :: "('v, 'm, ('v, 'm) mem_log) log_ops" where
  "mem_ops =
     \<lparr>rl_entries = mem_try_get_log_entries, rl_state = mem_get_log_state, rl_save_vote = mem_save_vote,
      rl_read_vote = mem_read_vote, rl_save_committed = mem_save_committed,
      rl_read_committed = mem_read_committed, rl_append = mem_append, rl_truncate = mem_truncate,
      rl_purge = mem_purge\<rparr>"

definition l3_log_ops :: "'s l3_ops \<Rightarrow> ('v, 'm) log_codec \<Rightarrow> ('v, 'm, ('v, 's) l3_log) log_ops" where
  "l3_log_ops L C =
     \<lparr>rl_entries = l3_try_get_log_entries L C, rl_state = l3_get_log_state, rl_save_vote = l3_save_vote L C,
      rl_read_vote = l3_read_vote, rl_save_committed = l3_save_committed L C,
      rl_read_committed = l3_read_committed, rl_append = l3_append L C, rl_truncate = l3_truncate L C,
      rl_purge = l3_purge L C\<rparr>"

text \<open>The abstract log: a map from indexes to entries, and the three markers.\<close>

record ('v, 'm) log_spec =
  sp_log :: "u64 \<rightharpoonup> 'm entry"
  sp_vote :: "'v option"
  sp_committed :: "log_id option"
  sp_purged :: "log_id option"

datatype ('v, 'm) log_op =
    OpAppend "'m entry list" | OpTruncate log_id | OpPurge log_id | OpVote 'v | OpCommitted "log_id option"

fun spec_step :: "('v, 'm) log_op \<Rightarrow> ('v, 'm) log_spec \<Rightarrow> ('v, 'm) log_spec" where
  "spec_step (OpAppend es) a = a\<lparr>sp_log := fold (\<lambda>e m. m(li_index (fst e) \<mapsto> e)) es (sp_log a)\<rparr>"
| "spec_step (OpTruncate lid) a = a\<lparr>sp_log := sp_log a |` {i. i < li_index lid}\<rparr>"
| "spec_step (OpPurge lid) a = a\<lparr>sp_log := sp_log a |` {i. i > li_index lid}, sp_purged := Some lid\<rparr>"
| "spec_step (OpVote v) a = a\<lparr>sp_vote := Some v\<rparr>"
| "spec_step (OpCommitted c) a = a\<lparr>sp_committed := c\<rparr>"

definition spec_last :: "(u64 \<rightharpoonup> 'm entry) \<Rightarrow> log_id option" where
  "spec_last m = (if dom m = {} then None else Some (fst (the (m (Max (dom m))))))"

definition spec_state :: "('v, 'm) log_spec \<Rightarrow> log_state" where
  "spec_state a =
     \<lparr>lst_last_purged_log_id = sp_purged a, lst_last_log_id = or_else (spec_last (sp_log a)) (sp_purged a)\<rparr>"

definition spec_entries :: "range_bound \<Rightarrow> range_bound \<Rightarrow> (u64 \<rightharpoonup> 'm entry) \<Rightarrow> 'm entry list" where
  "spec_entries lo hi m =
     map (\<lambda>i. the (m i)) (filter (\<lambda>i. lower_ok lo i \<and> upper_ok hi i) (sorted_list_of_set (dom m)))"

text \<open>
  What \<open>openraft\<close> promises of its calls: entries are appended in index order after the last one;
  conflicting entries are truncated first.
\<close>

fun admissible :: "('v, 'm) log_op \<Rightarrow> ('v, 'm) log_spec \<Rightarrow> bool" where
  "admissible (OpAppend es) a \<longleftrightarrow>
     sorted_wrt (<) (map (\<lambda>e. li_index (fst e)) es) \<and> (\<forall>e \<in> set es. \<forall>i \<in> dom (sp_log a). i < li_index (fst e))"
| "admissible _ a \<longleftrightarrow> True"

fun log_step :: "('v, 'm, 's) log_ops \<Rightarrow> ('v, 'm) log_op \<Rightarrow> 's \<Rightarrow> ((storage_error + unit) \<times> 's) option" where
  "log_step T (OpAppend es) s = rl_append T es s"
| "log_step T (OpTruncate lid) s = rl_truncate T lid s"
| "log_step T (OpPurge lid) s = rl_purge T lid s"
| "log_step T (OpVote v) s = rl_save_vote T v s"
| "log_step T (OpCommitted c) s = rl_save_committed T c s"

fun log_run :: "('v, 'm, 's) log_ops \<Rightarrow> ('v, 'm) log_op list \<Rightarrow> 's \<Rightarrow> ((storage_error + unit) \<times> 's) option" where
  "log_run T [] s = Some (Inr (), s)"
| "log_run T (op # ops) s =
     (case log_step T op s of
        None \<Rightarrow> None
      | Some (Inl e, s') \<Rightarrow> Some (Inl e, s')
      | Some (Inr _, s') \<Rightarrow> log_run T ops s')"

fun all_admissible :: "('v, 'm) log_op list \<Rightarrow> ('v, 'm) log_spec \<Rightarrow> bool" where
  "all_admissible [] a \<longleftrightarrow> True"
| "all_admissible (op # ops) a \<longleftrightarrow> admissible op a \<and> all_admissible ops (spec_step op a)"

locale raft_log_storage =
  fixes T :: "('v, 'm, 's) log_ops" and inv :: "'s \<Rightarrow> bool" and abs :: "'s \<Rightarrow> ('v, 'm) log_spec"
  assumes step_refines: "inv s \<Longrightarrow> admissible op (abs s) \<Longrightarrow> log_step T op s = Some (Inr (), s') \<Longrightarrow>
      inv s' \<and> abs s' = spec_step op (abs s)"
    and state_spec: "inv s \<Longrightarrow> rl_state T s = spec_state (abs s)"
    and entries_spec: "inv s \<Longrightarrow> rl_entries T lo hi s = Some (Inr es) \<Longrightarrow> es = spec_entries lo hi (sp_log (abs s))"
    and vote_spec: "inv s \<Longrightarrow> rl_read_vote T s = sp_vote (abs s)"
    and committed_spec: "inv s \<Longrightarrow> rl_read_committed T s = sp_committed (abs s)"
begin

lemma run_refines:
  "inv s \<Longrightarrow> all_admissible ops (abs s) \<Longrightarrow> log_run T ops s = Some (Inr (), s') \<Longrightarrow>
     inv s' \<and> abs s' = fold spec_step ops (abs s)"
proof (induction ops arbitrary: s)
  case (Cons op ops)
  from Cons.prems(3) obtain s1 where s1: "log_step T op s = Some (Inr (), s1)" "log_run T ops s1 = Some (Inr (), s')"
    by (auto split: option.splits sum.splits)
  have "inv s1" "abs s1 = spec_step op (abs s)"
    using step_refines [OF Cons.prems(1) _ s1(1)] Cons.prems(2) by simp_all
  with Cons.IH [OF _ _ s1(2)] Cons.prems(2) show ?case by simp
qed simp

end

section \<open>The in-memory log meets the contract\<close>

definition mem_abs :: "('v, 'm) mem_log \<Rightarrow> ('v, 'm) log_spec" where
  "mem_abs s = \<lparr>sp_log = map_of (ml_log s), sp_vote = ml_vote s, sp_committed = ml_committed s, sp_purged = ml_last_purged s\<rparr>"

definition mem_inv :: "('v, 'm) mem_log \<Rightarrow> bool" where
  "mem_inv s \<longleftrightarrow> bt_invar (ml_log s)"

lemma bt_keys_sorted: "bt_invar m \<Longrightarrow> map fst m = sorted_list_of_set (dom (map_of m))"
proof -
  assume "bt_invar m"
  then have "sorted (map fst m)" "distinct (map fst m)" by (simp_all add: bt_invar_def strict_sorted_iff)
  then have "sorted_list_of_set (set (map fst m)) = map fst m" by (rule sorted_list_of_set.idem_if_sorted_distinct)
  moreover have "set (map fst m) = dom (map_of m)" by (simp add: dom_map_of_conv_image_fst)
  ultimately show ?thesis by simp
qed

lemma bt_values: "bt_invar m \<Longrightarrow> map snd m = map (\<lambda>i. the (map_of m i)) (map fst m)"
  using bt_distinct [of m] by (auto simp: map_of_is_SomeI)

lemma mem_log_fold_insert:
  "bt_invar m \<Longrightarrow> bt_invar (fold (\<lambda>e m. bt_insert (li_index (fst e)) e m) es m) \<and>
     map_of (fold (\<lambda>e m. bt_insert (li_index (fst e)) e m) es m) = fold (\<lambda>e m. m(li_index (fst e) \<mapsto> e)) es (map_of m)"
  by (induction es arbitrary: m) (simp_all add: bt_invar_insert bt_get_insert)

lemma bt_fold_remove_range:
  "bt_invar m \<Longrightarrow> bt_invar (fold bt_remove (map fst (bt_range P m)) m) \<and>
     map_of (fold bt_remove (map fst (bt_range P m)) m) = map_of m |` {i. \<not> P i}"
proof -
  assume i: "bt_invar m"
  have "set (map fst (bt_range P m)) = {i \<in> fst ` set m. P i}" by (auto simp: bt_range_def)
  then have "map_of m |` (- set (map fst (bt_range P m))) = map_of m |` {i. \<not> P i}"
    by (auto simp: restrict_map_def fun_eq_iff map_of_eq_None_iff)
  with i show ?thesis by (simp add: bt.invar_fold_remove bt.lookup_fold_remove)
qed

lemma bt_last_spec: "bt_invar m \<Longrightarrow> (if m = [] then None else Some (fst (snd (last m)))) = spec_last (map_of m)"
proof (cases "m = []")
  case False
  assume i: "bt_invar m"
  have l: "map_of m (fst (last m)) = Some (snd (last m))"
    using False bt_distinct [OF i] by (simp add: map_of_is_SomeI)
  have "Max (dom (map_of m)) = fst (last m)"
    using bt_last_max [OF i False] l by (intro Max_eqI) (auto simp: finite_dom_map_of)
  with False l show ?thesis by (auto simp: spec_last_def)
qed (simp add: spec_last_def)

lemmas mem_log_defs = mem_ops_def mem_append_def mem_truncate_def mem_purge_def mem_save_vote_def mem_save_committed_def
  mem_read_vote_def mem_read_committed_def mem_get_log_state_def mem_try_get_log_entries_def Let_def

lemma mem_step: "mem_inv s \<Longrightarrow> log_step mem_ops op s = Some (Inr (), s') \<Longrightarrow> mem_inv s' \<and> mem_abs s' = spec_step op (mem_abs s)"
  by (cases op) (auto simp: mem_log_defs mem_inv_def mem_abs_def mem_log_fold_insert bt_fold_remove_range not_le)

lemma mem_step_ok: "\<exists>s'. log_step mem_ops op s = Some (Inr (), s')"
  by (cases op) (simp_all add: mem_log_defs)

lemma mem_entries:
  assumes "mem_inv s" and "mem_try_get_log_entries lo hi s = Some (Inr es)"
  shows "es = spec_entries lo hi (map_of (ml_log s))"
proof -
  let ?P = "\<lambda>i. lower_ok lo i \<and> upper_ok hi i" and ?m = "ml_log s"
  have i: "bt_invar ?m" using assms(1) by (simp add: mem_inv_def)
  have es: "es = map snd (bt_range ?P ?m)" using assms(2) by (simp add: mem_try_get_log_entries_def split: if_splits)
  have "map fst (bt_range ?P ?m) = filter ?P (map fst ?m)"
    by (simp add: bt_range_def filter_map comp_def)
  moreover have "map_of (bt_range ?P ?m) k = map_of ?m k" if "?P k" for k
    using that by (simp add: bt_get_range restrict_map_def)
  ultimately show ?thesis
    unfolding es bt_values [OF bt_invar_range [OF i]] by (simp add: spec_entries_def bt_keys_sorted [OF i])
qed

interpretation mem_log: raft_log_storage "mem_ops :: ('v, 'm, ('v, 'm) mem_log) log_ops" mem_inv mem_abs
proof
  fix s :: "('v, 'm) mem_log"
  show "rl_state mem_ops s = spec_state (mem_abs s)" if "mem_inv s"
    using that by (simp add: mem_log_defs spec_state_def mem_abs_def mem_inv_def bt_last_spec)
next
  fix s :: "('v, 'm) mem_log" and lo hi es
  show "es = spec_entries lo hi (sp_log (mem_abs s))" if "mem_inv s" "rl_entries mem_ops lo hi s = Some (Inr es)"
    using mem_entries [OF that(1)] that(2) by (simp add: mem_ops_def mem_abs_def)
qed (use mem_step in \<open>auto simp: mem_log_defs mem_abs_def\<close>)

lemma mem_run_ok: "\<exists>s'. log_run mem_ops ops s = Some (Inr (), s')"
proof (induction ops arbitrary: s)
  case (Cons op ops)
  obtain s1 where "log_step mem_ops op s = Some (Inr (), s1)" using mem_step_ok by blast
  with Cons [of s1] show ?case by simp
qed simp

section \<open>The persistent log meets the contract\<close>

definition log_codec_roundtrips :: "('v, 'm) log_codec \<Rightarrow> bool" where
  "log_codec_roundtrips C \<longleftrightarrow>
     (\<forall>v bs. lc_vote_ser C v = Inr bs \<longrightarrow> lc_vote_de C bs = Inr v) \<and>
     (\<forall>i bs. lc_id_ser C i = Inr bs \<longrightarrow> lc_id_de C bs = Inr i) \<and>
     (\<forall>e bs. lc_entry_ser C e = Inr bs \<longrightarrow> lc_entry_de C bs = Inr e)"

definition stored_log :: "('v, 'm) log_codec \<Rightarrow> (bytes \<rightharpoonup> bytes) \<Rightarrow> (u64 \<rightharpoonup> 'm entry)" where
  "stored_log C m i =
     (case m (log_key i) of
        None \<Rightarrow> None
      | Some v \<Rightarrow> (case lc_entry_de C v of Inl _ \<Rightarrow> None | Inr e \<Rightarrow> Some e))"

definition stored_ok :: "('v, 'm) log_codec \<Rightarrow> (bytes \<rightharpoonup> bytes) \<Rightarrow> bool" where
  "stored_ok C m \<longleftrightarrow>
     (\<forall>k v. m k = Some v \<longrightarrow> starts_with k log_prefix \<longrightarrow>
        (\<exists>e. k = log_key (li_index (fst e)) \<and> lc_entry_de C v = Inr e))"

definition marker_matches :: "(bytes \<Rightarrow> string + 'a) \<Rightarrow> bytes option \<Rightarrow> 'a option \<Rightarrow> bool" where
  "marker_matches de stored cached \<longleftrightarrow>
     (case cached of None \<Rightarrow> stored = None | Some x \<Rightarrow> \<exists>bs. stored = Some bs \<and> de bs = Inr x)"

lemma marker_matches_simps [simp]:
  "marker_matches de stored None \<longleftrightarrow> stored = None"
  "marker_matches de (Some bs) (Some x) \<longleftrightarrow> de bs = Inr x"
  by (simp_all add: marker_matches_def)

definition l3_log_abs :: "('v, 'm) log_codec \<Rightarrow> ('s \<Rightarrow> (bytes \<rightharpoonup> bytes)) \<Rightarrow> ('v, 's) l3_log \<Rightarrow> ('v, 'm) log_spec" where
  "l3_log_abs C view s =
     \<lparr>sp_log = stored_log C (view (ll_l3 s)), sp_vote = ll_vote s, sp_committed = ll_committed s,
      sp_purged = ll_last_purged s\<rparr>"

definition l3_log_inv :: "('v, 'm) log_codec \<Rightarrow> ('s \<Rightarrow> (bytes \<rightharpoonup> bytes)) \<Rightarrow> ('v, 's) l3_log \<Rightarrow> bool" where
  "l3_log_inv C view s \<longleftrightarrow>
     stored_ok C (view (ll_l3 s)) \<and>
     marker_matches (lc_vote_de C) (view (ll_l3 s) vote_key) (ll_vote s) \<and>
     marker_matches (lc_id_de C) (view (ll_l3 s) committed_key) (ll_committed s) \<and>
     marker_matches (lc_id_de C) (view (ll_l3 s) last_purged_key) (ll_last_purged s) \<and>
     ll_last_log_id s = spec_last (stored_log C (view (ll_l3 s)))"

lemma stored_logD:
  "stored_ok C m \<Longrightarrow> stored_log C m i = Some e \<Longrightarrow> li_index (fst e) = i \<and> (\<exists>v. m (log_key i) = Some v \<and> lc_entry_de C v = Inr e)"
  by (fastforce simp: stored_ok_def stored_log_def split: option.splits sum.splits)

lemma stored_log_dom: "stored_ok C m \<Longrightarrow> m (log_key i) = Some v \<Longrightarrow> \<exists>e. stored_log C m i = Some e \<and> lc_entry_de C v = Inr e"
  by (fastforce simp: stored_ok_def stored_log_def)

lemma stored_ok_put: "stored_ok C m \<Longrightarrow> lc_entry_de C v = Inr e \<Longrightarrow> stored_ok C (m(log_key (li_index (fst e)) \<mapsto> v))"
  unfolding stored_ok_def by (metis fun_upd_apply option.inject)

lemma stored_log_put: "lc_entry_de C v = Inr e \<Longrightarrow> stored_log C (m(log_key i \<mapsto> v)) = (stored_log C m)(i \<mapsto> e)"
  by (auto simp: stored_log_def fun_eq_iff)

lemma stored_marker [simp]:
  assumes "\<not> starts_with k log_prefix"
  shows "stored_log C (m(k := x)) = stored_log C m" "stored_ok C (m(k := x)) = stored_ok C m"
proof -
  have "k \<noteq> log_key i" for i using assms log_key_simps(2) by metis
  then show "stored_log C (m(k := x)) = stored_log C m" by (auto simp: stored_log_def fun_eq_iff)
  show "stored_ok C (m(k := x)) = stored_ok C m" using assms by (auto simp: stored_ok_def)
qed

lemma scan_stored:
  assumes "l3_store L view" and "stored_ok C (view l3)" and "l3_scan_prefix L l3 log_prefix = Inr kvs"
  shows "kvs = map (\<lambda>i. (log_key i, the (view l3 (log_key i)))) (sorted_list_of_set (dom (stored_log C (view l3))))"
proof -
  have "\<exists>i. k = log_prefix @ u64_to_be i" if "view l3 k = Some v" "starts_with k log_prefix" for k v
    using assms(2) that unfolding stored_ok_def log_key_def by blast
  then have "kvs = map (\<lambda>i. (log_key i, the (view l3 (log_key i)))) (sorted_list_of_set {i. view l3 (log_key i) \<noteq> None})"
    unfolding log_key_def by (rule scan_indexed [OF l3_store.scan_view [OF assms(1,3)]])
  moreover have "i \<in> dom (stored_log C (view l3)) \<longleftrightarrow> view l3 (log_key i) \<noteq> None" for i
    using stored_logD [OF assms(2)] stored_log_dom [OF assms(2), of i] by fastforce
  then have "dom (stored_log C (view l3)) = {i. view l3 (log_key i) \<noteq> None}" by blast
  ultimately show ?thesis by simp
qed

lemma decode_range_map:
  "(\<And>i. i \<in> set idxs \<Longrightarrow> lc_entry_de C (f i) = Inr (g i)) \<Longrightarrow>
     decode_range C lo hi (map (\<lambda>i. (log_key i, f i)) idxs) = Inr (map g (filter (\<lambda>i. lower_ok lo i \<and> upper_ok hi i) idxs))"
  by (induction idxs) auto

lemma delete_ops_map:
  "delete_ops P (map (\<lambda>i. (log_key i, f i)) idxs) = map (\<lambda>k. (Delete, k, None)) (map log_key (filter P idxs))"
  by (induction idxs) (auto simp: delete_ops_def)

lemma decode_stored:
  assumes "stored_ok C m" and "i \<in> dom (stored_log C m)"
  shows "lc_entry_de C (the (m (log_key i))) = Inr (the (stored_log C m i))"
  using assms stored_logD by fastforce

lemma scan_last_spec:
  assumes "l3_store L view" and ok: "stored_ok C (view l3)" and "scan_last L C l3 = Inr r"
  shows "r = spec_last (stored_log C (view l3))"
proof -
  let ?m = "stored_log C (view l3)"
  obtain kvs where kvs: "l3_scan_prefix L l3 log_prefix = Inr kvs"
    using assms(3) by (auto simp: scan_last_def split: sum.splits list.splits)
  note eq = scan_stored [OF assms(1) ok kvs]
  show ?thesis
  proof (cases "dom ?m = {}")
    case True
    then show ?thesis using assms(3) kvs eq by (simp add: scan_last_def spec_last_def)
  next
    case False
    then have ne: "sorted_list_of_set (dom ?m) \<noteq> []" by simp
    then have "last (sorted_list_of_set (dom ?m)) = Max (dom ?m)"
      using last_sorted_Max [of "sorted_list_of_set (dom ?m)"] by simp
    then have "snd (last kvs) = the (view l3 (log_key (Max (dom ?m))))" "kvs \<noteq> []"
      using ne by (simp_all add: eq last_map)
    moreover have "lc_entry_de C (the (view l3 (log_key (Max (dom ?m))))) = Inr (the (?m (Max (dom ?m))))"
      using decode_stored [OF ok] False by simp
    ultimately show ?thesis
      using assms(3) kvs False by (auto simp: scan_last_def spec_last_def split: list.splits)
  qed
qed

lemma spec_last_extend:
  assumes "\<forall>j \<in> dom m. j < i"
  shows "spec_last (m(i \<mapsto> e)) = Some (fst e)"
proof -
  have "Max (insert i (dom m)) = i" using assms by (intro Max_eqI) (auto intro: less_imp_le)
  then show ?thesis by (simp add: spec_last_def)
qed

lemma spec_last_index:
  assumes "stored_ok C m" and "spec_last (stored_log C m) = Some prev"
  shows "li_index prev \<in> dom (stored_log C m)"
proof -
  have ne: "dom (stored_log C m) \<noteq> {}" and p: "prev = fst (the (stored_log C m (Max (dom (stored_log C m)))))"
    using assms(2) by (auto simp: spec_last_def split: if_splits)
  have "Max (dom (stored_log C m)) \<in> dom (stored_log C m)" using ne by simp
  then show ?thesis using stored_logD [OF assms(1)] p by fastforce
qed

lemma append_ops_effect:
  assumes "log_codec_roundtrips C" and "append_ops C es prev0 = Inr (ops, last1)"
    and "stored_ok C m" and "prev0 = spec_last (stored_log C m)"
    and "sorted_wrt (<) (map (\<lambda>e. li_index (fst e)) es)"
    and "\<forall>e \<in> set es. \<forall>i \<in> dom (stored_log C m). i < li_index (fst e)"
  shows "stored_ok C (fold batch_effect ops m) \<and>
    stored_log C (fold batch_effect ops m) = fold (\<lambda>e m. m(li_index (fst e) \<mapsto> e)) es (stored_log C m) \<and>
    last1 = spec_last (stored_log C (fold batch_effect ops m)) \<and>
    (\<forall>k. \<not> starts_with k log_prefix \<longrightarrow> fold batch_effect ops m k = m k)"
  using assms(2-6)
proof (induction es arbitrary: prev0 ops m)
  case (Cons e es)
  obtain v ops1 where v: "lc_entry_ser C e = Inr v"
    and ops: "ops = (Put, log_key (li_index (fst e)), Some v) # ops1"
    and rest: "append_ops C es (Some (case prev0 of Some prev \<Rightarrow> if li_index prev \<ge> li_index (fst e) then prev else fst e
                                       | None \<Rightarrow> fst e)) = Inr (ops1, last1)"
    using Cons.prems(1) by (auto simp: Let_def rbind_Inr_conv split: sum.splits)
  let ?i = "li_index (fst e)" and ?m = "m(log_key (li_index (fst e)) \<mapsto> v)"
  have de: "lc_entry_de C v = Inr e" using assms(1) v unfolding log_codec_roundtrips_def by blast
  have log: "stored_log C ?m = (stored_log C m)(?i \<mapsto> e)" by (rule stored_log_put [OF de])
  have "\<forall>prev. prev0 = Some prev \<longrightarrow> \<not> li_index prev \<ge> ?i"
    using spec_last_index [OF Cons.prems(2)] Cons.prems(3,5) by (auto simp: not_le)
  then have run: "append_ops C es (Some (fst e)) = Inr (ops1, last1)"
    using rest by (simp split: option.splits)
  have last: "Some (fst e) = spec_last (stored_log C ?m)"
    unfolding log using Cons.prems(5) by (intro spec_last_extend [symmetric]) auto
  have above: "\<forall>e' \<in> set es. \<forall>i \<in> dom (stored_log C ?m). i < li_index (fst e')"
    using Cons.prems(4,5) by (auto simp: log)
  have "sorted_wrt (<) (map (\<lambda>e. li_index (fst e)) es)" using Cons.prems(4) by simp
  note ih = Cons.IH [OF run stored_ok_put [OF Cons.prems(2) de] last this above]
  have f: "fold batch_effect ops m = fold batch_effect ops1 ?m" by (simp add: ops)
  have "fold batch_effect ops1 ?m k = m k" if "\<not> starts_with k log_prefix" for k
  proof -
    have "k \<noteq> log_key ?i" using that by auto
    then show ?thesis using ih [THEN conjunct2, THEN conjunct2, THEN conjunct2, rule_format, OF that] by simp
  qed
  then have "\<forall>k. \<not> starts_with k log_prefix \<longrightarrow> fold batch_effect ops1 ?m k = m k" by blast
  then show ?case using ih by (simp only: f log List.fold_simps)
qed simp

lemma delete_scanned:
  assumes "l3_store L view" and "stored_ok C (view l3)" and "l3_scan_prefix L l3 log_prefix = Inr raw"
  shows "fold batch_effect (delete_ops P raw) (view l3) =
     (\<lambda>k. if \<exists>i \<in> dom (stored_log C (view l3)). P i \<and> k = log_key i then None else view l3 k)"
  unfolding scan_stored [OF assms] delete_ops_map fold_batch_deletes by (auto simp: fun_eq_iff)

lemma deleted_stored:
  assumes "stored_ok C m" and "m' = (\<lambda>k. if \<exists>i \<in> dom (stored_log C m). P i \<and> k = log_key i then None else m k)"
  shows "stored_ok C m'" and "stored_log C m' = stored_log C m |` {i. \<not> P i}"
    and "\<not> starts_with k log_prefix \<Longrightarrow> m' k = m k"
proof -
  show "stored_ok C m'" using assms(1) unfolding stored_ok_def assms(2) by (simp split: if_splits)
  show "stored_log C m' = stored_log C m |` {i. \<not> P i}"
  proof
    fix i
    show "stored_log C m' i = (stored_log C m |` {i. \<not> P i}) i"
    proof (cases "P i")
      case True
      then have "m' (log_key i) = None \<or> stored_log C m i = None" by (auto simp: assms(2))
      then show ?thesis using True by (auto simp: stored_log_def assms(2) restrict_map_def split: option.splits)
    next
      case False
      then have "m' (log_key i) = m (log_key i)" by (simp add: assms(2))
      with False show ?thesis by (simp add: stored_log_def)
    qed
  qed
  show "m' k = m k" if "\<not> starts_with k log_prefix" using that by (auto simp: assms(2))
qed

lemma l3_append_refines:
  assumes "l3_store L view" "log_codec_roundtrips C" "l3_log_inv C view s"
    and "admissible (OpAppend es) (l3_log_abs C view s)" and "l3_append L C es s = Some (Inr (), s')"
  shows "l3_log_inv C view s' \<and> l3_log_abs C view s' = spec_step (OpAppend es) (l3_log_abs C view s)"
proof -
  let ?m = "view (ll_l3 s)"
  obtain ops new_last where ops: "append_ops C es (ll_last_log_id s) = Inr (ops, new_last)"
    using assms(5) by (auto simp: l3_append_def split: sum.splits)
  have eff: "stored_ok C (fold batch_effect ops ?m)"
    "stored_log C (fold batch_effect ops ?m) = fold (\<lambda>e m. m(li_index (fst e) \<mapsto> e)) es (stored_log C ?m)"
    "new_last = spec_last (stored_log C (fold batch_effect ops ?m))"
    "\<forall>k. \<not> starts_with k log_prefix \<longrightarrow> fold batch_effect ops ?m k = ?m k"
    using append_ops_effect [OF assms(2) ops, of ?m] assms(3,4) by (simp_all add: l3_log_inv_def l3_log_abs_def)
  show ?thesis
  proof (cases "ops = []")
    case True
    then have "s' = s" using assms(5) ops by (simp add: l3_append_def)
    then show ?thesis using eff True assms(3) by (simp add: l3_log_abs_def)
  next
    case False
    then obtain l3' where l3': "l3_write_batch L (ll_l3 s) ops = (Inr (), l3')"
      and s': "s' = s\<lparr>ll_l3 := l3', ll_last_log_id := new_last\<rparr>"
      using assms(5) ops by (auto simp: l3_append_def split: prod.splits sum.splits)
    have "view l3' = fold batch_effect ops ?m" using l3_store.batch_view [OF assms(1) l3'] .
    then show ?thesis using eff assms(3) marker_keys(1-3) by (simp add: s' l3_log_inv_def l3_log_abs_def)
  qed
qed

lemma l3_truncate_refines:
  assumes "l3_store L view" "l3_log_inv C view s" and "l3_truncate L C lid s = Some (Inr (), s')"
  shows "l3_log_inv C view s' \<and> l3_log_abs C view s' = spec_step (OpTruncate lid) (l3_log_abs C view s)"
proof -
  let ?m = "view (ll_l3 s)"
  have ok: "stored_ok C ?m" using assms(2) by (simp add: l3_log_inv_def)
  obtain raw where raw: "l3_scan_prefix L (ll_l3 s) log_prefix = Inr raw"
    using assms(3) by (auto simp: l3_truncate_def split: sum.splits)
  let ?ops = "delete_ops (\<lambda>idx. idx \<ge> li_index lid) raw"
  obtain l3' new_last where w: "(if ?ops = [] then (Inr (), ll_l3 s) else l3_write_batch L (ll_l3 s) ?ops) = (Inr (), l3')"
    and scan: "scan_last L C l3' = Inr new_last" and s': "s' = s\<lparr>ll_l3 := l3', ll_last_log_id := new_last\<rparr>"
    using assms(3) raw by (auto simp: l3_truncate_def Let_def split: sum.splits prod.splits)
  have "view l3' = fold batch_effect ?ops ?m"
    using w l3_store.batch_view [OF assms(1), of "ll_l3 s" ?ops l3'] by (simp split: if_splits)
  note deleted = deleted_stored [OF ok this [unfolded delete_scanned [OF assms(1) ok raw]]]
  have "new_last = spec_last (stored_log C (view l3'))" by (rule scan_last_spec [OF assms(1) deleted(1) scan])
  then show ?thesis
    using deleted assms(2) marker_keys(1-3) by (simp add: s' l3_log_inv_def l3_log_abs_def not_le)
qed

lemma spec_last_above:
  assumes "spec_last m = Some current" and "\<And>i e. m i = Some e \<Longrightarrow> li_index (fst e) = i" and "b < li_index current"
  shows "spec_last (m |` {i. b < i}) = Some current"
proof -
  let ?M = "Max (dom m)"
  have ne: "dom m \<noteq> {}" and cur: "current = fst (the (m ?M))"
    using assms(1) by (auto simp: spec_last_def split: if_splits)
  have in_dom: "?M \<in> dom m" using ne by simp
  then have above: "b < ?M" using assms(2,3) cur by fastforce
  have "Max (dom m \<inter> {i. b < i}) = ?M" using in_dom above by (intro Max_eqI) auto
  moreover have "dom m \<inter> {i. b < i} \<noteq> {}" using in_dom above by blast
  ultimately show ?thesis using above cur by (simp add: spec_last_def)
qed

lemma l3_purge_refines:
  assumes "l3_store L view" "log_codec_roundtrips C" "l3_log_inv C view s" and "l3_purge L C lid s = Some (Inr (), s')"
  shows "l3_log_inv C view s' \<and> l3_log_abs C view s' = spec_step (OpPurge lid) (l3_log_abs C view s)"
proof -
  let ?m = "view (ll_l3 s)"
  have ok: "stored_ok C ?m" and last: "ll_last_log_id s = spec_last (stored_log C ?m)"
    using assms(3) by (simp_all add: l3_log_inv_def)
  obtain raw marker l3' where raw: "l3_scan_prefix L (ll_l3 s) log_prefix = Inr raw"
    and marker: "lc_id_ser C lid = Inr marker"
    and w: "l3_write_batch L (ll_l3 s) (delete_ops (\<lambda>idx. idx \<le> li_index lid) raw @ [(Put, last_purged_key, Some marker)])
              = (Inr (), l3')"
    and s': "s' = s\<lparr>ll_l3 := l3', ll_last_purged := Some lid\<rparr>"
    and above: "\<And>current. ll_last_log_id s = Some current \<Longrightarrow> li_index lid < li_index current"
    using assms(4) by (auto simp: l3_purge_def Let_def not_le split: sum.splits prod.splits option.splits if_splits)
  let ?d = "fold batch_effect (delete_ops (\<lambda>idx. idx \<le> li_index lid) raw) ?m"
  have v: "view l3' = ?d(last_purged_key \<mapsto> marker)" using l3_store.batch_view [OF assms(1) w] by simp
  note deleted = deleted_stored [OF ok delete_scanned [OF assms(1) ok raw]]
  have "lc_id_de C marker = Inr lid" using assms(2) marker by (simp add: log_codec_roundtrips_def)
  moreover have "spec_last (stored_log C ?m |` {i. li_index lid < i}) = spec_last (stored_log C ?m)"
  proof (cases "spec_last (stored_log C ?m)")
    case None
    then have "dom (stored_log C ?m) = {}" by (simp add: spec_last_def split: if_splits)
    then show ?thesis by (simp add: spec_last_def)
  next
    case (Some current)
    then show ?thesis using spec_last_above stored_logD [OF ok] above last by metis
  qed
  ultimately show ?thesis
    using deleted assms(3) marker_keys last by (simp add: s' v l3_log_inv_def l3_log_abs_def not_le)
qed

lemma l3_markers_refine:
  assumes "l3_store L view" "log_codec_roundtrips C" "l3_log_inv C view s"
  shows "l3_save_vote L C x s = Some (Inr (), s') \<Longrightarrow>
      l3_log_inv C view s' \<and> l3_log_abs C view s' = spec_step (OpVote x) (l3_log_abs C view s)"
    and "l3_save_committed L C c s = Some (Inr (), s') \<Longrightarrow>
      l3_log_inv C view s' \<and> l3_log_abs C view s' = spec_step (OpCommitted c) (l3_log_abs C view s)"
  using assms(2,3) marker_keys
  by (auto simp: l3_save_vote_def l3_save_committed_def l3_log_inv_def l3_log_abs_def log_codec_roundtrips_def
      split: sum.splits prod.splits option.splits dest!: l3_store.put_view [OF assms(1)] l3_store.delete_view [OF assms(1)])

lemma l3_entries:
  assumes "l3_store L view" and "l3_log_inv C view s" and "l3_try_get_log_entries L C lo hi s = Some (Inr es)"
  shows "es = spec_entries lo hi (stored_log C (view (ll_l3 s)))"
proof -
  have ok: "stored_ok C (view (ll_l3 s))" using assms(2) by (simp add: l3_log_inv_def)
  obtain raw where raw: "l3_scan_prefix L (ll_l3 s) log_prefix = Inr raw" and es: "decode_range C lo hi raw = Inr es"
    using assms(3) by (auto simp: l3_try_get_log_entries_def rbind_Inr_conv)
  show ?thesis
    using decode_range_map [where C = C and f = "\<lambda>i. the (view (ll_l3 s) (log_key i))"
        and g = "\<lambda>i. the (stored_log C (view (ll_l3 s)) i)"
        and idxs = "sorted_list_of_set (dom (stored_log C (view (ll_l3 s))))" and lo = lo and hi = hi]
      decode_stored [OF ok] es
    unfolding scan_stored [OF assms(1) ok raw] spec_entries_def by simp
qed

lemma l3_log_storage:
  assumes "l3_store L view" and "log_codec_roundtrips C"
  shows "raft_log_storage (l3_log_ops L C) (l3_log_inv C view) (l3_log_abs C view)"
proof
  fix s s' op
  assume i: "l3_log_inv C view s" and adm: "admissible op (l3_log_abs C view s)"
    and step: "log_step (l3_log_ops L C) op s = Some (Inr (), s')"
  show "l3_log_inv C view s' \<and> l3_log_abs C view s' = spec_step op (l3_log_abs C view s)"
  proof (cases op)
    case (OpAppend es)
    show ?thesis using adm step unfolding OpAppend l3_log_ops_def
      by (intro l3_append_refines [OF assms i]) simp_all
  next
    case (OpTruncate lid)
    show ?thesis using step unfolding OpTruncate l3_log_ops_def
      by (intro l3_truncate_refines [OF assms(1) i]) simp
  next
    case (OpPurge lid)
    show ?thesis using step unfolding OpPurge l3_log_ops_def
      by (intro l3_purge_refines [OF assms i]) simp
  next
    case (OpVote v)
    show ?thesis using step unfolding OpVote l3_log_ops_def
      by (intro l3_markers_refine(1) [OF assms i]) simp
  next
    case (OpCommitted c)
    show ?thesis using step unfolding OpCommitted l3_log_ops_def
      by (intro l3_markers_refine(2) [OF assms i]) simp
  qed
next
  fix s lo hi es
  assume "l3_log_inv C view s" "rl_entries (l3_log_ops L C) lo hi s = Some (Inr es)"
  then show "es = spec_entries lo hi (sp_log (l3_log_abs C view s))"
    using l3_entries [OF assms(1)] by (simp add: l3_log_ops_def l3_log_abs_def)
qed (simp_all add: l3_log_ops_def l3_get_log_state_def spec_state_def l3_log_abs_def l3_log_inv_def
    l3_read_vote_def l3_read_committed_def)

section \<open>A concrete codec\<close>

definition request_parts :: "cluster_request \<Rightarrow> nat \<times> u16 \<times> u64 \<times> u64 \<times> string \<times> string \<times> (u16 \<times> i64) list \<times> u64 list \<times> bytes" where
  "request_parts r =
     (case r of
        AssignPartition p n \<Rightarrow> (0, as_u16 p, n, 0, [], [], [], [], [])
      | BeginTransfer p a b \<Rightarrow> (1, as_u16 p, a, b, [], [], [], [], [])
      | CompleteTransfer p n \<Rightarrow> (2, as_u16 p, n, 0, [], [], [], [], [])
      | AbortTransfer p n \<Rightarrow> (3, as_u16 p, n, 0, [], [], [], [], [])
      | UpdateConfig k v \<Rightarrow> (4, 0, 0, 0, k, v, [], [], [])
      | SubmitCheckpoint os \<Rightarrow> (5, 0, 0, 0, [], [], os, [], [])
      | RebalancePartitions ns \<Rightarrow> (6, 0, 0, 0, [], [], [], ns, [])
      | InitialAssignment k ns \<Rightarrow> (7, k, 0, 0, [], [], [], ns, [])
      | Registry bs \<Rightarrow> (8, 0, 0, 0, [], [], [], [], bs))"

fun request_of_parts :: "nat \<times> u16 \<times> u64 \<times> u64 \<times> string \<times> string \<times> (u16 \<times> i64) list \<times> u64 list \<times> bytes \<Rightarrow> cluster_request" where
  "request_of_parts (t, p, a, b, k, v, os, ns, bs) =
     (if t = 0 then AssignPartition (PartitionId p) a
      else if t = 1 then BeginTransfer (PartitionId p) a b
      else if t = 2 then CompleteTransfer (PartitionId p) a
      else if t = 3 then AbortTransfer (PartitionId p) a
      else if t = 4 then UpdateConfig k v
      else if t = 5 then SubmitCheckpoint os
      else if t = 6 then RebalancePartitions ns
      else if t = 7 then InitialAssignment p ns
      else Registry bs)"

lemma request_parts_inverse: "request_of_parts (request_parts r) = r"
  by (cases r) (simp_all add: request_parts_def)

definition enc_request :: "cluster_request \<Rightarrow> bytes" where
  "enc_request = enc_via request_parts
     (enc_pair enc_nat (enc_pair enc_word (enc_pair enc_word (enc_pair enc_word (enc_pair enc_string (enc_pair enc_string
       (enc_pair (enc_list (enc_pair enc_word enc_word)) (enc_pair (enc_list enc_word) enc_bytes))))))))"

definition dec_request :: "bytes \<Rightarrow> (cluster_request \<times> bytes) option" where
  "dec_request = dec_via request_of_parts
     (dec_pair dec_nat (dec_pair dec_word (dec_pair dec_word (dec_pair dec_word (dec_pair dec_string (dec_pair dec_string
       (dec_pair (dec_list (dec_pair dec_word dec_word)) (dec_pair (dec_list dec_word) dec_bytes))))))))"

interpretation request_codec: byte_codec enc_request dec_request
  unfolding enc_request_def dec_request_def
  by (rule codec_via) (intro codec_intros nat_codec.byte_codec_axioms, rule request_parts_inverse)

definition payload_parts :: "unit entry_payload \<Rightarrow> bool \<times> cluster_request option" where
  "payload_parts p = (case p of Blank \<Rightarrow> (False, None) | Normal r \<Rightarrow> (False, Some r) | Membership u \<Rightarrow> (True, None))"

fun payload_of_parts :: "bool \<times> cluster_request option \<Rightarrow> unit entry_payload" where
  "payload_of_parts (True, _) = Membership ()"
| "payload_of_parts (False, None) = Blank"
| "payload_of_parts (False, Some r) = Normal r"

lemma payload_parts_inverse: "payload_of_parts (payload_parts p) = p"
  by (cases p) (simp_all add: payload_parts_def)

definition enc_entry :: "unit entry \<Rightarrow> bytes" where
  "enc_entry = enc_pair enc_log_id (enc_via payload_parts (enc_pair enc_bool (enc_option enc_request)))"

definition dec_entry :: "bytes \<Rightarrow> (unit entry \<times> bytes) option" where
  "dec_entry = dec_pair dec_log_id (dec_via payload_of_parts (dec_pair dec_bool (dec_option dec_request)))"

interpretation entry_codec: byte_codec enc_entry dec_entry
  unfolding enc_entry_def dec_entry_def
  by (intro codec_pair codec_log_id codec_via codec_bool codec_option request_codec.byte_codec_axioms payload_parts_inverse)

definition byte_log_codec :: "(u64, unit) log_codec" where
  "byte_log_codec =
     \<lparr>lc_vote_ser = (\<lambda>v. Inr (enc_word v)), lc_vote_de = parse_all dec_word,
      lc_id_ser = (\<lambda>i. Inr (enc_log_id i)), lc_id_de = parse_all dec_log_id,
      lc_entry_ser = (\<lambda>e. Inr (enc_entry e)), lc_entry_de = parse_all dec_entry\<rparr>"

lemma byte_log_codec_roundtrips: "log_codec_roundtrips byte_log_codec"
  unfolding log_codec_roundtrips_def byte_log_codec_def
  by (auto intro!: parse_all_enc codec_word codec_log_id entry_codec.byte_codec_axioms)

interpretation tree_log: raft_log_storage "l3_log_ops (redb_ops tree_redb) byte_log_codec"
  "l3_log_inv byte_log_codec (\<lambda>s. RBT.lookup (rs_db s))" "l3_log_abs byte_log_codec (\<lambda>s. RBT.lookup (rs_db s))"
  by (rule l3_log_storage [OF redb.l3_store_axioms byte_log_codec_roundtrips])

section \<open>Properties\<close>

definition spec_empty :: "('v, 'm) log_spec" where
  "spec_empty = \<lparr>sp_log = Map.empty, sp_vote = None, sp_committed = None, sp_purged = None\<rparr>"

lemma l3_log_open_empty:
  assumes "l3_store L view" and "view l3 = Map.empty" and "l3_log_open L C l3 = Inr s"
  shows "l3_log_inv C view s" and "l3_log_abs C view s = spec_empty"
proof -
  have st: "stored_ok C (view l3)" "stored_log C (view l3) = Map.empty"
    by (simp_all add: assms(2) stored_ok_def stored_log_def fun_eq_iff)
  have none: "r = None" if "read_marker L w de l3 k = Inr r" for w and de :: "bytes \<Rightarrow> string + 'x" and k r
    using that assms(2) by (auto simp: read_marker_def split: sum.splits option.splits dest!: l3_store.get_view [OF assms(1)])
  obtain v c p last where "read_marker L ''vote'' (lc_vote_de C) l3 vote_key = Inr v"
    "read_marker L ''store'' (lc_id_de C) l3 committed_key = Inr c"
    "read_marker L ''store'' (lc_id_de C) l3 last_purged_key = Inr p"
    and l: "scan_last L C l3 = Inr last"
    and s: "s = \<lparr>ll_l3 = l3, ll_vote = v, ll_committed = c, ll_last_purged = p, ll_last_log_id = last\<rparr>"
    using assms(3) by (auto simp: l3_log_open_def rbind_Inr_conv)
  then have "v = None" "c = None" "p = None" using none by blast+
  then show "l3_log_inv C view s" "l3_log_abs C view s = spec_empty"
    using scan_last_spec [OF assms(1) st(1) l] st by (simp_all add: s l3_log_inv_def l3_log_abs_def spec_empty_def assms(2))
qed

lemma mem_log_new_spec: "mem_inv mem_log_new" "mem_abs mem_log_new = spec_empty"
  by (simp_all add: mem_log_new_def mem_inv_def mem_abs_def spec_empty_def bt_invar_def)

lemma read_marker_matches:
  assumes "l3_store L view" and "marker_matches de (view l3 k) cached" and "l3_get L l3 k = Inr ov"
  shows "read_marker L w de l3 k = Inr cached"
  using assms(2,3) l3_store.get_view [OF assms(1,3)]
  by (cases cached) (auto simp: read_marker_def marker_matches_def)

lemma scan_last_ok:
  assumes "l3_store L view" and "stored_ok C (view l3)" and "l3_scan_prefix L l3 log_prefix = Inr kvs"
  shows "scan_last L C l3 = Inr (spec_last (stored_log C (view l3)))"
proof -
  have "\<exists>r. scan_last L C l3 = Inr r"
  proof (cases kvs rule: rev_cases)
    case (snoc kvs' kv)
    then have "kv \<in> set kvs" by simp
    then obtain i where "i \<in> dom (stored_log C (view l3))" "snd kv = the (view l3 (log_key i))"
      unfolding scan_stored [OF assms] by fastforce
    then have "lc_entry_de C (snd (last kvs)) = Inr (the (stored_log C (view l3) i))"
      using snoc decode_stored [OF assms(2)] by simp
    moreover have "kvs \<noteq> []" using snoc by simp
    ultimately show ?thesis using assms(3) by (cases kvs) (simp_all add: scan_last_def)
  qed (use assms(3) in \<open>simp add: scan_last_def\<close>)
  then show ?thesis using scan_last_spec [OF assms(1,2)] by blast
qed

text \<open>
  C4: the persistent Raft log behaves like the in-memory one.  Started empty and driven by the same
  calls, with entries appended in index order, a run of \<open>L3RaftLogStore\<close> that completes leaves the
  same log state, vote and commit marker as \<open>MemLogStore\<close>, and every range read of the two agrees.
\<close>

theorem persistent_log_matches_memory:
  assumes "l3_store L view" and "log_codec_roundtrips C" and "view l3 = Map.empty"
    and "l3_log_open L C l3 = Inr s" and "all_admissible ops spec_empty"
    and "log_run (l3_log_ops L C) ops s = Some (Inr (), s')"
  shows "\<exists>m'. log_run mem_ops ops mem_log_new = Some (Inr (), m') \<and>
    l3_get_log_state s' = mem_get_log_state m' \<and> l3_read_vote s' = mem_read_vote m' \<and>
    l3_read_committed s' = mem_read_committed m' \<and>
    (\<forall>lo hi es es'. l3_try_get_log_entries L C lo hi s' = Some (Inr es) \<longrightarrow>
       mem_try_get_log_entries lo hi m' = Some (Inr es') \<longrightarrow> es = es')"
proof -
  note T = l3_log_storage [OF assms(1,2)] and init = l3_log_open_empty [OF assms(1,3,4)]
  obtain m' where m': "log_run mem_ops ops mem_log_new = Some (Inr (), m')" using mem_run_ok by blast
  have l: "l3_log_inv C view s'" "l3_log_abs C view s' = fold spec_step ops spec_empty"
    using raft_log_storage.run_refines [OF T init(1) _ assms(6)] assms(5) init(2) by simp_all
  have m: "mem_inv m'" "mem_abs m' = fold spec_step ops spec_empty"
    using mem_log.run_refines [OF mem_log_new_spec(1) _ m'] assms(5) by (simp_all add: mem_log_new_spec)
  have "es = es'" if "l3_try_get_log_entries L C lo hi s' = Some (Inr es)"
    "mem_try_get_log_entries lo hi m' = Some (Inr es')" for lo hi es es'
    using raft_log_storage.entries_spec [OF T l(1), of lo hi es] mem_log.entries_spec [OF m(1), of lo hi es'] that l(2) m(2)
    by (simp add: l3_log_ops_def mem_ops_def)
  moreover have "l3_get_log_state s' = mem_get_log_state m'" "l3_read_vote s' = mem_read_vote m'"
    "l3_read_committed s' = mem_read_committed m'"
    using raft_log_storage.state_spec [OF T l(1)] mem_log.state_spec [OF m(1)] raft_log_storage.vote_spec [OF T l(1)]
      mem_log.vote_spec [OF m(1)] raft_log_storage.committed_spec [OF T l(1)] mem_log.committed_spec [OF m(1)] l(2) m(2)
    by (simp_all add: l3_log_ops_def mem_ops_def)
  ultimately show ?thesis using m' by blast
qed

definition sample_log_entry :: "u64 \<Rightarrow> unit entry" where
  "sample_log_entry i = (\<lparr>li_term = 1, li_node = 9, li_index = i\<rparr>, Normal (UpdateConfig ''k'' ''v''))"

lemma sample_log_run:
  "\<exists>s s'. l3_log_open (redb_ops tree_redb) byte_log_codec empty_store = Inr s \<and>
     log_run (l3_log_ops (redb_ops tree_redb) byte_log_codec)
       [OpVote 7, OpAppend [sample_log_entry 1, sample_log_entry 2]] s = Some (Inr (), s') \<and>
     ll_last_log_id s' = Some (fst (sample_log_entry 2))"
proof -
  have empty: "RBT.lookup (rs_db empty_store) = Map.empty" by (simp add: empty_store_def)
  obtain a b c kvs where reads: "l3_get (redb_ops tree_redb) empty_store vote_key = Inr a"
    "l3_get (redb_ops tree_redb) empty_store committed_key = Inr b"
    "l3_get (redb_ops tree_redb) empty_store last_purged_key = Inr c"
    and scan: "l3_scan_prefix (redb_ops tree_redb) empty_store log_prefix = Inr kvs"
    using tree_ops_total(3) tree_scan_total by meson
  have none: "a = None" "b = None" "c = None" using reads [THEN redb.get_view] empty by simp_all
  have "kvs = []" using redb.scan_view [OF scan] by (simp add: ascending_entries_def empty)
  then obtain s where s: "l3_log_open (redb_ops tree_redb) byte_log_codec empty_store = Inr s"
    and last: "ll_last_log_id s = None"
    using reads scan none by (simp add: l3_log_open_def read_marker_def scan_last_def)
  obtain l1 where "l3_put (redb_ops tree_redb) (ll_l3 s) vote_key (enc_word (7 :: u64)) = (Inr (), l1)"
    using tree_ops_total(1) by blast
  moreover have "\<not> (2 :: u64) \<le> 1" by code_simp
  then obtain ops where ops: "append_ops byte_log_codec [sample_log_entry 1, sample_log_entry 2] None
      = Inr (ops, Some (fst (sample_log_entry 2)))" "ops \<noteq> []"
    by (simp add: byte_log_codec_def sample_log_entry_def Let_def)
  moreover note ops
  moreover obtain l2 where "l3_write_batch (redb_ops tree_redb) l1 ops = (Inr (), l2)"
    using tree_write_batch_total by blast
  ultimately show ?thesis
    using s last by (simp add: l3_log_ops_def l3_save_vote_def l3_append_def byte_log_codec_def del: append_ops.simps)
qed

theorem persistent_log_matches_memory_witness:
  "\<exists>s s' m'. l3_log_open (redb_ops tree_redb) byte_log_codec empty_store = Inr s \<and>
     log_run (l3_log_ops (redb_ops tree_redb) byte_log_codec)
       [OpVote 7, OpAppend [sample_log_entry 1, sample_log_entry 2]] s = Some (Inr (), s') \<and>
     log_run mem_ops [OpVote (7 :: u64), OpAppend [sample_log_entry 1, sample_log_entry 2]] mem_log_new = Some (Inr (), m') \<and>
     l3_get_log_state s' = mem_get_log_state m'"
proof -
  obtain s s' where run: "l3_log_open (redb_ops tree_redb) byte_log_codec empty_store = Inr s"
    "log_run (l3_log_ops (redb_ops tree_redb) byte_log_codec)
       [OpVote 7, OpAppend [sample_log_entry 1, sample_log_entry 2]] s = Some (Inr (), s')"
    using sample_log_run by blast
  have "all_admissible [OpVote 7, OpAppend [sample_log_entry 1, sample_log_entry 2]] spec_empty"
    by (simp add: spec_empty_def sample_log_entry_def)
  from persistent_log_matches_memory [OF redb.l3_store_axioms byte_log_codec_roundtrips _ run(1) this run(2)] run
  show ?thesis by (auto simp: empty_store_def)
qed

text \<open>
  C16: restart recovery.  After any completed run from an empty store, opening the store again
  reconstructs the handle exactly, the cached vote, commit marker, purge marker and last log id
  included, provided the store can be read.
\<close>

theorem log_survives_restart:
  assumes "l3_store L view" and "log_codec_roundtrips C" and "view l3 = Map.empty"
    and "l3_log_open L C l3 = Inr s" and "all_admissible ops spec_empty"
    and "log_run (l3_log_ops L C) ops s = Some (Inr (), s')"
    and "\<forall>k. \<exists>v. l3_get L (ll_l3 s') k = Inr v" and "l3_scan_prefix L (ll_l3 s') log_prefix = Inr kvs"
  shows "l3_log_open L C (ll_l3 s') = Inr s'"
proof -
  note T = l3_log_storage [OF assms(1,2)] and init = l3_log_open_empty [OF assms(1,3,4)]
  have i: "l3_log_inv C view s'"
    using raft_log_storage.run_refines [OF T init(1) _ assms(6)] assms(5) init(2) by simp
  have "read_marker L ''vote'' (lc_vote_de C) (ll_l3 s') vote_key = Inr (ll_vote s')"
    "read_marker L ''store'' (lc_id_de C) (ll_l3 s') committed_key = Inr (ll_committed s')"
    "read_marker L ''store'' (lc_id_de C) (ll_l3 s') last_purged_key = Inr (ll_last_purged s')"
    using i assms(7) read_marker_matches [OF assms(1)] unfolding l3_log_inv_def by meson+
  moreover have "scan_last L C (ll_l3 s') = Inr (ll_last_log_id s')"
    using scan_last_ok [OF assms(1) _ assms(8), of C] i by (simp add: l3_log_inv_def)
  ultimately show ?thesis by (simp add: l3_log_open_def)
qed

theorem log_survives_restart_witness:
  "\<exists>s s'. l3_log_open (redb_ops tree_redb) byte_log_codec empty_store = Inr s \<and>
     log_run (l3_log_ops (redb_ops tree_redb) byte_log_codec)
       [OpVote 7, OpAppend [sample_log_entry 1, sample_log_entry 2]] s = Some (Inr (), s') \<and>
     l3_log_open (redb_ops tree_redb) byte_log_codec (ll_l3 s') = Inr s'"
proof -
  obtain s s' where run: "l3_log_open (redb_ops tree_redb) byte_log_codec empty_store = Inr s"
    "log_run (l3_log_ops (redb_ops tree_redb) byte_log_codec)
       [OpVote 7, OpAppend [sample_log_entry 1, sample_log_entry 2]] s = Some (Inr (), s')"
    using sample_log_run by blast
  have "all_admissible [OpVote 7, OpAppend [sample_log_entry 1, sample_log_entry 2]] spec_empty"
    by (simp add: spec_empty_def sample_log_entry_def)
  moreover obtain kvs where "l3_scan_prefix (redb_ops tree_redb) (ll_l3 s') log_prefix = Inr kvs"
    using tree_scan_total by blast
  moreover have "\<forall>k. \<exists>v. l3_get (redb_ops tree_redb) (ll_l3 s') k = Inr v" using tree_ops_total(3) by blast
  ultimately show ?thesis
    using log_survives_restart [OF redb.l3_store_axioms byte_log_codec_roundtrips _ run(1) _ run(2)] run
    by (auto simp: empty_store_def)
qed



end
