(* ===== verification/Rebalance_Plan.thy ===== *)
theory Rebalance_Plan
  imports Partition_Manager
begin

text \<open>
  \<open>aeon-cluster/src/rebalance.rs\<close>: the operator-facing planners.  Keys are distinct, so the
  unstable sorts have one result.  \<open>BTreeMap\<close> is a sorted association list.
\<close>

section \<open>Drain\<close>

definition plan_drain :: "partition_table \<Rightarrow> node_id \<Rightarrow> node_id list \<Rightarrow> (partition_id \<times> node_id) list" where
  "plan_drain t target_node live_members =
     (let targets = sort (filter (\<lambda>n. n \<noteq> target_node) live_members)
      in if targets = [] then []
         else
           let owned = sort (map fst (filter (\<lambda>(p, ow). case ow of
                          Transferring _ _ \<Rightarrow> False | Owned n \<Rightarrow> n = target_node) t))
           in map (\<lambda>(i, p). (p, targets ! (i mod length targets))) (enumerate 0 owned))"

section \<open>Rebalance\<close>

definition push_owned :: "partition_id \<times> partition_ownership \<Rightarrow> (node_id \<times> partition_id list) list
    \<Rightarrow> (node_id \<times> partition_id list) list" where
  "push_owned e owned_by =
     (case e of (pid, Owned n) \<Rightarrow> map (\<lambda>(m, bucket). (m, if m = n then bucket @ [pid] else bucket)) owned_by
      | _ \<Rightarrow> owned_by)"

definition owned_buckets :: "partition_table \<Rightarrow> node_id list \<Rightarrow> (node_id \<times> partition_id list) list" where
  "owned_buckets t members =
     map (\<lambda>(n, v). (n, sort v))
       (fold push_owned t (fold (\<lambda>n m. bt_insert n [] m) members []))"

text \<open>\<open>min_by\<close> with \<open>a.1.cmp(&b.1).reverse().then(a.0.cmp(&b.0))\<close>: most slots, then lowest id.\<close>

definition prefers :: "node_id \<times> nat \<Rightarrow> node_id \<times> nat \<Rightarrow> bool" where
  "prefers a b \<longleftrightarrow> snd a > snd b \<or> snd a = snd b \<and> fst a \<le> fst b"

definition pick_target :: "node_id \<Rightarrow> (node_id \<times> nat) list \<Rightarrow> node_id option" where
  "pick_target owner deficit =
     (case filter (\<lambda>(n, slots). n \<noteq> owner \<and> slots > 0) deficit of
        [] \<Rightarrow> None
      | c # cs \<Rightarrow> Some (fst (foldl (\<lambda>a b. if prefers a b then a else b) c cs)))"

definition use_slot :: "node_id \<Rightarrow> (node_id \<times> nat) list \<Rightarrow> (node_id \<times> nat) list" where
  "use_slot target = map (\<lambda>(n, slots). (n, if n = target then slots - 1 else slots))"

fun peel_bucket :: "node_id \<Rightarrow> partition_id list \<Rightarrow> (node_id \<times> nat) list \<Rightarrow> (partition_id \<times> node_id) list
    \<Rightarrow> (node_id \<times> nat) list \<times> (partition_id \<times> node_id) list" where
  "peel_bucket owner [] deficit plan = (deficit, plan)"
| "peel_bucket owner (pid # pids) deficit plan =
     (case pick_target owner deficit of
        None \<Rightarrow> (deficit, plan)
      | Some target \<Rightarrow> peel_bucket owner pids (use_slot target deficit) (plan @ [(pid, target)]))"

definition peel_owner :: "(node_id \<times> partition_id list) list \<Rightarrow> nat \<Rightarrow> node_id
    \<Rightarrow> (node_id \<times> nat) list \<times> (partition_id \<times> node_id) list
    \<Rightarrow> (node_id \<times> nat) list \<times> (partition_id \<times> node_id) list" where
  "peel_owner owned_by ceiling owner st =
     (let bucket = (case bt_get owned_by owner of Some b \<Rightarrow> b | None \<Rightarrow> []);
          surplus = length bucket - ceiling
      in if surplus = 0 then st
         else peel_bucket owner (take surplus bucket) (fst st) (snd st))"

definition div_ceil :: "nat \<Rightarrow> nat \<Rightarrow> nat" where
  "div_ceil a b = (if a mod b > 0 then a div b + 1 else a div b)"

definition plan_rebalance :: "partition_table \<Rightarrow> node_id list \<Rightarrow> (partition_id \<times> node_id) list" where
  "plan_rebalance t live_members =
     (let members = remdups_adj (sort live_members)
      in if members = [] then []
         else
           let owned_by = owned_buckets t members;
               total_balanced = sum_list (map (\<lambda>(n, v). length v) owned_by);
               ceiling = div_ceil total_balanced (length members);
               deficit = map (\<lambda>n. (n, ceiling - (case bt_get owned_by n of Some v \<Rightarrow> length v | None \<Rightarrow> 0))) members
           in sort_key fst (snd (fold (peel_owner owned_by ceiling) members (deficit, []))))"

text \<open>The table once every planned transfer has completed.\<close>

definition execute_plan :: "partition_table \<Rightarrow> (partition_id \<times> node_id) list \<Rightarrow> partition_table" where
  "execute_plan t plan = fold (\<lambda>(p, to) t. complete_transfer t p to) plan t"

definition owned_by_node :: "partition_table \<Rightarrow> node_id \<Rightarrow> partition_id list" where
  "owned_by_node t n = map fst (filter (\<lambda>(p, ow). ow = Owned n) t)"

section \<open>Drain is complete\<close>

lemma drain_owned_set:
  "hm_invar t \<Longrightarrow> p \<in> set (map fst (filter (\<lambda>(p, ow). case ow of Transferring _ _ \<Rightarrow> False | Owned n \<Rightarrow> n = v) t))
     \<longleftrightarrow> table_get t p = Some (Owned v)"
  by (force simp: table_get_def split: partition_ownership.splits)

text \<open>
  When another member is live, the drain plan of a node lists, in ascending order and each once,
  exactly the partitions the node owns outright, and every target is a live member other than the
  node itself.
\<close>

theorem plan_drain_complete:
  assumes "hm_invar t" and "n \<in> set live" and "n \<noteq> victim"
  shows "set (map fst (plan_drain t victim live)) = {p. table_get t p = Some (Owned victim)} \<and>
         sorted (map fst (plan_drain t victim live)) \<and> distinct (map fst (plan_drain t victim live)) \<and>
         (\<forall>(p, to) \<in> set (plan_drain t victim live). to \<in> set live \<and> to \<noteq> victim)"
proof -
  let ?ts = "sort (filter (\<lambda>n. n \<noteq> victim) live)"
  let ?ps = "sort (map fst (filter (\<lambda>(p, ow). case ow of Transferring _ _ \<Rightarrow> False | Owned n \<Rightarrow> n = victim) t))"
  have "n \<in> set ?ts" using assms by simp
  then have ne: "?ts \<noteq> []" by force
  then have plan: "plan_drain t victim live = map (\<lambda>(i, p). (p, ?ts ! (i mod length ?ts))) (enumerate 0 ?ps)"
    by (simp add: plan_drain_def Let_def)
  then have "map fst (plan_drain t victim live) = ?ps"
    by (simp add: comp_def case_prod_unfold)
  moreover have "?ts ! (i mod length ?ts) \<in> set ?ts" for i
    by (intro nth_mem mod_less_divisor) (unfold length_greater_0_conv, rule ne)
  then have "\<forall>(p, to) \<in> set (plan_drain t victim live). to \<in> set live \<and> to \<noteq> victim"
    by (auto simp: plan)
  moreover have "distinct ?ps" using assms(1) by (simp add: distinct_map_filter)
  moreover have "set ?ps = {p. table_get t p = Some (Owned victim)}"
    using drain_owned_set [OF assms(1)] by auto
  ultimately show ?thesis by simp
qed

theorem plan_drain_complete_witness:
  "set (map fst (plan_drain sample_table 1 [1, 2, 3])) = {p. table_get sample_table p = Some (Owned 1)}"
  using plan_drain_complete [of sample_table 2 "[1, 2, 3]" 1] by (simp add: sample_table_def)

section \<open>The rebalance plan respects the ceiling\<close>

lemma bt_insert_greatest: "\<forall>x \<in> fst ` set m. x < k \<Longrightarrow> bt_insert k v m = m @ [(k, v)]"
  by (induction m) auto

lemma fold_bt_insert_sorted:
  "sorted_wrt (<) (map fst m @ ns) \<Longrightarrow> fold (\<lambda>n m. bt_insert n v m) ns m = m @ map (\<lambda>n. (n, v)) ns"
  by (induction ns arbitrary: m) (auto simp: bt_insert_greatest sorted_wrt_append)

lemma fold_push_owned:
  "fold push_owned t (map (\<lambda>n. (n, b n)) ms) = map (\<lambda>n. (n, b n @ owned_by_node t n)) ms"
proof (induction t arbitrary: b)
  case Nil
  then show ?case by (simp add: owned_by_node_def)
next
  case (Cons e t)
  obtain p ow where e: "e = (p, ow)" by force
  have "push_owned e (map (\<lambda>n. (n, b n)) ms) = map (\<lambda>n. (n, b n @ (if ow = Owned n then [p] else []))) ms"
    by (auto simp: e push_owned_def split: partition_ownership.splits)
  then show ?case
    using Cons [of "\<lambda>n. b n @ (if ow = Owned n then [p] else [])"] by (auto simp: e owned_by_node_def)
qed

lemma owned_buckets_alt:
  assumes "sorted_wrt (<) ms"
  shows "owned_buckets t ms = map (\<lambda>n. (n, sort (owned_by_node t n))) ms"
proof -
  have "fold (\<lambda>n m. bt_insert n ([] :: partition_id list) m) ms [] = map (\<lambda>n. (n, [])) ms"
    using fold_bt_insert_sorted [of "[]" ms] assms by simp
  then show ?thesis
    using fold_push_owned [of t "\<lambda>_. []" ms] by (simp add: owned_buckets_def)
qed

text \<open>The deficit list is a function on the members.\<close>

definition deficits :: "(node_id \<Rightarrow> nat) \<Rightarrow> node_id list \<Rightarrow> (node_id \<times> nat) list" where
  "deficits d ms = map (\<lambda>n. (n, d n)) ms"

lemma foldl_choice_mem: "foldl (\<lambda>a b. if prefers a b then a else b) c cs \<in> set (c # cs)"
proof (induction cs arbitrary: c)
  case (Cons b cs)
  have "foldl (\<lambda>a b. if prefers a b then a else b) c (b # cs) \<in> set ((if prefers c b then c else b) # cs)"
    using Cons by simp
  then show ?case by (simp split: if_splits) blast
qed simp

lemma pick_target_sound:
  "pick_target owner (deficits d ms) = Some target \<Longrightarrow> target \<in> set ms \<and> target \<noteq> owner \<and> d target > 0"
proof -
  assume pick: "pick_target owner (deficits d ms) = Some target"
  let ?F = "filter (\<lambda>(n, slots). n \<noteq> owner \<and> slots > 0) (deficits d ms)"
  let ?best = "foldl (\<lambda>a b. if prefers a b then a else b)"
  obtain c cs where F: "?F = c # cs" and target: "target = fst (?best c cs)"
    using pick by (auto simp: pick_target_def split: list.splits)
  have "?best c cs \<in> set ?F" unfolding F by (rule foldl_choice_mem)
  then have "target \<in> fst ` set ?F" unfolding target by (rule imageI)
  then show ?thesis by (auto simp: deficits_def)
qed

lemma pick_target_complete:
  "n \<in> set ms \<Longrightarrow> n \<noteq> owner \<Longrightarrow> d n > 0 \<Longrightarrow> \<exists>target. pick_target owner (deficits d ms) = Some target"
  by (force simp: pick_target_def deficits_def filter_empty_conv split: list.splits)

lemma use_slot_deficits: "use_slot k (deficits d ms) = deficits (d(k := d k - 1)) ms"
  by (auto simp: use_slot_def deficits_def)

lemma sum_take_one:
  assumes "finite M" and "k \<in> M" and "d k > 0"
  shows "sum (d(k := d k - 1)) M + 1 = (sum d M :: nat)"
proof -
  have "sum (d(k := d k - 1)) M = (d k - 1) + sum (d(k := d k - 1)) (M - {k})"
    using sum.remove [OF assms(1,2), of "d(k := d k - 1)"] by simp
  also have "sum (d(k := d k - 1)) (M - {k}) = sum d (M - {k})"
    by (rule sum.cong) auto
  finally show ?thesis using sum.remove [OF assms(1,2), of d] assms(3) by simp
qed

lemma peel_bucket_spec:
  assumes "d owner = 0" and "length pids \<le> sum d (set ms)"
  shows "\<exists>tgts d'. length tgts = length pids \<and> set tgts \<subseteq> set ms - {owner} \<and>
           peel_bucket owner pids (deficits d ms) plan = (deficits d' ms, plan @ zip pids tgts) \<and>
           (\<forall>n. d' n + count_list tgts n = d n)"
  using assms
proof (induction pids arbitrary: d plan)
  case Nil
  then show ?case by (intro exI [of _ "[]"] exI [of _ d]) simp
next
  case (Cons pid pids)
  have "\<exists>n \<in> set ms. d n > 0"
  proof (rule ccontr)
    assume "\<not> (\<exists>n \<in> set ms. d n > 0)"
    then have "sum d (set ms) = 0" by simp
    then show False using Cons.prems(2) by simp
  qed
  then obtain n where "n \<in> set ms" "n \<noteq> owner" "d n > 0" using Cons.prems(1) by force
  then obtain k where pick: "pick_target owner (deficits d ms) = Some k"
    using pick_target_complete by blast
  note k = pick_target_sound [OF pick]
  let ?d = "d(k := d k - 1)"
  have "?d owner = 0" using k Cons.prems(1) by auto
  moreover have "length pids \<le> sum ?d (set ms)"
    using sum_take_one [of "set ms" k d] k Cons.prems(2) by simp
  ultimately obtain tgts d' where IH: "length tgts = length pids" "set tgts \<subseteq> set ms - {owner}"
    "peel_bucket owner pids (deficits ?d ms) (plan @ [(pid, k)]) = (deficits d' ms, (plan @ [(pid, k)]) @ zip pids tgts)"
    "\<forall>n. d' n + count_list tgts n = ?d n"
    using Cons.IH by blast
  have "d' n + count_list (k # tgts) n = d n" for n
    using IH(4) [rule_format, of n] k by (cases "n = k") simp_all
  then show ?case
    using IH(1-3) k by (intro exI [of _ "k # tgts"] exI [of _ d']) (simp add: pick use_slot_deficits)
qed

text \<open>The outer loop: every owner gives up its surplus, and no member receives more than its deficit.\<close>

definition surplus_of :: "partition_table \<Rightarrow> nat \<Rightarrow> node_id \<Rightarrow> nat" where
  "surplus_of t c n = length (owned_by_node t n) - c"

definition surplus_pids :: "partition_table \<Rightarrow> nat \<Rightarrow> node_id \<Rightarrow> partition_id list" where
  "surplus_pids t c n = take (surplus_of t c n) (sort (owned_by_node t n))"

lemma peel_owner_alt:
  assumes "distinct ms" and "owner \<in> set ms"
  shows "peel_owner (map (\<lambda>n. (n, sort (owned_by_node t n))) ms) c owner (dl, plan) =
     (if surplus_of t c owner = 0 then (dl, plan) else peel_bucket owner (surplus_pids t c owner) dl plan)"
proof -
  have "bt_get (map (\<lambda>n. (n, sort (owned_by_node t n))) ms) owner = Some (sort (owned_by_node t owner))"
    using assms by (simp add: map_of_map_restrict)
  then show ?thesis by (simp add: peel_owner_def surplus_of_def surplus_pids_def Let_def)
qed

lemma length_surplus_pids: "length (surplus_pids t c n) = surplus_of t c n"
  by (simp add: surplus_pids_def surplus_of_def)

lemma fold_peel_owner:
  assumes "distinct ms" and "set os \<subseteq> set ms"
    and "\<forall>n. surplus_of t c n > 0 \<longrightarrow> d n = 0"
    and "sum_list (map (surplus_of t c) os) \<le> sum d (set ms)"
  shows "\<exists>tgts d'. length tgts = length (concat (map (surplus_pids t c) os)) \<and> set tgts \<subseteq> set ms \<and>
           fold (peel_owner (map (\<lambda>n. (n, sort (owned_by_node t n))) ms) c) os (deficits d ms, plan)
             = (deficits d' ms, plan @ zip (concat (map (surplus_pids t c) os)) tgts) \<and>
           (\<forall>n. d' n + count_list tgts n = d n)"
  using assms(2-4)
proof (induction os arbitrary: d plan)
  case Nil
  then show ?case by (intro exI [of _ "[]"] exI [of _ d]) simp
next
  case (Cons ow os)
  let ?P = "surplus_pids t c ow" and ?R = "concat (map (surplus_pids t c) os)"
  have len: "length ?P = surplus_of t c ow" by (rule length_surplus_pids)
  obtain t1 d1 where 1: "length t1 = length ?P" "set t1 \<subseteq> set ms"
    "peel_owner (map (\<lambda>n. (n, sort (owned_by_node t n))) ms) c ow (deficits d ms, plan) = (deficits d1 ms, plan @ zip ?P t1)"
    "\<forall>n. d1 n + count_list t1 n = d n"
  proof (cases "surplus_of t c ow = 0")
    case True
    then show ?thesis using that [of "[]" d] len Cons.prems(1) by (simp add: peel_owner_alt [OF assms(1)])
  next
    case False
    then have "d ow = 0" "length ?P \<le> sum d (set ms)" using Cons.prems len by auto
    from peel_bucket_spec [OF this, of plan] obtain tg e where
      "length tg = length ?P" "set tg \<subseteq> set ms - {ow}"
      "peel_bucket ow ?P (deficits d ms) plan = (deficits e ms, plan @ zip ?P tg)"
      "\<forall>n. e n + count_list tg n = d n"
      by blast
    then show ?thesis
      using that [of tg e] False Cons.prems(1) by (simp add: peel_owner_alt [OF assms(1)] subset_Diff_insert)
  qed
  have d1: "d1 n \<le> d n" for n using 1(4) [rule_format, of n] by simp
  have "sum d1 (set ms) + length t1 = sum d (set ms)"
  proof -
    have "sum (count_list t1) (set ms) = length t1"
      using 1(2) by (metis List.finite_set sum_count_set)
    moreover have "sum d (set ms) = sum d1 (set ms) + sum (count_list t1) (set ms)"
      using 1(4) by (simp flip: sum.distrib)
    ultimately show ?thesis by simp
  qed
  then have "sum_list (map (surplus_of t c) os) \<le> sum d1 (set ms)" using Cons.prems(3) 1(1) len by simp
  moreover have "\<forall>n. surplus_of t c n > 0 \<longrightarrow> d1 n = 0" using Cons.prems(2) d1 by (metis le_zero_eq)
  moreover have "set os \<subseteq> set ms" using Cons.prems(1) by simp
  ultimately obtain t2 d2 where 2: "length t2 = length ?R" "set t2 \<subseteq> set ms"
    "fold (peel_owner (map (\<lambda>n. (n, sort (owned_by_node t n))) ms) c) os (deficits d1 ms, plan @ zip ?P t1)
      = (deficits d2 ms, (plan @ zip ?P t1) @ zip ?R t2)"
    "\<forall>n. d2 n + count_list t2 n = d1 n"
    using Cons.IH [of d1 "plan @ zip ?P t1"] by blast
  have "d2 n + count_list (t1 @ t2) n = d n" for n
    using 1(4) 2(4) by (metis add.assoc add.commute count_list_append)
  then show ?case
    using 1 2 by (intro exI [of _ "t1 @ t2"] exI [of _ d2]) simp
qed

section \<open>Executing a plan\<close>

lemma execute_plan_simps [simp]:
  "execute_plan t [] = t" "execute_plan t ((p, to) # plan) = execute_plan (complete_transfer t p to) plan"
  by (simp_all add: execute_plan_def)

definition owner_of :: "partition_table \<Rightarrow> partition_id \<Rightarrow> node_id \<Rightarrow> bool" where
  "owner_of t p n \<longleftrightarrow> table_get t p = Some (Owned n)"

lemma owner_of_complete [simp]: "q \<noteq> p \<Longrightarrow> owner_of (complete_transfer t p to) q n \<longleftrightarrow> owner_of t q n"
  by (simp add: owner_of_def)

lemma set_owned_by_node: "hm_invar t \<Longrightarrow> p \<in> set (owned_by_node t n) \<longleftrightarrow> owner_of t p n"
  by (force simp: owned_by_node_def owner_of_def table_get_def)

lemma distinct_owned_by_node: "hm_invar t \<Longrightarrow> distinct (owned_by_node t n)"
  by (simp add: owned_by_node_def distinct_map_filter)

lemma count_complete:
  assumes "hm_invar t" and "owner_of t p src"
  shows "length (owned_by_node (complete_transfer t p m) n) + (if src = n then 1 else 0)
       = length (owned_by_node t n) + (if m = n then 1 else 0)"
  using count_update [of t p "Owned src" "\<lambda>o'. o' = Owned n" "Owned m"] assms
  by (simp add: owner_of_def table_get_def complete_transfer_def owned_by_node_def)

lemma count_execute_plan:
  assumes "hm_invar t" and "distinct (map fst plan)" and "\<forall>(p, to) \<in> set plan. \<exists>src. owner_of t p src"
  shows "length (owned_by_node (execute_plan t plan) n) + length (filter (\<lambda>(p, to). owner_of t p n) plan)
       = length (owned_by_node t n) + length (filter (\<lambda>(p, to). to = n) plan)"
  using assms
proof (induction plan arbitrary: t)
  case (Cons e plan)
  obtain p to where e: "e = (p, to)" by force
  obtain src where src: "owner_of t p src" using Cons.prems(3) e by auto
  let ?t = "complete_transfer t p to"
  have other: "q \<noteq> p" if "(q, x) \<in> set plan" for q x
    using Cons.prems(2) that e by (auto simp: image_iff)
  have "length (owned_by_node (execute_plan ?t plan) n) + length (filter (\<lambda>(q, x). owner_of ?t q n) plan)
      = length (owned_by_node ?t n) + length (filter (\<lambda>(q, x). x = n) plan)"
  proof (rule Cons.IH)
    show "hm_invar ?t" "distinct (map fst plan)" using Cons.prems e by simp_all
    show "\<forall>(q, x) \<in> set plan. \<exists>src. owner_of ?t q src" using Cons.prems(3) e other by fastforce
  qed
  moreover have "filter (\<lambda>(q, x). owner_of ?t q n) plan = filter (\<lambda>(q, x). owner_of t q n) plan"
    by (rule filter_cong) (auto dest: other)
  moreover have "owner_of t p n \<longleftrightarrow> src = n" using src by (auto simp: owner_of_def)
  ultimately show ?case
    using count_complete [OF Cons.prems(1) src, of to n] by (auto simp: e split: if_splits)
qed simp

lemma filter_zip_counts:
  assumes "length xs = length ys"
  shows "length (filter (\<lambda>(x, y). Q x) (zip xs ys)) = length (filter Q xs)"
    and "length (filter (\<lambda>(x, y). y = n) (zip xs ys)) = count_list ys n"
  using assms by (induction xs ys rule: list_induct2) auto

lemma length_filter_sort_key: "length (filter Q (sort_key f xs)) = length (filter Q xs)"
  by (simp add: filter_sort)

lemma div_ceil_bound: "0 < b \<Longrightarrow> a \<le> b * div_ceil a b"
proof -
  assume "0 < b"
  have e: "b * (a div b) + a mod b = a" by (rule mult_div_mod_eq)
  have l: "a mod b < b" using \<open>0 < b\<close> by simp
  show ?thesis
  proof (cases "a mod b > 0")
    case True
    then have "b * div_ceil a b = b * (a div b) + b" by (simp add: div_ceil_def)
    with e l show ?thesis by linarith
  next
    case False
    then have "b * div_ceil a b = b * (a div b)" "a mod b = 0" by (simp_all add: div_ceil_def)
    with e show ?thesis by linarith
  qed
qed

section \<open>The rebalance theorem\<close>

definition live_total :: "partition_table \<Rightarrow> node_id list \<Rightarrow> nat" where
  "live_total t live = (\<Sum>n \<in> set live. length (owned_by_node t n))"

definition live_ceiling :: "partition_table \<Rightarrow> node_id list \<Rightarrow> nat" where
  "live_ceiling t live = div_ceil (live_total t live) (card (set live))"

lemma surplus_pids_owner: "hm_invar t \<Longrightarrow> p \<in> set (surplus_pids t c n) \<Longrightarrow> owner_of t p n"
  by (auto simp: surplus_pids_def set_owned_by_node dest: in_set_takeD)

lemma distinct_surplus:
  assumes "hm_invar t" and "distinct ms"
  shows "distinct (concat (map (surplus_pids t c) ms))"
  using assms(2)
proof (induction ms)
  case (Cons n ms)
  have "distinct (surplus_pids t c n)"
    using assms(1) by (simp add: surplus_pids_def distinct_owned_by_node)
  moreover have "p \<notin> set (surplus_pids t c m)" if "p \<in> set (surplus_pids t c n)" "m \<in> set ms" for p m
  proof
    assume "p \<in> set (surplus_pids t c m)"
    then have "owner_of t p m" "owner_of t p n"
      using that(1) surplus_pids_owner [OF assms(1)] by auto
    then show False using Cons.prems that(2) by (auto simp: owner_of_def)
  qed
  ultimately show ?case using Cons by auto
qed simp

lemma surplus_fits:
  assumes "live \<noteq> []"
  shows "(\<Sum>n \<in> set live. surplus_of t (live_ceiling t live) n)
       \<le> (\<Sum>n \<in> set live. live_ceiling t live - length (owned_by_node t n))"
proof -
  let ?h = "\<lambda>n. length (owned_by_node t n)" and ?c = "live_ceiling t live"
  have "(\<Sum>n \<in> set live. surplus_of t ?c n) + (\<Sum>n \<in> set live. ?c) = (\<Sum>n \<in> set live. ?c - ?h n) + (\<Sum>n \<in> set live. ?h n)"
    unfolding sum.distrib [symmetric] by (rule sum.cong) (auto simp: surplus_of_def)
  moreover have "(\<Sum>n \<in> set live. ?h n) \<le> (\<Sum>n \<in> set live. ?c)"
    using div_ceil_bound [of "card (set live)" "live_total t live"] assms
    by (simp add: live_ceiling_def live_total_def card_gt_0_iff)
  ultimately show ?thesis by linarith
qed

lemma plan_rebalance_shape:
  fixes live :: "node_id list"
  assumes "hm_invar t" and "live \<noteq> []"
  defines "c \<equiv> live_ceiling t live" and "ms \<equiv> remdups_adj (sort live)"
  shows "\<exists>tgts. length tgts = length (concat (map (surplus_pids t c) ms)) \<and> set tgts \<subseteq> set live \<and>
           (\<forall>n. count_list tgts n \<le> c - length (owned_by_node t n)) \<and>
           plan_rebalance t live = sort_key fst (zip (concat (map (surplus_pids t c) ms)) tgts)"
proof -
  let ?d = "\<lambda>n. c - length (owned_by_node t n)"
  have ms: "ms \<noteq> []" "distinct ms" "set ms = set live" "length ms = card (set live)"
    using assms(2) sort_dedup [of live] by (auto simp: ms_def simp flip: set_empty)
  have ob: "owned_buckets t ms = map (\<lambda>n. (n, sort (owned_by_node t n))) ms"
    unfolding ms_def by (rule owned_buckets_alt) (rule sort_dedup)
  have "sum_list (map (\<lambda>(n, v). length v) (owned_buckets t ms)) = live_total t live"
    using ms(2,3) by (simp add: ob comp_def live_total_def sum_list_distinct_conv_sum_set)
  then have ceil: "div_ceil (sum_list (map (\<lambda>(n, v). length v) (owned_buckets t ms))) (length ms) = c"
    by (simp add: c_def live_ceiling_def ms(4))
  have get: "n \<in> set ms \<Longrightarrow> bt_get (owned_buckets t ms) n = Some (sort (owned_by_node t n))" for n
    by (simp add: ob map_of_map_restrict)
  have defi: "map (\<lambda>n. (n, c - (case bt_get (owned_buckets t ms) n of Some v \<Rightarrow> length v | None \<Rightarrow> 0))) ms = deficits ?d ms"
    by (simp add: deficits_def get)
  have le: "sum_list (map (surplus_of t c) ms) \<le> sum ?d (set ms)"
    using surplus_fits [OF assms(2), of t] ms(2,3) by (simp add: sum_list_distinct_conv_sum_set c_def)
  obtain tgts d' where tg: "length tgts = length (concat (map (surplus_pids t c) ms))" "set tgts \<subseteq> set ms"
    "fold (peel_owner (owned_buckets t ms) c) ms (deficits ?d ms, [])
       = (deficits d' ms, zip (concat (map (surplus_pids t c) ms)) tgts)"
    "\<forall>n. d' n + count_list tgts n = ?d n"
    using fold_peel_owner [OF ms(2) subset_refl _ le, of "[]"] by (auto simp: ob surplus_of_def)
  have "plan_rebalance t live = sort_key fst (zip (concat (map (surplus_pids t c) ms)) tgts)"
    using ms(1) tg(3) unfolding plan_rebalance_def Let_def ms_def [symmetric] ceil defi by simp
  moreover have "count_list tgts n \<le> ?d n" for n using tg(4) [rule_format, of n] by linarith
  ultimately show ?thesis using tg(1,2) ms(3) by auto
qed

lemma plan_rebalance_facts:
  fixes live :: "node_id list"
  assumes "hm_invar t" and "live \<noteq> []"
  shows "distinct (map fst (plan_rebalance t live))"
    and "(p, to) \<in> set (plan_rebalance t live) \<Longrightarrow> to \<in> set live \<and> (\<exists>src \<in> set live. owner_of t p src)"
    and "n \<in> set live \<Longrightarrow> length (owned_by_node (execute_plan t (plan_rebalance t live)) n) \<le> live_ceiling t live"
proof -
  let ?c = "live_ceiling t live" and ?ms = "remdups_adj (sort live)"
  let ?P = "concat (map (surplus_pids t ?c) ?ms)"
  obtain tgts where tg: "length tgts = length ?P" "set tgts \<subseteq> set live"
    "\<forall>n. count_list tgts n \<le> ?c - length (owned_by_node t n)"
    "plan_rebalance t live = sort_key fst (zip ?P tgts)"
    using plan_rebalance_shape [OF assms] by blast
  have ms: "distinct ?ms" "set ?ms = set live" by (rule sort_dedup)+
  have dP: "distinct ?P" by (rule distinct_surplus [OF assms(1) ms(1)])
  have "distinct (map fst (zip ?P tgts))" using dP tg(1) by simp
  then show dist: "distinct (map fst (plan_rebalance t live))" by (simp only: tg(4) distinct_map set_sort distinct_sort)
  show mem: "to \<in> set live \<and> (\<exists>src \<in> set live. owner_of t p src)" if "(p, to) \<in> set (plan_rebalance t live)" for p to
  proof -
    have "p \<in> set ?P" "to \<in> set tgts" using that by (auto simp: tg(4) dest: set_zip_leftD set_zip_rightD)
    then obtain src where "src \<in> set live" "p \<in> set (surplus_pids t ?c src)" using ms(2) by auto
    then show ?thesis using \<open>to \<in> set tgts\<close> tg(2) surplus_pids_owner [OF assms(1)] by blast
  qed
  show "length (owned_by_node (execute_plan t (plan_rebalance t live)) n) \<le> ?c" if "n \<in> set live" for n
  proof -
    have "filter (\<lambda>p. owner_of t p n) ?P = surplus_pids t ?c n"
      using that ms by (intro filter_concat_one) (auto dest!: surplus_pids_owner [OF assms(1)] simp: owner_of_def)
    then have "length (filter (\<lambda>(p, to). owner_of t p n) (plan_rebalance t live)) = surplus_of t ?c n"
      using filter_zip_counts(1) [OF tg(1) [symmetric], of "\<lambda>p. owner_of t p n"]
      by (simp add: tg(4) length_filter_sort_key length_surplus_pids)
    moreover have "length (filter (\<lambda>(p, to). to = n) (plan_rebalance t live)) \<le> ?c - length (owned_by_node t n)"
      using filter_zip_counts(2) [OF tg(1) [symmetric]] tg(3) by (simp add: tg(4) length_filter_sort_key)
    moreover have "\<forall>(p, to) \<in> set (plan_rebalance t live). \<exists>src. owner_of t p src" using mem by blast
    note count_execute_plan [OF assms(1) dist this, of n]
    ultimately show ?thesis unfolding surplus_of_def by linarith
  qed
qed

text \<open>
  C25: executing the rebalance plan leaves no live member with more than the per-node ceiling
  \<open>ceil(owned by live members / live members)\<close>.  The plan is sorted by partition id, moves no
  partition twice, moves only partitions that live members own outright (never one in transfer), and
  only to live members.
\<close>

theorem plan_rebalance_ceiling:
  fixes live :: "node_id list"
  assumes "hm_invar t" and "live \<noteq> []"
  shows "(\<forall>n \<in> set live. length (owned_by_node (execute_plan t (plan_rebalance t live)) n) \<le> live_ceiling t live) \<and>
         sorted (map fst (plan_rebalance t live)) \<and> distinct (map fst (plan_rebalance t live)) \<and>
         (\<forall>(p, to) \<in> set (plan_rebalance t live). to \<in> set live \<and> (\<exists>src \<in> set live. owner_of t p src))"
proof -
  have "sorted (map fst (plan_rebalance t live))"
    by (simp add: plan_rebalance_def Let_def)
  then show ?thesis using plan_rebalance_facts [OF assms] by blast
qed

definition skewed_table :: partition_table where
  "skewed_table = map (\<lambda>i. (PartitionId (of_nat i), Owned ([1, 1, 1, 2, 2, 2, 3, 3, 3, 4] ! i))) [0..<10]"

theorem plan_rebalance_ceiling_witness:
  "length (owned_by_node (execute_plan sample_table (plan_rebalance sample_table [1, 2])) 1) \<le> 1"
proof -
  have "live_ceiling sample_table [1, 2] = 1"
    by (simp add: live_ceiling_def live_total_def sample_table_def owned_by_node_def div_ceil_def)
  moreover have "hm_invar sample_table" by (simp add: sample_table_def)
  ultimately show ?thesis
    using plan_rebalance_ceiling [of sample_table "[1, 2]", THEN conjunct1, rule_format, of 1] by simp
qed

text \<open>
  The plan does not reach the documented floor.  With four live members owning 3, 3, 3 and 1 of
  ten partitions nobody exceeds the ceiling of 3, so the plan is empty and the last member stays
  below the floor \<open>10 / 4 = 2\<close>.
\<close>

theorem plan_rebalance_misses_floor:
  "hm_invar skewed_table \<and> plan_rebalance skewed_table [1, 2, 3, 4] = [] \<and>
   length (owned_by_node (execute_plan skewed_table (plan_rebalance skewed_table [1, 2, 3, 4])) 4)
     < live_total skewed_table [1, 2, 3, 4] div card (set [1, 2, 3, 4 :: node_id])"
proof -
  have sk: "skewed_table = [(PartitionId 0, Owned 1), (PartitionId 1, Owned 1), (PartitionId 2, Owned 1),
      (PartitionId 3, Owned 2), (PartitionId 4, Owned 2), (PartitionId 5, Owned 2),
      (PartitionId 6, Owned 3), (PartitionId 7, Owned 3), (PartitionId 8, Owned 3), (PartitionId 9, Owned 4)]"
    by (simp add: skewed_table_def upt_conv_Cons)
  have ms: "remdups_adj (sort [1, 2, 3, 4 :: node_id]) = [1, 2, 3, 4]" by simp
  have ob: "owned_buckets skewed_table [1, 2, 3, 4] =
      [(1, [PartitionId 0, PartitionId 1, PartitionId 2]), (2, [PartitionId 3, PartitionId 4, PartitionId 5]),
       (3, [PartitionId 6, PartitionId 7, PartitionId 8]), (4, [PartitionId 9])]"
    by (simp add: owned_buckets_def sk push_owned_def)
  have empty: "plan_rebalance skewed_table [1, 2, 3, 4] = []"
    by (simp add: plan_rebalance_def ob div_ceil_def peel_owner_def Let_def)
  show ?thesis unfolding empty by (simp add: sk owned_by_node_def live_total_def)
qed

end
