(* ===== verification/Partition_Transfer.thy ===== *)
theory Partition_Transfer
  imports Partition_Table
begin

text \<open>
  \<open>aeon-cluster/src/transfer.rs\<close>: the two-phase transfer tracker of one partition.  Every
  operation returns its result and the updated tracker; error messages keep their fixed text.
\<close>

datatype transfer_state =
    Idle
  | BulkSync node_id node_id u64 u64
  | Cutover node_id node_id
  | Complete node_id
  | Aborted node_id string

fun is_active :: "transfer_state \<Rightarrow> bool" where
  "is_active (BulkSync _ _ _ _) = True"
| "is_active (Cutover _ _) = True"
| "is_active _ = False"

record transfer_tracker =
  tt_partition :: partition_id
  tt_state :: transfer_state

definition tracker_new :: "partition_id \<Rightarrow> transfer_tracker" where
  "tracker_new p = \<lparr>tt_partition = p, tt_state = Idle\<rparr>"

definition tracker_begin :: "node_id \<Rightarrow> node_id \<Rightarrow> transfer_tracker \<Rightarrow> (string + unit) \<times> transfer_tracker" where
  "tracker_begin source target tk =
     (case tt_state tk of
        Idle \<Rightarrow> (Inr (), tk\<lparr>tt_state := BulkSync source target 0 0\<rparr>)
      | _ \<Rightarrow> (Inl ''cannot begin transfer'', tk))"

definition begin_cutover :: "transfer_tracker \<Rightarrow> (string + unit) \<times> transfer_tracker" where
  "begin_cutover tk =
     (case tt_state tk of
        BulkSync source target _ _ \<Rightarrow> (Inr (), tk\<lparr>tt_state := Cutover source target\<rparr>)
      | _ \<Rightarrow> (Inl ''cannot cutover'', tk))"

definition tracker_complete :: "transfer_tracker \<Rightarrow> (string + node_id) \<times> transfer_tracker" where
  "tracker_complete tk =
     (case tt_state tk of
        Cutover _ target \<Rightarrow> (Inr target, tk\<lparr>tt_state := Complete target\<rparr>)
      | _ \<Rightarrow> (Inl ''cannot complete'', tk))"

definition tracker_abort :: "string \<Rightarrow> transfer_tracker \<Rightarrow> (string + node_id) \<times> transfer_tracker" where
  "tracker_abort reason tk =
     (case tt_state tk of
        BulkSync source _ _ _ \<Rightarrow> (Inr source, tk\<lparr>tt_state := Aborted source reason\<rparr>)
      | Cutover source _ \<Rightarrow> (Inr source, tk\<lparr>tt_state := Aborted source reason\<rparr>)
      | _ \<Rightarrow> (Inl ''cannot abort'', tk))"

definition update_progress :: "u64 \<Rightarrow> u64 \<Rightarrow> transfer_tracker \<Rightarrow> transfer_tracker" where
  "update_progress bs tot tk =
     (case tt_state tk of
        BulkSync source target _ _ \<Rightarrow> tk\<lparr>tt_state := BulkSync source target bs tot\<rparr>
      | _ \<Rightarrow> tk)"

definition tracker_reset :: "transfer_tracker \<Rightarrow> transfer_tracker" where
  "tracker_reset tk = tk\<lparr>tt_state := Idle\<rparr>"

lemmas tracker_defs = tracker_begin_def begin_cutover_def tracker_complete_def tracker_abort_def
  update_progress_def

section \<open>The step relation between two resets\<close>

text \<open>
  One call of the driver on a tracker that is never reset; \<^term>\<open>Some n\<close> is the owner a
  successful \<open>complete\<close> or \<open>abort\<close> reports.
\<close>

inductive tracker_step :: "transfer_tracker \<Rightarrow> node_id option \<Rightarrow> transfer_tracker \<Rightarrow> bool" where
  begin_step: "tracker_begin s d tk = (r, tk') \<Longrightarrow> tracker_step tk None tk'"
| cutover_step: "begin_cutover tk = (r, tk') \<Longrightarrow> tracker_step tk None tk'"
| complete_step: "tracker_complete tk = (Inr n, tk') \<Longrightarrow> tracker_step tk (Some n) tk'"
| complete_err: "tracker_complete tk = (Inl e, tk') \<Longrightarrow> tracker_step tk None tk'"
| abort_step: "tracker_abort reason tk = (Inr n, tk') \<Longrightarrow> tracker_step tk (Some n) tk'"
| abort_err: "tracker_abort reason tk = (Inl e, tk') \<Longrightarrow> tracker_step tk None tk'"
| progress_step: "tracker_step tk None (update_progress b m tk)"

inductive_cases tracker_stepE: "tracker_step tk r tk'"

inductive tracker_run :: "transfer_tracker \<Rightarrow> node_id list \<Rightarrow> transfer_tracker \<Rightarrow> bool" where
  run_nil: "tracker_run tk [] tk"
| run_silent: "tracker_run tk outs tk' \<Longrightarrow> tracker_step tk' None tk'' \<Longrightarrow> tracker_run tk outs tk''"
| run_report: "tracker_run tk outs tk' \<Longrightarrow> tracker_step tk' (Some n) tk'' \<Longrightarrow> tracker_run tk (outs @ [n]) tk''"

text \<open>What has been reported so far, for a transfer from \<open>s\<close> to \<open>d\<close>.\<close>

fun outcome_ok :: "node_id \<Rightarrow> node_id \<Rightarrow> node_id list \<Rightarrow> transfer_state \<Rightarrow> bool" where
  "outcome_ok s d outs (BulkSync s' d' _ _) = (s' = s \<and> d' = d \<and> outs = [])"
| "outcome_ok s d outs (Cutover s' d') = (s' = s \<and> d' = d \<and> outs = [])"
| "outcome_ok s d outs (Complete n) = (n = d \<and> outs = [d])"
| "outcome_ok s d outs (Aborted n _) = (n = s \<and> outs = [s])"
| "outcome_ok s d outs Idle = False"

lemma outcome_ok_step:
  assumes "tracker_step tk r tk'" and "outcome_ok s d outs (tt_state tk)"
  shows "outcome_ok s d (case r of None \<Rightarrow> outs | Some n \<Rightarrow> outs @ [n]) (tt_state tk')"
  using assms by cases (auto simp: tracker_defs split: transfer_state.splits)

lemma outcome_ok_run:
  "tracker_run tk outs tk' \<Longrightarrow> outcome_ok s d [] (tt_state tk) \<Longrightarrow> outcome_ok s d outs (tt_state tk')"
  by (induction rule: tracker_run.induct) (auto dest: outcome_ok_step)

text \<open>
  C24: after a transfer from \<open>s\<close> to \<open>d\<close> has begun, whatever calls follow before a reset, at most one
  of them reports an owner: \<open>d\<close> by a completion or \<open>s\<close> by an abort, never both and never twice,
  and the tracker's final state names that same owner.
\<close>

theorem transfer_single_outcome:
  assumes "tracker_begin s d (tracker_new p) = (Inr (), tk)" and "tracker_run tk outs tk'"
  shows "(outs = [] \<and> is_active (tt_state tk')) \<or> (outs = [d] \<and> tt_state tk' = Complete d) \<or>
         (\<exists>reason. outs = [s] \<and> tt_state tk' = Aborted s reason)"
proof -
  have "outcome_ok s d [] (tt_state tk)"
    using assms(1) by (auto simp: tracker_begin_def tracker_new_def)
  from outcome_ok_run [OF assms(2) this] show ?thesis
    by (cases "tt_state tk'") auto
qed

theorem transfer_single_outcome_witness:
  "let tk0 = \<lparr>tt_partition = PartitionId 0, tt_state = BulkSync 1 2 0 0\<rparr>;
       tk1 = \<lparr>tt_partition = PartitionId 0, tt_state = Complete 2\<rparr>
   in tracker_run tk0 [2] tk1 \<and>
      (([2 :: node_id] = [] \<and> is_active (tt_state tk1)) \<or> ([2 :: node_id] = [2] \<and> tt_state tk1 = Complete 2) \<or>
       (\<exists>reason. [2 :: node_id] = [1] \<and> tt_state tk1 = Aborted 1 reason))"
proof -
  let ?tk0 = "\<lparr>tt_partition = PartitionId 0, tt_state = BulkSync 1 2 0 0\<rparr>"
  let ?mid = "\<lparr>tt_partition = PartitionId 0, tt_state = Cutover 1 2\<rparr>"
  let ?tk1 = "\<lparr>tt_partition = PartitionId 0, tt_state = Complete 2\<rparr>"
  have 1: "tracker_step ?tk0 None ?mid"
    by (rule cutover_step) (simp add: begin_cutover_def)
  have 2: "tracker_step ?mid (Some 2) ?tk1"
    by (rule complete_step) (simp add: tracker_complete_def)
  have run: "tracker_run ?tk0 [2] ?tk1"
    using run_report [OF run_silent [OF run_nil 1] 2] by simp
  have "tracker_begin 1 2 (tracker_new (PartitionId 0)) = (Inr (), ?tk0)"
    by (simp add: tracker_begin_def tracker_new_def)
  from transfer_single_outcome [OF this run] run show ?thesis by (simp add: Let_def)
qed

end
