(* ===== verification/Framed_Log.thy ===== *)
theory Framed_Log
  imports Aeon_Prelude
begin

text \<open>
  Append-only files of checksummed frames, as the checkpoint WAL and the L2 body segments write them.
  \<open>loop\<close> reads the records of a file from an offset; the locale states what one iteration does with a
  complete frame and with a torn one, and derives what reading a whole file returns.
\<close>

definition framed :: "('f \<Rightarrow> bytes) \<Rightarrow> ('f \<Rightarrow> 'r \<Rightarrow> bool) \<Rightarrow> bytes \<Rightarrow> bytes \<Rightarrow> 'r list \<Rightarrow> bool" where
  "framed frame ok header contents rs \<longleftrightarrow> (\<exists>fs. contents = header @ concat (map frame fs) \<and> list_all2 ok fs rs)"

lemma framed_Nil: "framed frame ok header header []"
  by (auto simp: framed_def)

lemma framed_snoc:
  assumes "framed frame ok header contents rs" and "ok f r"
  shows "framed frame ok header (contents @ frame f) (rs @ [r])"
proof -
  obtain fs where "contents = header @ concat (map frame fs)" "list_all2 ok fs rs"
    using assms(1) by (auto simp: framed_def)
  then show ?thesis
    unfolding framed_def using assms(2) by (intro exI [of _ "fs @ [f]"]) (simp add: list_all2_appendI)
qed

locale framed_log =
  fixes loop :: "bytes \<Rightarrow> nat \<Rightarrow> 'r list" and frame :: "'f \<Rightarrow> bytes" and ok :: "'f \<Rightarrow> 'r \<Rightarrow> bool"
    and fits :: "'f \<Rightarrow> bool" and frame_header :: nat
  assumes read_frame: "data = pre @ frame f @ post \<Longrightarrow> ok f r \<Longrightarrow>
      loop data (length pre) = r # loop data (length (pre @ frame f))"
    and read_torn: "data = pre @ take n (frame f) @ extra \<Longrightarrow> fits f \<Longrightarrow> n + length extra < length (frame f) \<Longrightarrow>
      frame_header \<le> n \<or> extra = [] \<Longrightarrow> loop data (length pre) = []"
    and read_end: "loop data (length data) = []"
begin

lemma read_frames:
  "list_all2 ok fs rs \<Longrightarrow> loop (pre @ concat (map frame fs) @ rest) (length pre) =
     rs @ loop (pre @ concat (map frame fs) @ rest) (length (pre @ concat (map frame fs)))"
proof (induction fs rs arbitrary: pre rule: list_all2_induct)
  case (Cons f fs r rs)
  let ?data = "pre @ concat (map frame (f # fs)) @ rest"
  have "loop ?data (length pre) = r # loop ?data (length (pre @ frame f))"
    using Cons.hyps by (intro read_frame [where post = "concat (map frame fs) @ rest"]) simp_all
  with Cons.IH [of "pre @ frame f"] show ?case by (simp add: add.assoc)
qed simp

lemma read_framed:
  assumes "framed frame ok header contents rs"
  shows "loop contents (length header) = rs"
proof -
  obtain fs where c: "contents = header @ concat (map frame fs)" and fs: "list_all2 ok fs rs"
    using assms by (auto simp: framed_def)
  show ?thesis using read_frames [OF fs, of header "[]"] read_end [of contents] by (simp add: c)
qed

lemma read_framed_torn:
  assumes "framed frame ok header contents rs" "fits f" "n + length extra < length (frame f)"
    "frame_header \<le> n \<or> extra = []"
  shows "loop (contents @ take n (frame f) @ extra) (length header) = rs"
proof -
  obtain fs where c: "contents = header @ concat (map frame fs)" and fs: "list_all2 ok fs rs"
    using assms(1) by (auto simp: framed_def)
  have "loop (contents @ take n (frame f) @ extra) (length contents) = []"
    by (rule read_torn [OF refl assms(2-4)])
  then show ?thesis using read_frames [OF fs, of header "take n (frame f) @ extra"] by (simp add: c)
qed

end

end
