(* ===== verification/L2_Body.thy ===== *)
theory L2_Body
  imports Byte_Codec Aeon_Maps Framed_Log
begin

text \<open>
  \<open>aeon-engine/src/l2_body.rs\<close>: the segmented append-only log of event bodies of one partition.  The
  directory of a partition is a map from start sequence to the content of the \<open>.l2b\<close> file, with a second
  map for the \<open>.l2b.meta\<close> sidecars.  \<open>crc32fast\<close>, the message codec, and the at-rest cipher with its
  key-encryption key are parameters; what the file system answers to the next writes is part of the
  state.
\<close>

record at_rest =
  ar_seal :: "bytes \<Rightarrow> bytes res"
  ar_open :: "bytes \<Rightarrow> bytes res"

text \<open>\<open>'k\<close> is a wrapped data key; the argument of \<open>kk_generate\<close> stands for the randomness of a new key.\<close>

record 'k kek =
  kk_generate :: "u64 \<Rightarrow> ('k \<times> at_rest) res"
  kk_unwrap :: "'k \<Rightarrow> at_rest res"

definition segment_magic :: bytes where "segment_magic = map of_char ''AEON-L2B''"
definition segment_version :: u16 where "segment_version = 1"

definition segment_header :: bytes where
  "segment_header = segment_magic @ u16_to_le segment_version @ u16_to_le 0"

definition default_segment_bytes :: u64 where
  "default_segment_bytes = 256 * 1024 * 1024"

definition load_cipher_for :: "'k option \<Rightarrow> 'k kek option \<Rightarrow> at_rest option res" where
  "load_cipher_for meta kek =
     (case (kek, meta) of
        (Some k, Some wrapped) \<Rightarrow> rbind (kk_unwrap k wrapped) (\<lambda>c. Inr (Some c))
      | (None, Some _) \<Rightarrow> Inl (State ''l2-body: encryption sidecar present but no KEK configured'')
      | _ \<Rightarrow> Inr None)"

section \<open>Reading a segment\<close>

definition open_payload :: "at_rest option \<Rightarrow> bytes \<Rightarrow> bytes res" where
  "open_payload cipher on_disk = (case cipher of Some c \<Rightarrow> ar_open c on_disk | None \<Rightarrow> Inr on_disk)"

definition decode_payload :: "serde_backend \<Rightarrow> at_rest option \<Rightarrow> bytes \<Rightarrow> event res" where
  "decode_payload S cipher on_disk =
     rbind (open_payload cipher on_disk) (\<lambda>bs.
       case decode_event S MsgPack bs of
         Inl e \<Rightarrow> Inl (State ''l2-body: decode event'')
       | Inr ev \<Rightarrow> Inr ev)"

text \<open>The items the iterator yields: it stops after an error, at a truncated record or a bad checksum.\<close>

function segment_records :: "serde_backend \<Rightarrow> (bytes \<Rightarrow> u32) \<Rightarrow> at_rest option \<Rightarrow> bytes \<Rightarrow> nat \<Rightarrow> (u64 \<times> event) res list" where
  "segment_records S crc cipher data offset =
     (if offset + 16 > length data then []
      else
        let seq = u64_from_le (subslice data offset (offset + 8));
            expected = u32_from_le (subslice data (offset + 8) (offset + 12));
            len_bytes = subslice data (offset + 12) (offset + 16);
            len = unat (u32_from_le len_bytes);
            body_start = offset + 16
        in if body_start + len > length data then []
           else
             let on_disk = subslice data body_start (body_start + len)
             in if crc (u32_to_le (of_nat len) @ on_disk) \<noteq> expected then []
                else (case decode_payload S cipher on_disk of
                        Inl e \<Rightarrow> [Inl e]
                      | Inr ev \<Rightarrow> Inr (seq, ev) # segment_records S crc cipher data (body_start + len)))"
  by pat_completeness auto
termination by (relation "measure (\<lambda>(S, crc, cipher, data, offset). length data - offset)") auto

declare segment_records.simps [simp del]

definition iter_records :: "serde_backend \<Rightarrow> (bytes \<Rightarrow> u32) \<Rightarrow> bytes \<Rightarrow> 'k option \<Rightarrow> 'k kek option
    \<Rightarrow> (u64 \<times> event) res list res" where
  "iter_records S crc data meta kek =
     rbind (load_cipher_for meta kek) (\<lambda>cipher.
       if length data < 12 \<or> subslice data 0 8 \<noteq> segment_magic then Inl (State ''l2-body: bad header on read'')
       else Inr (segment_records S crc cipher data 12))"

text \<open>\<open>for r in records\<close> with \<open>r?\<close>: stop at the first error.\<close>

fun collect_ok :: "'a res list \<Rightarrow> 'a list res" where
  "collect_ok [] = Inr []"
| "collect_ok (Inl e # rs) = Inl e"
| "collect_ok (Inr x # rs) = rbind (collect_ok rs) (\<lambda>xs. Inr (x # xs))"

section \<open>Segments\<close>

record l2_segment =
  sg_start_seq :: u64
  sg_max_seq :: "u64 option"
  sg_byte_len :: u64
  sg_encryptor :: "at_rest option"

definition last_seq :: "(u64 \<times> event) list \<Rightarrow> u64 option" where
  "last_seq recs = (if recs = [] then None else Some (fst (last recs)))"

definition segment_open :: "serde_backend \<Rightarrow> (bytes \<Rightarrow> u32) \<Rightarrow> u64 \<Rightarrow> bytes \<Rightarrow> 'k option \<Rightarrow> 'k kek option \<Rightarrow> l2_segment res" where
  "segment_open S crc start data meta kek =
     rbind (load_cipher_for meta kek) (\<lambda>encryptor.
       if length data < 12 then Inl (State ''l2-body: file shorter than header'')
       else if subslice data 0 8 \<noteq> segment_magic then Inl (State ''l2-body: bad magic'')
       else if u16_from_le (subslice data 8 10) \<noteq> segment_version then Inl (State ''l2-body: unsupported version'')
       else rbind (iter_records S crc data meta kek) (\<lambda>items.
            rbind (collect_ok items) (\<lambda>recs.
              Inr \<lparr>sg_start_seq = start, sg_max_seq = last_seq recs, sg_byte_len = of_nat (length data),
                   sg_encryptor = encryptor\<rparr>)))"

datatype l2_io = IoOk | IoFail nat

record 'k l2_store =
  bs_files :: "(u64, bytes) hash_map"
  bs_metas :: "(u64, 'k) hash_map"
  bs_segments :: "l2_segment list"
  bs_next_seq :: u64
  bs_eligible_since :: "(u64, instant) hash_map"
  bs_segment_bytes :: u64
  bs_kek :: "'k kek option"
  bs_gc_min_hold :: nat
  bs_io :: "l2_io list"

definition take_io :: "'k l2_store \<Rightarrow> l2_io \<times> 'k l2_store" where
  "take_io st = (case bs_io st of [] \<Rightarrow> (IoOk, st) | io # ios \<Rightarrow> (io, st\<lparr>bs_io := ios\<rparr>))"

text \<open>
  \<open>L2BodySegment::create\<close>: the sidecar is written before the segment file, which must not exist; a
  failed header write leaves a partial file behind.
\<close>

definition segment_create :: "u64 \<Rightarrow> 'k l2_store \<Rightarrow> l2_segment res \<times> 'k l2_store" where
  "segment_create start st =
     (let (cipher, st1) =
        (case bs_kek st of
           None \<Rightarrow> (Inr None, st)
         | Some k \<Rightarrow> (case kk_generate k start of
                       Inl e \<Rightarrow> (Inl e, st)
                     | Inr (wrapped, c) \<Rightarrow> (Inr (Some c), st\<lparr>bs_metas := hm_insert start wrapped (bs_metas st)\<rparr>)))
      in case cipher of
           Inl e \<Rightarrow> (Inl e, st1)
         | Inr encryptor \<Rightarrow>
             if hm_get (bs_files st1) start \<noteq> None then (Inl (State ''l2-body: create''), st1)
             else (case take_io st1 of
                     (IoFail n, st2) \<Rightarrow>
                       (Inl (State ''l2-body: write header''),
                        st2\<lparr>bs_files := hm_insert start (take n segment_header) (bs_files st2)\<rparr>)
                   | (IoOk, st2) \<Rightarrow>
                       (Inr \<lparr>sg_start_seq = start, sg_max_seq = None, sg_byte_len = 12, sg_encryptor = encryptor\<rparr>,
                        st2\<lparr>bs_files := hm_insert start segment_header (bs_files st2)\<rparr>)))"

definition l2_frame :: "(bytes \<Rightarrow> u32) \<Rightarrow> u64 \<Rightarrow> bytes \<Rightarrow> bytes" where
  "l2_frame crc seq payload =
     (let len = u32_to_le (of_nat (length payload))
      in u64_to_le seq @ u32_to_le (crc (len @ payload)) @ len @ payload)"

definition seal_event :: "serde_backend \<Rightarrow> at_rest option \<Rightarrow> event \<Rightarrow> bytes res" where
  "seal_event S encryptor ev =
     (case encode_event S MsgPack ev of
        Inl e \<Rightarrow> Inl (State ''l2-body: encode event'')
      | Inr plaintext \<Rightarrow>
          rbind (case encryptor of Some c \<Rightarrow> ar_seal c plaintext | None \<Rightarrow> Inr plaintext) (\<lambda>payload.
            if length payload < 2 ^ 32 then Inr payload else Inl (State ''l2-body: event exceeds u32 len'')))"

text \<open>\<open>L2BodySegment::append\<close> on the file of the segment.\<close>

definition segment_append :: "serde_backend \<Rightarrow> (bytes \<Rightarrow> u32) \<Rightarrow> u64 \<Rightarrow> event \<Rightarrow> l2_segment \<Rightarrow> l2_io \<Rightarrow> bytes
    \<Rightarrow> l2_segment res \<times> bytes" where
  "segment_append S crc seq ev sg io data =
     (if (case sg_max_seq sg of Some m \<Rightarrow> seq \<le> m | None \<Rightarrow> False) then (Inl (State ''l2-body: non-monotonic seq''), data)
      else case seal_event S (sg_encryptor sg) ev of
             Inl e \<Rightarrow> (Inl e, data)
           | Inr payload \<Rightarrow>
               (case io of
                  IoFail n \<Rightarrow> (Inl (State ''l2-body: write record''), data @ take n (l2_frame crc seq payload))
                | IoOk \<Rightarrow>
                    (Inr (sg\<lparr>sg_max_seq := Some seq, sg_byte_len := sg_byte_len sg + 16 + of_nat (length payload)\<rparr>),
                     data @ l2_frame crc seq payload)))"

section \<open>The partition store\<close>

fun open_segments :: "serde_backend \<Rightarrow> (bytes \<Rightarrow> u32) \<Rightarrow> (u64, bytes) hash_map \<Rightarrow> (u64, 'k) hash_map \<Rightarrow> 'k kek option
    \<Rightarrow> u64 list \<Rightarrow> u64 \<Rightarrow> (l2_segment list \<times> u64) res" where
  "open_segments S crc files metas kek [] next_seq = Inr ([], next_seq)"
| "open_segments S crc files metas kek (s # starts) next_seq =
     rbind (ok_or (State ''l2-body: open'') (hm_get files s)) (\<lambda>data.
     rbind (segment_open S crc s data (hm_get metas s) kek) (\<lambda>sg.
     rbind (open_segments S crc files metas kek starts
              (case sg_max_seq sg of None \<Rightarrow> next_seq | Some m \<Rightarrow> max (m + 1) next_seq)) (\<lambda>(sgs, next).
       Inr (sg # sgs, next))))"

definition l2_open :: "serde_backend \<Rightarrow> (bytes \<Rightarrow> u32) \<Rightarrow> (u64, bytes) hash_map \<Rightarrow> (u64, 'k) hash_map \<Rightarrow> u64
    \<Rightarrow> 'k kek option \<Rightarrow> nat \<Rightarrow> l2_io list \<Rightarrow> 'k l2_store res" where
  "l2_open S crc files metas segment_bytes kek hold io =
     rbind (open_segments S crc files metas kek (sort (map fst files)) 0) (\<lambda>(segments, next_seq).
       Inr \<lparr>bs_files = files, bs_metas = metas, bs_segments = segments, bs_next_seq = next_seq,
            bs_eligible_since = [], bs_segment_bytes = segment_bytes, bs_kek = kek, bs_gc_min_hold = hold, bs_io = io\<rparr>)"

definition effective_segment_bytes :: "'k l2_store \<Rightarrow> u64" where
  "effective_segment_bytes st = (if bs_segment_bytes st = 0 then default_segment_bytes else bs_segment_bytes st)"

definition need_new_segment :: "'k l2_store \<Rightarrow> bool" where
  "need_new_segment st = (bs_segments st = [] \<or> sg_byte_len (last (bs_segments st)) \<ge> effective_segment_bytes st)"

definition roll_segment :: "'k l2_store \<Rightarrow> unit res \<times> 'k l2_store" where
  "roll_segment st =
     (if need_new_segment st then
        (case segment_create (bs_next_seq st) st of
           (Inl e, st1) \<Rightarrow> (Inl e, st1)
         | (Inr sg, st1) \<Rightarrow> (Inr (), st1\<lparr>bs_segments := bs_segments st1 @ [sg]\<rparr>))
      else (Inr (), st))"

definition l2_append :: "serde_backend \<Rightarrow> (bytes \<Rightarrow> u32) \<Rightarrow> event \<Rightarrow> 'k l2_store \<Rightarrow> u64 res \<times> 'k l2_store" where
  "l2_append S crc ev st =
     (case roll_segment st of
        (Inl e, st1) \<Rightarrow> (Inl e, st1)
      | (Inr _, st1) \<Rightarrow>
          let seq = bs_next_seq st; sg = last (bs_segments st1); (io, st2) = take_io st1;
              data = (case hm_get (bs_files st2) (sg_start_seq sg) of None \<Rightarrow> [] | Some d \<Rightarrow> d)
          in case segment_append S crc seq ev sg io data of
               (Inl e, data') \<Rightarrow> (Inl e, st2\<lparr>bs_files := hm_insert (sg_start_seq sg) data' (bs_files st2)\<rparr>)
             | (Inr sg', data') \<Rightarrow>
                 (Inr seq, st2\<lparr>bs_files := hm_insert (sg_start_seq sg) data' (bs_files st2),
                               bs_segments := butlast (bs_segments st2) @ [sg'], bs_next_seq := seq + 1\<rparr>))"

function gc_loop :: "u64 \<Rightarrow> instant \<Rightarrow> 'k l2_store \<Rightarrow> nat \<Rightarrow> nat res \<times> 'k l2_store" where
  "gc_loop min_ack now st reclaimed =
     (case bs_segments st of
        sg # sg2 # sgs \<Rightarrow>
          (case sg_max_seq sg of
             Some m \<Rightarrow>
               if m < min_ack then
                 let start = sg_start_seq sg;
                     stamp = (case hm_get (bs_eligible_since st) start of None \<Rightarrow> now | Some t \<Rightarrow> t);
                     st1 = (if bs_gc_min_hold st = 0 then st
                            else st\<lparr>bs_eligible_since := hm_insert start stamp (bs_eligible_since st)\<rparr>)
                 in if bs_gc_min_hold st = 0 \<or> now - stamp \<ge> bs_gc_min_hold st then
                      (case take_io st1 of
                         (IoFail _, st2) \<Rightarrow> (Inl (State ''l2-body: gc remove''), st2)
                       | (IoOk, st2) \<Rightarrow>
                           gc_loop min_ack now
                             (st2\<lparr>bs_files := hm_remove start (bs_files st2), bs_segments := sg2 # sgs,
                                  bs_eligible_since := hm_remove start (bs_eligible_since st2)\<rparr>)
                             (reclaimed + 1))
                    else (Inr reclaimed, st1)
               else (Inr reclaimed, st)
           | None \<Rightarrow> (Inr reclaimed, st))
      | _ \<Rightarrow> (Inr reclaimed, st))"
  by pat_completeness auto
termination by (relation "measure (\<lambda>(_, _, st, _). length (bs_segments st))") auto

declare gc_loop.simps [simp del]

definition gc_up_to_at :: "u64 \<Rightarrow> instant \<Rightarrow> 'k l2_store \<Rightarrow> nat res \<times> 'k l2_store" where
  "gc_up_to_at min_ack now st = gc_loop min_ack now st 0"

definition segment_count :: "'k l2_store \<Rightarrow> nat" where
  "segment_count st = length (bs_segments st)"

definition disk_bytes :: "'k l2_store \<Rightarrow> u64" where
  "disk_bytes st = sum_list (map sg_byte_len (bs_segments st))"

fun iter_segments :: "serde_backend \<Rightarrow> (bytes \<Rightarrow> u32) \<Rightarrow> 'k l2_store \<Rightarrow> u64 \<Rightarrow> l2_segment list \<Rightarrow> (u64 \<times> event) list res" where
  "iter_segments S crc st from_seq [] = Inr []"
| "iter_segments S crc st from_seq (sg # sgs) =
     (if (case sg_max_seq sg of None \<Rightarrow> True | Some m \<Rightarrow> m < from_seq) then iter_segments S crc st from_seq sgs
      else
        rbind (ok_or (State ''l2-body: read'') (hm_get (bs_files st) (sg_start_seq sg))) (\<lambda>data.
        rbind (iter_records S crc data (hm_get (bs_metas st) (sg_start_seq sg)) (bs_kek st)) (\<lambda>items.
        rbind (collect_ok items) (\<lambda>recs.
        rbind (iter_segments S crc st from_seq sgs) (\<lambda>rest.
          Inr (filter (\<lambda>(seq, _). seq \<ge> from_seq) recs @ rest))))))"

definition iter_from :: "serde_backend \<Rightarrow> (bytes \<Rightarrow> u32) \<Rightarrow> u64 \<Rightarrow> 'k l2_store \<Rightarrow> (u64 \<times> event) list res" where
  "iter_from S crc from_seq st = iter_segments S crc st from_seq (bs_segments st)"

section \<open>Reading back what was framed\<close>

definition payload_ok :: "serde_backend \<Rightarrow> at_rest option \<Rightarrow> u64 \<times> bytes \<Rightarrow> (u64 \<times> event) res \<Rightarrow> bool" where
  "payload_ok S cipher f item \<longleftrightarrow>
     fits_u32 (snd f) \<and> (\<exists>ev. decode_payload S cipher (snd f) = Inr ev \<and> item = Inr (fst f, ev))"

abbreviation "frame_of crc \<equiv> \<lambda>(seq, payload). l2_frame crc seq payload"

lemma length_l2_frame [simp]: "length (l2_frame crc seq p) = 16 + length p"
  by (simp add: l2_frame_def Let_def)

lemma length_segment_header [simp]: "length segment_header = 12"
  by (simp add: segment_header_def segment_magic_def)

lemma l2_fields:
  assumes "data = pre @ take n (l2_frame crc seq p) @ post" and "16 \<le> n"
  shows "subslice data (length pre) (length pre + 8) = u64_to_le seq"
    and "subslice data (length pre + 8) (length pre + 12) = u32_to_le (crc (u32_to_le (of_nat (length p)) @ p))"
    and "subslice data (length pre + 12) (length pre + 16) = u32_to_le (of_nat (length p))"
proof -
  let ?A = "u64_to_le seq" and ?B = "u32_to_le (crc (u32_to_le (of_nat (length p)) @ p))" and ?L = "u32_to_le (of_nat (length p))"
  have "take n (l2_frame crc seq p) = ?A @ ?B @ ?L @ take (n - 16) p"
    using assms(2) by (simp add: l2_frame_def Let_def)
  then have data: "data = pre @ ?A @ ?B @ ?L @ take (n - 16) p @ post" using assms(1) by simp
  show "subslice data (length pre) (length pre + 8) = ?A" unfolding data by (rule slice_at) simp_all
  have "data = (pre @ ?A) @ ?B @ ?L @ take (n - 16) p @ post" by (simp add: data)
  then show "subslice data (length pre + 8) (length pre + 12) = ?B"
    using slice_at [of "length pre + 8" "pre @ ?A" "length pre + 12" ?B] by simp
  have "data = (pre @ ?A @ ?B) @ ?L @ take (n - 16) p @ post" by (simp add: data)
  then show "subslice data (length pre + 12) (length pre + 16) = ?L"
    using slice_at [of "length pre + 12" "pre @ ?A @ ?B" "length pre + 16" ?L] by simp
qed

lemma segment_records_frame:
  assumes "data = pre @ l2_frame crc seq p @ post" and "payload_ok S cipher (seq, p) item"
  shows "segment_records S crc cipher data (length pre) =
     item # segment_records S crc cipher data (length (pre @ l2_frame crc seq p))"
proof -
  have "data = pre @ take (16 + length p) (l2_frame crc seq p) @ post" using assms(1) by simp
  note f = l2_fields [OF this]
  let ?h = "u64_to_le seq @ u32_to_le (crc (u32_to_le (of_nat (length p)) @ p)) @ u32_to_le (of_nat (length p))"
  have "data = (pre @ ?h) @ p @ post" by (simp add: assms(1) l2_frame_def Let_def)
  then have "subslice data (length pre + 16) (length pre + 16 + length p) = p"
    using slice_at [of "length pre + 16" "pre @ ?h"] by simp
  then show ?thesis
    using f assms by (subst segment_records.simps) (auto simp: Let_def unat_len_u32 payload_ok_def add.assoc)
qed

lemma segment_records_torn:
  assumes "data = pre @ take n (l2_frame crc seq p) @ extra" and "fits_u32 p" and "n + length extra < 16 + length p"
    and "16 \<le> n \<or> extra = []"
  shows "segment_records S crc cipher data (length pre) = []"
proof (cases "16 \<le> n")
  case True
  have "\<not> length pre + 16 + length p \<le> length data" using assms(1,3) by (simp add: min_def)
  then show ?thesis
    using l2_fields [OF assms(1) True] assms(2) by (subst segment_records.simps) (simp add: Let_def unat_len_u32)
next
  case False
  then have "\<not> length pre + 16 \<le> length data" using assms(1,4) by simp
  then show ?thesis by (subst segment_records.simps) simp
qed

interpretation l2: framed_log "segment_records S crc cipher" "frame_of crc" "payload_ok S cipher" "\<lambda>f. fits_u32 (snd f)" 16
  for S crc cipher
proof
  fix data pre f post item
  show "segment_records S crc cipher data (length pre) = item # segment_records S crc cipher data (length (pre @ frame_of crc f))"
    if "data = pre @ frame_of crc f @ post" "payload_ok S cipher f item"
    using segment_records_frame [of data pre crc "fst f" "snd f" post S cipher item] that by (simp add: split_beta)
next
  fix data pre n f extra
  show "segment_records S crc cipher data (length pre) = []"
    if "data = pre @ take n (frame_of crc f) @ extra" "fits_u32 (snd f)" "n + length extra < length (frame_of crc f)"
      "16 \<le> n \<or> extra = []"
    using segment_records_torn [of data pre n crc "fst f" "snd f" extra S cipher] that by (simp add: split_beta)
next
  fix data
  show "segment_records S crc cipher data (length data) = []" by (subst segment_records.simps) simp
qed

definition seg_holds :: "serde_backend \<Rightarrow> (bytes \<Rightarrow> u32) \<Rightarrow> at_rest option \<Rightarrow> bytes \<Rightarrow> (u64 \<times> event) list \<Rightarrow> bool" where
  "seg_holds S crc cipher data recs \<longleftrightarrow> framed (frame_of crc) (payload_ok S cipher) segment_header data (map Inr recs)"

lemma collect_ok_map [simp]: "collect_ok (map Inr xs) = Inr xs"
  by (induction xs) simp_all

lemma seg_holds_header:
  assumes "seg_holds S crc cipher data recs"
  shows "12 \<le> length data \<and> subslice data 0 8 = segment_magic \<and> subslice data 8 10 = u16_to_le segment_version"
proof -
  obtain rest where d: "data = segment_magic @ u16_to_le segment_version @ u16_to_le 0 @ rest"
    using assms by (auto simp: seg_holds_def framed_def segment_header_def)
  have "length segment_magic = 8" by (simp add: segment_magic_def)
  then show ?thesis
    using slice_at [of 0 "[]" 8 segment_magic "u16_to_le segment_version @ u16_to_le 0 @ rest"]
      slice_at [of 8 segment_magic 10 "u16_to_le segment_version" "u16_to_le 0 @ rest"] by (simp add: d)
qed

lemma seg_holds_iter:
  assumes "seg_holds S crc cipher data recs" and "load_cipher_for meta kek = Inr cipher"
  shows "iter_records S crc data meta kek = Inr (map Inr recs)"
proof -
  have "segment_records S crc cipher data (length segment_header) = map Inr recs"
    using assms(1) by (intro l2.read_framed) (simp add: seg_holds_def)
  then show ?thesis using seg_holds_header [OF assms(1)] assms(2) by (simp add: iter_records_def)
qed

lemma seg_holds_open:
  assumes "seg_holds S crc cipher data recs" and "load_cipher_for meta kek = Inr cipher"
  shows "segment_open S crc start data meta kek =
     Inr \<lparr>sg_start_seq = start, sg_max_seq = last_seq recs, sg_byte_len = of_nat (length data), sg_encryptor = cipher\<rparr>"
  using seg_holds_header [OF assms(1)] seg_holds_iter [OF assms] assms(2) by (simp add: segment_open_def)

lemma seg_holds_new: "seg_holds S crc cipher segment_header []"
  by (simp add: seg_holds_def framed_Nil)

lemma seg_holds_append:
  assumes "seg_holds S crc cipher data recs" and "fits_u32 p" and "decode_payload S cipher p = Inr ev"
  shows "seg_holds S crc cipher (data @ l2_frame crc seq p) (recs @ [(seq, ev)])"
  using framed_snoc [where frame = "frame_of crc" and f = "(seq, p)" and r = "Inr (seq, ev)" and ok = "payload_ok S cipher"] assms
  by (simp add: seg_holds_def payload_ok_def)

section \<open>Store invariant\<close>

text \<open>
  \<open>logs\<close> lists, segment by segment, the records the files hold.  Sequence numbers increase through the
  whole store and stay below the next one.
\<close>

definition seg_ok :: "serde_backend \<Rightarrow> (bytes \<Rightarrow> u32) \<Rightarrow> (u64, bytes) hash_map \<Rightarrow> (u64, 'k) hash_map \<Rightarrow> 'k kek option
    \<Rightarrow> l2_segment \<Rightarrow> (u64 \<times> event) list \<Rightarrow> bool" where
  "seg_ok S crc files metas kek sg recs \<longleftrightarrow>
     (\<exists>data. hm_get files (sg_start_seq sg) = Some data \<and> seg_holds S crc (sg_encryptor sg) data recs \<and>
             sg_byte_len sg = of_nat (length data)) \<and>
     load_cipher_for (hm_get metas (sg_start_seq sg)) kek = Inr (sg_encryptor sg) \<and> sg_max_seq sg = last_seq recs"

definition l2_inv :: "serde_backend \<Rightarrow> (bytes \<Rightarrow> u32) \<Rightarrow> 'k l2_store \<Rightarrow> (u64 \<times> event) list list \<Rightarrow> bool" where
  "l2_inv S crc st logs \<longleftrightarrow>
     list_all2 (seg_ok S crc (bs_files st) (bs_metas st) (bs_kek st)) (bs_segments st) logs \<and>
     sorted_wrt (<) (map sg_start_seq (bs_segments st)) \<and> distinct (map fst (bs_files st)) \<and>
     set (map fst (bs_files st)) = set (map sg_start_seq (bs_segments st)) \<and>
     (\<forall>sg \<in> set (bs_segments st). sg_start_seq sg \<le> bs_next_seq st) \<and>
     sorted_wrt (<) (map fst (concat logs)) \<and> (\<forall>x \<in> set (concat logs). fst x < bs_next_seq st) \<and>
     (bs_kek st = None \<longrightarrow> bs_metas st = [])"

lemma seg_ok_frame:
  assumes "seg_ok S crc files metas kek sg recs" and "hm_get files' (sg_start_seq sg) = hm_get files (sg_start_seq sg)"
    and "hm_get metas' (sg_start_seq sg) = hm_get metas (sg_start_seq sg)"
  shows "seg_ok S crc files' metas' kek sg recs"
  using assms by (simp add: seg_ok_def)

lemma list_all2_seg_ok_frame:
  assumes "list_all2 (seg_ok S crc files metas kek) sgs logs"
    and "\<And>sg. sg \<in> set sgs \<Longrightarrow> hm_get files' (sg_start_seq sg) = hm_get files (sg_start_seq sg)"
    and "\<And>sg. sg \<in> set sgs \<Longrightarrow> hm_get metas' (sg_start_seq sg) = hm_get metas (sg_start_seq sg)"
  shows "list_all2 (seg_ok S crc files' metas' kek) sgs logs"
  using assms(1) by (rule list.rel_mono_strong) (use assms(2,3) seg_ok_frame in blast)

lemma sorted_last_seq:
  assumes "sorted_wrt (<) (map fst recs)" and "last_seq recs = Some m" and "(seq, ev) \<in> set recs"
  shows "seq \<le> m"
proof -
  have "recs \<noteq> []" "m = fst (last recs)" using assms(2) by (auto simp: last_seq_def split: if_splits)
  then obtain ys y where "recs = ys @ [y]" "m = fst y" by (metis last_snoc rev_exhaust)
  then show ?thesis using assms(1,3) by (auto simp: sorted_wrt_append)
qed

lemma iter_segments_logs:
  assumes "list_all2 (seg_ok S crc (bs_files st) (bs_metas st) (bs_kek st)) sgs logs" and "sorted_wrt (<) (map fst (concat logs))"
  shows "iter_segments S crc st n sgs = Inr (filter (\<lambda>(seq, _). seq \<ge> n) (concat logs))"
  using assms
proof (induction sgs logs rule: list_all2_induct)
  case (Cons sg sgs recs logs)
  obtain data where data: "hm_get (bs_files st) (sg_start_seq sg) = Some data" "seg_holds S crc (sg_encryptor sg) data recs"
    and c: "load_cipher_for (hm_get (bs_metas st) (sg_start_seq sg)) (bs_kek st) = Inr (sg_encryptor sg)"
    and m: "sg_max_seq sg = last_seq recs"
    using Cons.hyps(1) by (auto simp: seg_ok_def)
  have rest: "iter_segments S crc st n sgs = Inr (filter (\<lambda>(seq, _). seq \<ge> n) (concat logs))"
    and asc: "sorted_wrt (<) (map fst recs)"
    using Cons.IH Cons.prems by (simp_all add: sorted_wrt_append)
  show ?case
  proof (cases "case last_seq recs of None \<Rightarrow> True | Some m \<Rightarrow> m < n")
    case True
    have "filter (\<lambda>(seq, _). seq \<ge> n) recs = []"
    proof (cases "last_seq recs")
      case (Some m)
      then show ?thesis using True sorted_last_seq [OF asc Some] by (fastforce simp: filter_empty_conv)
    qed (simp add: last_seq_def split: if_splits)
    then show ?thesis using True rest m by simp
  next
    case False
    then show ?thesis using rest m data c seg_holds_iter [OF data(2) c] by simp
  qed
qed simp

lemma l2_inv_iter:
  "l2_inv S crc st logs \<Longrightarrow> iter_from S crc n st = Inr (filter (\<lambda>(seq, _). seq \<ge> n) (concat logs))"
  unfolding iter_from_def l2_inv_def by (intro iter_segments_logs) simp_all

section \<open>Appending\<close>

definition kek_ok :: "'k kek option \<Rightarrow> bool" where
  "kek_ok kek \<longleftrightarrow>
     (\<forall>k. kek = Some k \<longrightarrow>
        (\<forall>n wrapped c. kk_generate k n = Inr (wrapped, c) \<longrightarrow>
           kk_unwrap k wrapped = Inr c \<and> (\<forall>p q. ar_seal c p = Inr q \<longrightarrow> ar_open c q = Inr p)) \<and>
        (\<forall>wrapped c. kk_unwrap k wrapped = Inr c \<longrightarrow> (\<forall>p q. ar_seal c p = Inr q \<longrightarrow> ar_open c q = Inr p)))"

lemma take_io_frame [simp]:
  "take_io st = (io, st') \<Longrightarrow> bs_files st' = bs_files st \<and> bs_metas st' = bs_metas st \<and> bs_segments st' = bs_segments st \<and>
     bs_next_seq st' = bs_next_seq st \<and> bs_kek st' = bs_kek st \<and> bs_segment_bytes st' = bs_segment_bytes st \<and>
     bs_gc_min_hold st' = bs_gc_min_hold st \<and> bs_eligible_since st' = bs_eligible_since st"
  by (auto simp: take_io_def split: list.splits)

lemma segment_create_ok:
  assumes "segment_create start st = (Inr sg, st')"
  shows "hm_get (bs_files st) start = None \<and> bs_files st' = hm_insert start segment_header (bs_files st) \<and>
    bs_segments st' = bs_segments st \<and> bs_next_seq st' = bs_next_seq st \<and> bs_kek st' = bs_kek st \<and>
    (\<forall>s. s \<noteq> start \<longrightarrow> hm_get (bs_metas st') s = hm_get (bs_metas st) s) \<and>
    sg_start_seq sg = start \<and> sg_max_seq sg = None \<and> sg_byte_len sg = 12"
proof -
  obtain c st1 st2 where st1: "(case bs_kek st of None \<Rightarrow> (Inr None, st)
        | Some k \<Rightarrow> (case kk_generate k start of Inl e \<Rightarrow> (Inl e, st)
             | Inr (wrapped, c) \<Rightarrow> (Inr (Some c), st\<lparr>bs_metas := hm_insert start wrapped (bs_metas st)\<rparr>))) = (Inr c, st1)"
    and io: "take_io st1 = (IoOk, st2)" and none: "hm_get (bs_files st1) start = None"
    and sg: "sg = \<lparr>sg_start_seq = start, sg_max_seq = None, sg_byte_len = 12, sg_encryptor = c\<rparr>"
    and st': "st' = st2\<lparr>bs_files := hm_insert start segment_header (bs_files st2)\<rparr>"
    using assms unfolding segment_create_def Let_def
    by (auto split: prod.splits sum.splits if_splits l2_io.splits)
  have "bs_files st1 = bs_files st" "bs_segments st1 = bs_segments st" "bs_next_seq st1 = bs_next_seq st"
    "bs_kek st1 = bs_kek st" "\<forall>s. s \<noteq> start \<longrightarrow> hm_get (bs_metas st1) s = hm_get (bs_metas st) s"
    using st1 by (auto simp: update_conv' split: option.splits sum.splits)
  then show ?thesis using none take_io_frame [OF io] by (simp add: sg st')
qed

lemma segment_create_cipher:
  assumes "segment_create start st = (Inr sg, st')" and "kek_ok (bs_kek st)"
    and "bs_kek st = None \<Longrightarrow> hm_get (bs_metas st) start = None"
  shows "load_cipher_for (hm_get (bs_metas st') start) (bs_kek st') = Inr (sg_encryptor sg)"
proof -
  have kek: "bs_kek st' = bs_kek st" using segment_create_ok [OF assms(1)] by simp
  show ?thesis
  proof (cases "bs_kek st")
    case None
    then have "bs_metas st' = bs_metas st" "sg_encryptor sg = None"
      using assms(1) unfolding segment_create_def Let_def
      by (auto split: prod.splits l2_io.splits if_splits)
    then show ?thesis using None kek assms(3) by (simp add: load_cipher_for_def)
  next
    case (Some k)
    then obtain wrapped c where g: "kk_generate k start = Inr (wrapped, c)" "sg_encryptor sg = Some c"
      "hm_get (bs_metas st') start = Some wrapped"
      using assms(1) unfolding segment_create_def Let_def
      by (auto simp: update_conv' split: prod.splits sum.splits l2_io.splits if_splits)
    then have "kk_unwrap k wrapped = Inr c" using assms(2) Some by (auto simp: kek_ok_def)
    then show ?thesis using Some kek g by (simp add: load_cipher_for_def)
  qed
qed

lemma roll_segment_inv:
  assumes "l2_inv S crc st logs" and "kek_ok (bs_kek st)" and "roll_segment st = (Inr (), st1)"
  obtains logs1 where "l2_inv S crc st1 logs1" "logs1 \<noteq> []" "concat logs1 = concat logs" "bs_next_seq st1 = bs_next_seq st"
    "bs_kek st1 = bs_kek st"
proof (cases "need_new_segment st")
  case False
  then have "bs_segments st \<noteq> []" "st1 = st" using assms(3) by (auto simp: need_new_segment_def roll_segment_def)
  then have "logs \<noteq> []" using assms(1) by (auto simp: l2_inv_def)
  then show thesis using that assms(1) \<open>st1 = st\<close> by blast
next
  case True
  let ?n = "bs_next_seq st"
  obtain sg st0 where create: "segment_create ?n st = (Inr sg, st0)"
    and st1: "st1 = st0\<lparr>bs_segments := bs_segments st0 @ [sg]\<rparr>"
    using assms(3) True by (auto simp: roll_segment_def split: prod.splits sum.splits)
  note ok = segment_create_ok [OF create]
  have i: "list_all2 (seg_ok S crc (bs_files st) (bs_metas st) (bs_kek st)) (bs_segments st) logs"
    "sorted_wrt (<) (map sg_start_seq (bs_segments st))" "distinct (map fst (bs_files st))"
    "set (map fst (bs_files st)) = set (map sg_start_seq (bs_segments st))"
    "\<forall>sg \<in> set (bs_segments st). sg_start_seq sg \<le> ?n" "bs_kek st = None \<longrightarrow> bs_metas st = []"
    using assms(1) by (simp_all add: l2_inv_def)
  have "?n \<notin> set (map fst (bs_files st))" using ok by (simp add: map_of_eq_None_iff)
  then have new: "s \<noteq> ?n" if "s \<in> set (map sg_start_seq (bs_segments st))" for s using that i(4) by metis
  have starts: "sg_start_seq sg' < ?n" if "sg' \<in> set (bs_segments st)" for sg'
    using i(5) new that by (metis imageI list.set_map order_le_less)
  have eq: "bs_files st1 = hm_insert ?n segment_header (bs_files st)" "bs_metas st1 = bs_metas st0" "bs_kek st1 = bs_kek st"
    "bs_segments st1 = bs_segments st @ [sg]" "bs_next_seq st1 = ?n" "sg_start_seq sg = ?n"
    using ok by (simp_all add: st1)
  have fs: "hm_get (bs_files st1) s = hm_get (bs_files st) s" "hm_get (bs_metas st1) s = hm_get (bs_metas st) s" if "s \<noteq> ?n" for s
    using that ok by (simp_all add: eq update_conv')
  have old: "list_all2 (seg_ok S crc (bs_files st1) (bs_metas st1) (bs_kek st1)) (bs_segments st) logs"
    unfolding eq(3) using i(1) by (rule list_all2_seg_ok_frame) (use fs starts in \<open>metis less_irrefl\<close>)+
  have cip: "load_cipher_for (hm_get (bs_metas st0) ?n) (bs_kek st0) = Inr (sg_encryptor sg)"
    using segment_create_cipher [OF create assms(2)] i(6) by simp
  have "seg_ok S crc (bs_files st1) (bs_metas st1) (bs_kek st1) sg []"
    using ok cip seg_holds_new by (simp add: seg_ok_def st1 update_conv' last_seq_def)
  then have all: "list_all2 (seg_ok S crc (bs_files st1) (bs_metas st1) (bs_kek st1)) (bs_segments st1) (logs @ [[]])"
    using old by (simp add: eq(4) list_all2_appendI)
  have metas: "bs_kek st1 = None \<longrightarrow> bs_metas st1 = []"
    using create i(6) unfolding eq segment_create_def Let_def by (auto split: prod.splits l2_io.splits if_splits)
  have keys: "set (map fst (bs_files st1)) = insert ?n (set (map fst (bs_files st)))" "distinct (map fst (bs_files st1))"
    using i(3) by (simp_all only: eq(1) hm.set_keys hm.dom_lookup_insert hm.invar_insert)
  have "sorted_wrt (<) (map sg_start_seq (bs_segments st1))" "\<forall>sg \<in> set (bs_segments st1). sg_start_seq sg \<le> bs_next_seq st1"
    using i(2,5) starts by (auto simp: eq sorted_wrt_append)
  moreover have "set (map fst (bs_files st1)) = set (map sg_start_seq (bs_segments st1))"
    using keys(1) i(4) by (simp add: eq(4,6))
  ultimately have "l2_inv S crc st1 (logs @ [[]])"
    unfolding l2_inv_def using all keys(2) metas assms(1) by (simp add: l2_inv_def eq(5))
  then show thesis using that [of "logs @ [[]]"] ok by (simp add: st1)
qed

lemma seal_event_decodes:
  assumes "serde_roundtrips S" and "kek_ok kek" and "load_cipher_for meta kek = Inr cipher" and "seal_event S cipher ev = Inr p"
  shows "fits_u32 p \<and> decode_payload S cipher p = Inr (strip_event ev)"
proof -
  obtain plain where plain: "encode_event S MsgPack ev = Inr plain"
    and sealed: "(case cipher of Some c \<Rightarrow> ar_seal c plain | None \<Rightarrow> Inr plain) = Inr p" and fits: "fits_u32 p"
    using assms(4) by (auto simp: seal_event_def rbind_Inr_conv fits_u32_def split: sum.splits if_splits)
  have "open_payload cipher p = Inr plain"
  proof (cases cipher)
    case (Some c)
    then obtain k wrapped where "kek = Some k" "kk_unwrap k wrapped = Inr c"
      using assms(3) by (auto simp: load_cipher_for_def rbind_Inr_conv split: option.splits)
    then show ?thesis using assms(2) sealed Some by (auto simp: kek_ok_def open_payload_def)
  qed (use sealed in \<open>simp add: open_payload_def\<close>)
  then show ?thesis
    using fits decode_encode_event [OF assms(1) plain] by (simp add: decode_payload_def)
qed

lemma l2_inv_io: "take_io st = (io, st') \<Longrightarrow> l2_inv S crc st' logs = l2_inv S crc st logs"
  by (drule take_io_frame) (simp add: l2_inv_def)

lemma l2_inv_extend:
  assumes "l2_inv S crc st (logs0 @ [recs])" and segs: "bs_segments st = sgs @ [sg]" and "seq = bs_next_seq st" and "seq \<noteq> -1"
    and data: "hm_get (bs_files st) (sg_start_seq sg) = Some data"
    and p: "fits_u32 p" "decode_payload S (sg_encryptor sg) p = Inr ev"
  shows "l2_inv S crc (st\<lparr>bs_files := hm_insert (sg_start_seq sg) (data @ l2_frame crc seq p) (bs_files st),
      bs_segments := sgs @ [sg\<lparr>sg_max_seq := Some seq, sg_byte_len := sg_byte_len sg + 16 + of_nat (length p)\<rparr>],
      bs_next_seq := seq + 1\<rparr>) (logs0 @ [recs @ [(seq, ev)]])"
proof -
  let ?files = "hm_insert (sg_start_seq sg) (data @ l2_frame crc seq p) (bs_files st)"
  let ?sg = "sg\<lparr>sg_max_seq := Some seq, sg_byte_len := sg_byte_len sg + 16 + of_nat (length p)\<rparr>"
  have i: "list_all2 (seg_ok S crc (bs_files st) (bs_metas st) (bs_kek st)) (bs_segments st) (logs0 @ [recs])"
    "sorted_wrt (<) (map sg_start_seq (bs_segments st))" "distinct (map fst (bs_files st))"
    "set (map fst (bs_files st)) = set (map sg_start_seq (bs_segments st))"
    "sorted_wrt (<) (map fst (concat (logs0 @ [recs])))" "\<forall>x \<in> set (concat (logs0 @ [recs])). fst x < seq"
    "\<forall>sg \<in> set (bs_segments st). sg_start_seq sg \<le> seq" "bs_kek st = None \<longrightarrow> bs_metas st = []"
    using assms(1,3) by (simp_all add: l2_inv_def)
  have ok: "list_all2 (seg_ok S crc (bs_files st) (bs_metas st) (bs_kek st)) sgs logs0"
    "seg_ok S crc (bs_files st) (bs_metas st) (bs_kek st) sg recs"
    using i(1) by (auto simp: segs list_all2_append2 dest: list_all2_lengthD)
  have starts: "sg_start_seq sg \<noteq> sg_start_seq sg'" if "sg' \<in> set sgs" for sg'
    using i(2) that by (auto simp: segs sorted_wrt_append)
  have old: "list_all2 (seg_ok S crc ?files (bs_metas st) (bs_kek st)) sgs logs0"
    using ok(1) by (rule list_all2_seg_ok_frame) (drule starts, simp add: update_conv', rule refl)
  have "seg_holds S crc (sg_encryptor sg) (data @ l2_frame crc seq p) (recs @ [(seq, ev)])"
    using ok(2) data p by (intro seg_holds_append) (auto simp: seg_ok_def)
  then have new: "seg_ok S crc ?files (bs_metas st) (bs_kek st) ?sg (recs @ [(seq, ev)])"
    using ok(2) data by (simp add: seg_ok_def update_conv' last_seq_def)
  have keys: "set (map fst ?files) = set (map sg_start_seq (sgs @ [?sg]))" "distinct (map fst ?files)"
    using i(3,4) data by (auto simp only: hm.set_keys hm.dom_lookup_insert hm.invar_insert segs) auto
  have above: "s < seq + 1" if "s \<le> seq" for s using le_less_succ [OF that assms(4)] .
  have lt: "fst x < seq" if "x \<in> set (concat (logs0 @ [recs]))" for x
    using i(6) that by blast
  have cat: "concat (logs0 @ [recs @ [(seq, ev)]]) = concat (logs0 @ [recs]) @ [(seq, ev)]" by simp
  have "sorted_wrt (<) (map fst (concat (logs0 @ [recs @ [(seq, ev)]])))"
    unfolding cat map_append sorted_wrt_append using i(5) lt by (simp del: concat_append)
  moreover have "\<forall>x \<in> set (concat (logs0 @ [recs @ [(seq, ev)]])). fst x < seq + 1"
    unfolding cat using lt above [OF less_imp_le] above [OF order_refl] by (simp add: ball_Un del: concat_append)
  moreover have "\<forall>sg \<in> set (sgs @ [?sg]). sg_start_seq sg \<le> seq + 1"
    using i(7) above by (auto simp: segs intro: less_imp_le)
  moreover have "sorted_wrt (<) (map sg_start_seq (sgs @ [?sg]))" using i(2) by (simp add: segs)
  ultimately show ?thesis
    using old new keys i(8) by (simp add: l2_inv_def list_all2_appendI)
qed

lemma l2_append_inv:
  assumes "l2_inv S crc st logs" and "kek_ok (bs_kek st)" and "serde_roundtrips S" and "bs_next_seq st \<noteq> -1"
    and "l2_append S crc ev st = (Inr seq, st')"
  obtains logs' where "l2_inv S crc st' logs'" "concat logs' = concat logs @ [(seq, strip_event ev)]" "seq = bs_next_seq st"
    "bs_next_seq st' = seq + 1" "bs_kek st' = bs_kek st"
proof -
  obtain st1 where roll: "roll_segment st = (Inr (), st1)"
    using assms(5) by (auto simp: l2_append_def split: prod.splits sum.splits)
  obtain logs1 where i1: "l2_inv S crc st1 logs1" and ne: "logs1 \<noteq> []" and eq1: "concat logs1 = concat logs"
    "bs_next_seq st1 = bs_next_seq st" "bs_kek st1 = bs_kek st"
    by (rule roll_segment_inv [OF assms(1,2) roll]) blast
  have all: "list_all2 (seg_ok S crc (bs_files st1) (bs_metas st1) (bs_kek st1)) (bs_segments st1) logs1"
    using i1 by (simp add: l2_inv_def)
  obtain sgs sg logs0 recs where segs: "bs_segments st1 = sgs @ [sg]" and logs1: "logs1 = logs0 @ [recs]"
    using ne all by (metis list_all2_Nil rev_exhaust list_all2_Nil2)
  have "seg_ok S crc (bs_files st1) (bs_metas st1) (bs_kek st1) sg recs"
    using all by (auto simp: segs logs1 list_all2_append2 dest: list_all2_lengthD)
  then obtain data where data: "hm_get (bs_files st1) (sg_start_seq sg) = Some data"
    and cip: "load_cipher_for (hm_get (bs_metas st1) (sg_start_seq sg)) (bs_kek st1) = Inr (sg_encryptor sg)"
    by (auto simp: seg_ok_def)
  obtain io st2 where io: "take_io st1 = (io, st2)" by force
  note fr = take_io_frame [OF io]
  obtain p where p: "seal_event S (sg_encryptor sg) ev = Inr p" and seq: "seq = bs_next_seq st"
    and st': "st' = st2\<lparr>bs_files := hm_insert (sg_start_seq sg) (data @ l2_frame crc seq p) (bs_files st2),
       bs_segments := sgs @ [sg\<lparr>sg_max_seq := Some seq, sg_byte_len := sg_byte_len sg + 16 + of_nat (length p)\<rparr>],
       bs_next_seq := seq + 1\<rparr>"
    using assms(5) roll io fr segs data
    by (auto simp: l2_append_def segment_append_def Let_def split: sum.splits l2_io.splits if_splits)
  have dec: "fits_u32 p" "decode_payload S (sg_encryptor sg) p = Inr (strip_event ev)"
    using seal_event_decodes [OF assms(3) _ cip p] assms(2) eq1(3) by simp_all
  have "l2_inv S crc st2 (logs0 @ [recs])" using i1 by (simp add: l2_inv_io [OF io] logs1)
  then have "l2_inv S crc st' (logs0 @ [recs @ [(seq, strip_event ev)]])"
    unfolding st' using fr segs data seq eq1(2) assms(4) dec by (intro l2_inv_extend) simp_all
  moreover have "concat (logs0 @ [recs @ [(seq, strip_event ev)]]) = concat logs @ [(seq, strip_event ev)]"
    using eq1(1) by (simp add: logs1)
  ultimately show thesis using that seq fr eq1(3) by (simp add: st')
qed

section \<open>Reopening\<close>

fun next_after :: "(u64 \<times> event) list list \<Rightarrow> u64 \<Rightarrow> u64" where
  "next_after [] n = n"
| "next_after (recs # logs) n = next_after logs (case last_seq recs of None \<Rightarrow> n | Some m \<Rightarrow> max (m + 1) n)"

lemma open_segments_ok:
  "list_all2 (seg_ok S crc files metas kek) sgs logs \<Longrightarrow>
     open_segments S crc files metas kek (map sg_start_seq sgs) n = Inr (sgs, next_after logs n)"
proof (induction sgs logs arbitrary: n rule: list_all2_induct)
  case (Cons sg sgs recs logs)
  obtain data where data: "hm_get files (sg_start_seq sg) = Some data" "seg_holds S crc (sg_encryptor sg) data recs"
    "sg_byte_len sg = of_nat (length data)"
    and c: "load_cipher_for (hm_get metas (sg_start_seq sg)) kek = Inr (sg_encryptor sg)" and m: "sg_max_seq sg = last_seq recs"
    using Cons.hyps(1) by (auto simp: seg_ok_def)
  have "segment_open S crc (sg_start_seq sg) data (hm_get metas (sg_start_seq sg)) kek = Inr sg"
    unfolding seg_holds_open [OF data(2) c] using data(3) m by simp
  then show ?case using Cons.IH data(1) m by simp
qed simp

lemma last_seq_append: "last_seq (xs @ ys) = (if ys = [] then last_seq xs else last_seq ys)"
  by (simp add: last_seq_def)

lemma next_after_last:
  assumes "sorted_wrt (<) (map fst (concat logs))" and "\<forall>x \<in> set (concat logs). fst x < b"
  shows "next_after logs n = (case last_seq (concat logs) of None \<Rightarrow> n | Some m \<Rightarrow> max (m + 1) n)"
  using assms
proof (induction logs arbitrary: n)
  case (Cons recs logs)
  have ih: "next_after logs k = (case last_seq (concat logs) of None \<Rightarrow> k | Some m \<Rightarrow> max (m + 1) k)" for k
    using Cons.IH Cons.prems by (auto simp: sorted_wrt_append)
  show ?case
  proof (cases "concat logs = [] \<or> recs = []")
    case True
    then show ?thesis by (auto simp: ih last_seq_def split: option.splits)
  next
    case False
    then obtain m1 m2 where m: "last_seq recs = Some m1" "last_seq (concat logs) = Some m2"
      "m1 = fst (last recs)" "m2 = fst (last (concat logs))" by (auto simp: last_seq_def)
    have "last recs \<in> set recs" "last (concat logs) \<in> set (concat logs)" using False last_in_set by blast+
    then have "m1 < m2" "m2 < b"
      using Cons.prems m(3,4) by (auto simp: sorted_wrt_append)
    then have "m2 \<noteq> -1" using word_order.extremum_strict [of b] by metis
    then have "m1 + 1 \<le> m2" "m2 < m2 + 1" using inc_le [OF \<open>m1 < m2\<close>] le_less_succ [of m2 m2] by simp_all
    then have "m1 + 1 \<le> m2 + 1" by order
    then have "max (m2 + 1) (max (m1 + 1) n) = max (m2 + 1) n" by (metis max.absorb1 max.assoc)
    moreover have "last_seq (recs @ concat logs) = Some m2" using m(2) False by (metis last_seq_append)
    ultimately show ?thesis using m(1,2) by (simp add: ih)
  qed
qed (simp add: last_seq_def)

lemma l2_reopen:
  assumes "l2_inv S crc st logs"
  shows "l2_open S crc (bs_files st) (bs_metas st) segb (bs_kek st) hold io =
    Inr \<lparr>bs_files = bs_files st, bs_metas = bs_metas st, bs_segments = bs_segments st,
         bs_next_seq = (case last_seq (concat logs) of None \<Rightarrow> 0 | Some m \<Rightarrow> m + 1),
         bs_eligible_since = [], bs_segment_bytes = segb, bs_kek = bs_kek st, bs_gc_min_hold = hold, bs_io = io\<rparr>"
proof -
  have i: "list_all2 (seg_ok S crc (bs_files st) (bs_metas st) (bs_kek st)) (bs_segments st) logs"
    "sorted_wrt (<) (map sg_start_seq (bs_segments st))" "distinct (map fst (bs_files st))"
    "set (map fst (bs_files st)) = set (map sg_start_seq (bs_segments st))" "sorted_wrt (<) (map fst (concat logs))"
    "\<forall>x \<in> set (concat logs). fst x < bs_next_seq st"
    using assms by (simp_all add: l2_inv_def)
  have "sort (map fst (bs_files st)) = map sg_start_seq (bs_segments st)"
    using i(2-4) by (intro sorted_distinct_set_unique) (simp_all add: strict_sorted_iff)
  moreover have "next_after logs 0 = (case last_seq (concat logs) of None \<Rightarrow> 0 | Some m \<Rightarrow> m + 1)"
    using next_after_last [OF i(5,6), of 0] by (simp add: max_def split: option.splits)
  ultimately show ?thesis using open_segments_ok [OF i(1), of 0] by (simp add: l2_open_def)
qed

fun l2_append_all :: "serde_backend \<Rightarrow> (bytes \<Rightarrow> u32) \<Rightarrow> event list \<Rightarrow> 'k l2_store \<Rightarrow> u64 list res \<times> 'k l2_store" where
  "l2_append_all S crc [] st = (Inr [], st)"
| "l2_append_all S crc (ev # evs) st =
     (case l2_append S crc ev st of
        (Inl e, st') \<Rightarrow> (Inl e, st')
      | (Inr seq, st') \<Rightarrow> (case l2_append_all S crc evs st' of
                            (Inl e, st'') \<Rightarrow> (Inl e, st'')
                          | (Inr seqs, st'') \<Rightarrow> (Inr (seq # seqs), st'')))"

lemma of_nat_ne_minus_one: "k < 2 ^ 64 - 1 \<Longrightarrow> of_nat k \<noteq> (-1 :: u64)"
proof
  assume k: "k < 2 ^ 64 - 1" and eq: "of_nat k = (-1 :: u64)"
  have "(of_nat (Suc k) :: u64) = 0" using eq by simp
  then have "2 ^ 64 dvd Suc k" unfolding word_of_nat_eq_0_iff by simp
  then show False using k dvd_imp_le [of "2 ^ 64" "Suc k"] by simp
qed

lemma l2_append_all_inv:
  assumes "serde_roundtrips S"
  shows "l2_append_all S crc evs st = (Inr seqs, st') \<Longrightarrow> l2_inv S crc st logs \<Longrightarrow> kek_ok (bs_kek st) \<Longrightarrow>
    bs_next_seq st = of_nat k \<Longrightarrow> k + length evs < 2 ^ 64 \<Longrightarrow>
    \<exists>logs'. l2_inv S crc st' logs' \<and> concat logs' = concat logs @ zip seqs (map strip_event evs) \<and>
      seqs = map of_nat [k..<k + length evs] \<and> bs_next_seq st' = of_nat (k + length evs) \<and> bs_kek st' = bs_kek st"
proof (induction evs arbitrary: st seqs logs k)
  case (Cons ev evs)
  obtain s1 st1 seqs1 where step: "l2_append S crc ev st = (Inr s1, st1)" and rest: "l2_append_all S crc evs st1 = (Inr seqs1, st')"
    and seqs: "seqs = s1 # seqs1"
    using Cons.prems(1) by (auto split: prod.splits sum.splits)
  have "bs_next_seq st \<noteq> -1" using Cons.prems(4,5) of_nat_ne_minus_one [of k] by simp
  then obtain logs1 where l1: "l2_inv S crc st1 logs1" "concat logs1 = concat logs @ [(s1, strip_event ev)]" "s1 = bs_next_seq st"
    "bs_next_seq st1 = s1 + 1" "bs_kek st1 = bs_kek st"
    using l2_append_inv [OF Cons.prems(2,3) assms _ step] by blast
  have "bs_next_seq st1 = of_nat (Suc k)" using l1(3,4) Cons.prems(4) by simp
  from Cons.IH [OF rest l1(1) _ this] obtain logs' where "l2_inv S crc st' logs'"
    "concat logs' = concat logs1 @ zip seqs1 (map strip_event evs)" "seqs1 = map of_nat [Suc k..<Suc k + length evs]"
    "bs_next_seq st' = of_nat (Suc k + length evs)" "bs_kek st' = bs_kek st1"
    using Cons.prems(3,5) l1(5) by auto
  then show ?case
    using l1 seqs Cons.prems(4) by (intro exI [of _ logs']) (simp add: upt_conv_Cons del: upt_Suc of_nat_Suc)
qed auto

section \<open>Garbage collection\<close>

lemma l2_inv_drop_first:
  assumes "l2_inv S crc st (recs # logs)" and segs: "bs_segments st = sg # sgs" and "sgs \<noteq> []"
  shows "l2_inv S crc (st\<lparr>bs_files := hm_remove (sg_start_seq sg) (bs_files st), bs_segments := sgs, bs_eligible_since := el\<rparr>) logs"
proof -
  have i: "list_all2 (seg_ok S crc (bs_files st) (bs_metas st) (bs_kek st)) sgs logs"
    "sorted_wrt (<) (map sg_start_seq (sg # sgs))" "distinct (map fst (bs_files st))"
    "set (map fst (bs_files st)) = set (map sg_start_seq (sg # sgs))"
    using assms(1) by (simp_all add: l2_inv_def segs)
  have starts: "sg_start_seq sg \<noteq> sg_start_seq sg'" if "sg' \<in> set sgs" for sg' using i(2) that by auto
  have all: "list_all2 (seg_ok S crc (hm_remove (sg_start_seq sg) (bs_files st)) (bs_metas st) (bs_kek st)) sgs logs"
    using i(1) by (rule list_all2_seg_ok_frame) (drule starts, simp add: delete_conv', rule refl)
  have "set (map fst (hm_remove (sg_start_seq sg) (bs_files st))) = set (map fst (bs_files st)) - {sg_start_seq sg}"
    by (auto simp: AList.delete_eq)
  also have "sg_start_seq sg \<notin> set (map sg_start_seq sgs)" using i(2) by force
  then have "set (map fst (bs_files st)) - {sg_start_seq sg} = set (map sg_start_seq sgs)" using i(4) by auto
  finally have keys: "set (map fst (hm_remove (sg_start_seq sg) (bs_files st))) = set (map sg_start_seq sgs)" .
  have "distinct (map fst (hm_remove (sg_start_seq sg) (bs_files st)))" using i(3) by (rule hm.invar_remove)
  then show ?thesis using assms(1) all keys by (auto simp: l2_inv_def segs sorted_wrt_append)
qed

text \<open>One sweep step over an eligible first segment.\<close>

definition gc_stamp :: "instant \<Rightarrow> u64 \<Rightarrow> 'k l2_store \<Rightarrow> instant" where
  "gc_stamp now start st = (case hm_get (bs_eligible_since st) start of None \<Rightarrow> now | Some t \<Rightarrow> t)"

definition gc_mark :: "instant \<Rightarrow> u64 \<Rightarrow> 'k l2_store \<Rightarrow> 'k l2_store" where
  "gc_mark now start st = (if bs_gc_min_hold st = 0 then st
     else st\<lparr>bs_eligible_since := hm_insert start (gc_stamp now start st) (bs_eligible_since st)\<rparr>)"

definition gc_drop :: "u64 \<Rightarrow> 'k l2_store \<Rightarrow> 'k l2_store" where
  "gc_drop start st = st\<lparr>bs_files := hm_remove start (bs_files st), bs_segments := tl (bs_segments st),
     bs_eligible_since := hm_remove start (bs_eligible_since st)\<rparr>"

lemma gc_mark_inv: "take_io (gc_mark now start st) = (io, st') \<Longrightarrow> l2_inv S crc st logs \<Longrightarrow>
    l2_inv S crc (gc_mark now start st) logs \<and> l2_inv S crc st' logs \<and> bs_segments st' = bs_segments st \<and>
    bs_next_seq st' = bs_next_seq st \<and> bs_next_seq (gc_mark now start st) = bs_next_seq st \<and>
    bs_kek st' = bs_kek st \<and> bs_kek (gc_mark now start st) = bs_kek st"
  using l2_inv_io [of "gc_mark now start st" io st'] take_io_frame [of "gc_mark now start st" io st']
  by (auto simp: gc_mark_def l2_inv_def)

lemma gc_loop_eligible:
  assumes "bs_segments st = sg # sg2 # sgs" "sg_max_seq sg = Some m" "m < min_ack"
    "take_io (gc_mark now (sg_start_seq sg) st) = (io, st2)"
  shows "gc_loop min_ack now st k =
     (if bs_gc_min_hold st = 0 \<or> now - gc_stamp now (sg_start_seq sg) st \<ge> bs_gc_min_hold st
      then (case io of IoFail _ \<Rightarrow> (Inl (State ''l2-body: gc remove''), st2)
                     | IoOk \<Rightarrow> gc_loop min_ack now (gc_drop (sg_start_seq sg) st2) (k + 1))
      else (Inr k, gc_mark now (sg_start_seq sg) st))"
proof -
  have "bs_segments st2 = sg # sg2 # sgs" using take_io_frame [OF assms(4)] assms(1) by (simp add: gc_mark_def split: if_splits)
  then show ?thesis
    using assms unfolding gc_mark_def gc_stamp_def gc_drop_def
    by (subst gc_loop.simps) (simp add: Let_def split: l2_io.splits)
qed

lemma gc_loop_inv:
  "l2_inv S crc st logs \<Longrightarrow> gc_loop min_ack now st k = (r, st') \<Longrightarrow>
     \<exists>dropped kept. logs = dropped @ kept \<and> l2_inv S crc st' kept \<and> (\<forall>x \<in> set (concat dropped). fst x < min_ack) \<and>
       bs_next_seq st' = bs_next_seq st \<and> bs_kek st' = bs_kek st \<and> (logs \<noteq> [] \<longrightarrow> kept \<noteq> [])"
proof (induction "length (bs_segments st)" arbitrary: st logs k rule: less_induct)
  case less
  have stays: ?case if "l2_inv S crc st' logs" "bs_next_seq st' = bs_next_seq st" "bs_kek st' = bs_kek st"
    using that by (intro exI [of _ "[]"] exI [of _ logs]) auto
  show ?case
  proof (cases "\<exists>sg sg2 sgs m. bs_segments st = sg # sg2 # sgs \<and> sg_max_seq sg = Some m \<and> m < min_ack")
    case False
    then have "st' = st" using less.prems(2)
      by (subst (asm) gc_loop.simps) (auto split: list.splits option.splits if_splits)
    then show ?thesis using stays less.prems(1) by simp
  next
    case True
    then obtain sg sg2 sgs m where segs: "bs_segments st = sg # sg2 # sgs" and m: "sg_max_seq sg = Some m" "m < min_ack" by blast
    obtain io st2 where io: "take_io (gc_mark now (sg_start_seq sg) st) = (io, st2)" by force
    note mark = gc_mark_inv [OF io less.prems(1)]
    obtain recs logs1 where logs: "logs = recs # logs1" "last_seq recs = Some m"
      using less.prems(1) segs m(1) by (cases logs) (auto simp: l2_inv_def seg_ok_def)
    consider (stop) "l2_inv S crc st' logs" "bs_next_seq st' = bs_next_seq st" "bs_kek st' = bs_kek st"
      | (go) "gc_loop min_ack now (gc_drop (sg_start_seq sg) st2) (k + 1) = (r, st')"
      using less.prems(2) mark unfolding gc_loop_eligible [OF segs m io] by (auto split: if_splits l2_io.splits)
    then show ?thesis
    proof cases
      case go
      let ?st3 = "gc_drop (sg_start_seq sg) st2"
      have inv3: "l2_inv S crc ?st3 logs1"
        using l2_inv_drop_first [of S crc st2 recs logs1 sg "sg2 # sgs"] mark by (simp add: gc_drop_def segs logs)
      have "length (bs_segments ?st3) < length (bs_segments st)" using mark by (simp add: gc_drop_def segs)
      from less.hyps [OF this inv3 go] obtain dr kept where ih: "logs1 = dr @ kept" "l2_inv S crc st' kept"
        "\<forall>x \<in> set (concat dr). fst x < min_ack" "bs_next_seq st' = bs_next_seq ?st3" "bs_kek st' = bs_kek ?st3" "logs1 \<noteq> [] \<longrightarrow> kept \<noteq> []" by blast
      have asc: "sorted_wrt (<) (map fst recs)" using less.prems(1) by (simp add: l2_inv_def logs sorted_wrt_append)
      have "fst x < min_ack" if "x \<in> set recs" for x
        using sorted_last_seq [OF asc logs(2), of "fst x" "snd x"] that m(2) by simp
      moreover have "logs1 \<noteq> []" using less.prems(1) segs by (auto simp: l2_inv_def logs)
      ultimately show ?thesis
        using ih mark by (intro exI [of _ "recs # dr"] exI [of _ kept]) (auto simp: logs gc_drop_def)
    qed (rule stays)
  qed
qed

lemma l2_open_empty_inv:
  assumes "l2_open S crc [] [] segb kek hold io = Inr st"
  shows "l2_inv S crc st [] \<and> bs_next_seq st = 0 \<and> bs_kek st = kek"
  using assms by (auto simp: l2_open_def l2_inv_def)

lemma gc_keeps:
  assumes "l2_inv S crc st logs" and "gc_up_to_at min_ack now st = (r, st')" and "min_ack \<le> n"
  shows "\<exists>kept. l2_inv S crc st' kept \<and> bs_kek st' = bs_kek st \<and>
    filter (\<lambda>(seq, _). seq \<ge> n) (concat kept) = filter (\<lambda>(seq, _). seq \<ge> n) (concat logs)"
proof -
  obtain dropped kept where d: "logs = dropped @ kept" "l2_inv S crc st' kept"
    "\<forall>x \<in> set (concat dropped). fst x < min_ack" "bs_kek st' = bs_kek st"
    using gc_loop_inv [OF assms(1) assms(2) [unfolded gc_up_to_at_def]] by blast
  have "filter (\<lambda>(seq, _). seq \<ge> n) (concat dropped) = []"
    using d(3) assms(3) by (fastforce simp: filter_empty_conv)
  then show ?thesis using d by auto
qed

section \<open>Durability\<close>

text \<open>
  C8: bodies appended to a fresh partition store are still there after a sweep and a restart.  Whatever
  the sweep does (the hold time may keep segments, a removal may fail half way), reopening the directory
  succeeds and reading from any position at or above the acknowledged watermark returns exactly the
  appended events from that position on, under the sequence numbers 0, 1, 2, ... the appends returned.
\<close>

theorem l2_events_survive_gc_and_restart:
  assumes "serde_roundtrips S" and "kek_ok kek" and "length evs < 2 ^ 64"
    and "l2_open S crc [] [] segb kek hold io = Inr st0" and "l2_append_all S crc evs st0 = (Inr seqs, st1)"
    and "gc_up_to_at min_ack now st1 = (r, st2)" and "min_ack \<le> n"
  shows "rbind (l2_open S crc (bs_files st2) (bs_metas st2) segb kek hold io') (iter_from S crc n) =
    Inr (filter (\<lambda>(seq, _). seq \<ge> n) (zip (map of_nat [0..<length evs]) (map strip_event evs)))"
proof -
  note fresh = l2_open_empty_inv [OF assms(4)]
  obtain logs where l1: "l2_inv S crc st1 logs" "concat logs = zip seqs (map strip_event evs)"
    "seqs = map of_nat [0..<length evs]" "bs_kek st1 = kek"
    using l2_append_all_inv [OF assms(1,5), of "[]" 0] fresh assms(2,3) by auto
  obtain kept where k: "l2_inv S crc st2 kept" "bs_kek st2 = kek"
    "filter (\<lambda>(seq, _). seq \<ge> n) (concat kept) = filter (\<lambda>(seq, _). seq \<ge> n) (concat logs)"
    using gc_keeps [OF l1(1) assms(6,7)] l1(4) by auto
  obtain st3 where st3: "l2_open S crc (bs_files st2) (bs_metas st2) segb kek hold io' = Inr st3"
    and inv3: "bs_files st3 = bs_files st2" "bs_metas st3 = bs_metas st2" "bs_segments st3 = bs_segments st2" "bs_kek st3 = kek"
    using l2_reopen [OF k(1), of segb hold io'] k(2) by simp
  have "iter_from S crc n st3 = Inr (filter (\<lambda>(seq, _). seq \<ge> n) (concat kept))"
    using k(1,2) unfolding iter_from_def by (intro iter_segments_logs) (simp_all add: inv3 l2_inv_def)
  then show ?thesis using st3 k(3) l1(2,3) by simp
qed

definition sample_l2 :: "unit l2_store" where
  "sample_l2 = \<lparr>bs_files = [], bs_metas = [], bs_segments = [], bs_next_seq = 0, bs_eligible_since = [],
     bs_segment_bytes = 1, bs_kek = None, bs_gc_min_hold = 0, bs_io = []\<rparr>"

lemma sample_seal: "\<exists>p. seal_event byte_serde None sample_event = Inr p \<and> 1 \<le> (28 + of_nat (length p) :: u64)"
  by (simp add: seal_event_def encode_event_def byte_serde_def sample_event_def event_new_def wire_of_event_def
      enc_wire_event_def codec_eval)

lemma sample_l2_run:
  "\<exists>st1 st2. l2_append_all byte_serde sum_crc [sample_event, sample_event] sample_l2 = (Inr [0, 1], st1) \<and>
     gc_up_to_at 1 0 st1 = (Inr 1, st2)"
proof -
  obtain p where p: "seal_event byte_serde None sample_event = Inr p" "1 \<le> (28 + of_nat (length p) :: u64)"
    using sample_seal by blast
  show ?thesis
    by (simp add: sample_l2_def l2_append_def roll_segment_def need_new_segment_def segment_create_def take_io_def
        segment_append_def p effective_segment_bytes_def gc_up_to_at_def gc_loop.simps)
qed

theorem l2_events_survive_gc_and_restart_witness:
  "\<exists>st1 st2. l2_append_all byte_serde sum_crc [sample_event, sample_event] sample_l2 = (Inr [0, 1], st1) \<and>
     gc_up_to_at 1 0 st1 = (Inr 1, st2) \<and>
     rbind (l2_open byte_serde sum_crc (bs_files st2) (bs_metas st2) 1 None 0 []) (iter_from byte_serde sum_crc 1) =
       Inr [(1, strip_event sample_event)]"
proof -
  obtain st1 st2 where run: "l2_append_all byte_serde sum_crc [sample_event, sample_event] sample_l2 = (Inr [0, 1], st1)"
    "gc_up_to_at 1 0 st1 = (Inr 1, st2)" using sample_l2_run by blast
  have "l2_open byte_serde sum_crc [] [] 1 None 0 [] = Inr sample_l2" by (simp add: l2_open_def sample_l2_def)
  moreover have "kek_ok (None :: unit kek option)" by (simp add: kek_ok_def)
  ultimately show ?thesis
    using l2_events_survive_gc_and_restart [OF byte_serde_roundtrips _ _ _ run, of None 1 0 "[]" 1 "[]"] run
    by (simp add: upt_rec)
qed

end
