(* ===== verification/Backpressure.thy ===== *)
theory Backpressure
  imports Aeon_Types
begin

text \<open>
  \<open>aeon-engine/src/eo2_backpressure.rs\<close>: the three nested capacity limits on L2 bytes and the remedy a
  source must apply.  The node counter is shared by every pipeline of the node, so it is threaded next to
  the state of a pipeline.  Counters are \<open>u64\<close>: additions saturate, the 95 percent tests multiply and
  wrap.
\<close>

text \<open>A signed delta is added or its negation subtracted.\<close>

definition adjust_bytes :: "i64 \<Rightarrow> u64 \<Rightarrow> u64" where
  "adjust_bytes delta b = (if 0 \<le> sint delta then saturating_add b delta else saturating_sub b (- delta))"

record capacity_limits =
  cl_node_max_bytes :: "u64 option"
  cl_pipeline_max_bytes :: "u64 option"
  cl_partition_soft_target :: "u64 option"

definition limits_from_config :: "u64 option \<Rightarrow> u64 option \<Rightarrow> u16 \<Rightarrow> capacity_limits" where
  "limits_from_config node_max pipeline_max partitions =
     \<lparr>cl_node_max_bytes = node_max, cl_pipeline_max_bytes = pipeline_max,
      cl_partition_soft_target =
        (case pipeline_max of
           Some cap \<Rightarrow> if partitions > 0 then Some (cap div ucast partitions) else None
         | None \<Rightarrow> None)\<rparr>"

definition unlimited :: capacity_limits where
  "unlimited = \<lparr>cl_node_max_bytes = None, cl_pipeline_max_bytes = None, cl_partition_soft_target = None\<rparr>"

datatype pressure_level = PartitionLevel | PipelineLevel | NodeLevel

datatype backpressure_decision =
    NoPressure
  | PushReject pressure_level
  | PullPause pressure_level
  | PollSkip pressure_level

fun for_kind :: "source_kind \<Rightarrow> pressure_level \<Rightarrow> backpressure_decision" where
  "for_kind Push l = PushReject l"
| "for_kind Pull l = PullPause l"
| "for_kind Poll l = PollSkip l"

fun decision_level :: "backpressure_decision \<Rightarrow> pressure_level option" where
  "decision_level NoPressure = None"
| "decision_level (PushReject l) = Some l"
| "decision_level (PullPause l) = Some l"
| "decision_level (PollSkip l) = Some l"

definition is_engaged :: "backpressure_decision \<Rightarrow> bool" where
  "is_engaged d \<longleftrightarrow> d \<noteq> NoPressure"

record node_capacity =
  nc_bytes :: u64
  nc_cap :: "u64 option"

definition node_new :: "u64 option \<Rightarrow> node_capacity" where
  "node_new cap = \<lparr>nc_bytes = 0, nc_cap = cap\<rparr>"

definition node_adjust :: "i64 \<Rightarrow> node_capacity \<Rightarrow> node_capacity" where
  "node_adjust delta n = n\<lparr>nc_bytes := adjust_bytes delta (nc_bytes n)\<rparr>"

definition is_pressured :: "node_capacity \<Rightarrow> bool" where
  "is_pressured n = (case nc_cap n of Some cap \<Rightarrow> cap > 0 \<and> nc_bytes n * 20 \<ge> cap * 19 | None \<Rightarrow> False)"

record pipeline_capacity =
  pc_partitions :: "(u16, u64) hash_map"
  pc_node :: node_capacity
  pc_caps :: capacity_limits

definition capacity_new :: "capacity_limits \<Rightarrow> node_capacity \<Rightarrow> pipeline_capacity" where
  "capacity_new caps node = \<lparr>pc_partitions = [], pc_node = node, pc_caps = caps\<rparr>"

definition capacity_adjust :: "u16 \<Rightarrow> i64 \<Rightarrow> pipeline_capacity \<Rightarrow> pipeline_capacity" where
  "capacity_adjust part delta c =
     c\<lparr>pc_partitions := hm_upsert part 0 (adjust_bytes delta) (pc_partitions c),
       pc_node := node_adjust delta (pc_node c)\<rparr>"

definition pipeline_bytes :: "pipeline_capacity \<Rightarrow> u64" where
  "pipeline_bytes c = sum_list (map snd (pc_partitions c))"

definition partition_bytes :: "pipeline_capacity \<Rightarrow> u16 \<Rightarrow> u64" where
  "partition_bytes c part = (case hm_get (pc_partitions c) part of None \<Rightarrow> 0 | Some b \<Rightarrow> b)"

definition decide :: "pipeline_capacity \<Rightarrow> u16 \<Rightarrow> source_kind \<Rightarrow> backpressure_decision" where
  "decide c part kind =
     (if is_pressured (pc_node c) then for_kind kind NodeLevel
      else if (case cl_pipeline_max_bytes (pc_caps c) of
                 Some cap \<Rightarrow> cap > 0 \<and> pipeline_bytes c * 20 \<ge> cap * 19
               | None \<Rightarrow> False) then for_kind kind PipelineLevel
      else if (case cl_partition_soft_target (pc_caps c) of
                 Some target \<Rightarrow> target > 0 \<and> partition_bytes c part \<ge> target
               | None \<Rightarrow> False) then for_kind kind PartitionLevel
      else NoPressure)"

section \<open>Facts\<close>

lemma for_kind_engaged [simp]: "is_engaged (for_kind k l)" "decision_level (for_kind k l) = Some l"
  by (cases k; simp add: is_engaged_def)+

lemma unlimited_never_engages: "\<not> is_engaged (decide (capacity_new unlimited (node_new None)) p k)"
  by (simp add: decide_def capacity_new_def unlimited_def node_new_def is_pressured_def is_engaged_def)

text \<open>Below \<open>2 ^ 64 / 20\<close> the test is exact: the node is pressured from 95 percent of its cap on.\<close>

lemma unat_mult_small: "unat a * unat b < 2 ^ 64 \<Longrightarrow> unat ((a :: u64) * b) = unat a * unat b"
  by (simp add: unat_word_ariths)

lemma is_pressured_exact:
  assumes "nc_cap n = Some cap" "unat cap * 20 < 2 ^ 64" "unat (nc_bytes n) * 20 < 2 ^ 64"
  shows "is_pressured n \<longleftrightarrow> 0 < unat cap \<and> unat cap * 19 \<le> unat (nc_bytes n) * 20"
  using assms unat_mult_small [of cap 19] unat_mult_small [of "nc_bytes n" 20]
  by (simp add: is_pressured_def word_le_nat_alt word_less_nat_alt)

text \<open>Above it the product wraps: a node far past its cap can read as unpressured.\<close>

lemma is_pressured_wraps:
  "is_pressured \<lparr>nc_bytes = 2 ^ 62, nc_cap = Some 100\<rparr> = False"
  by (simp add: is_pressured_def)

end
