(* ===== verification/Checkpoint.thy ===== *)
theory Checkpoint
  imports Redb_Store Byte_Codec Framed_Log
begin

text \<open>
  \<open>aeon-engine/src/checkpoint.rs\<close>: checkpoint records, the append-only checkpoint WAL and the
  checkpoint store over an \<open>L3Store\<close>.  \<open>bincode\<close> and \<open>crc32fast\<close> are parameters.  The content of
  the WAL file is a byte list; what the file system answers to the next calls is part of the state, so
  that failed and partial writes are ordinary branches.
\<close>

record checkpoint_record =
  ck_id :: u64
  ck_timestamp_nanos :: i64
  ck_source_offsets :: "(u16 \<times> i64) list"
  ck_pending_event_ids :: "bytes list"
  ck_delivered_count :: u64
  ck_failed_count :: u64
  ck_per_sink_ack_seq :: "(string \<times> u64) list"

definition uuid_as_bytes :: "uuid \<Rightarrow> bytes" where
  "uuid_as_bytes i = nat_be_bytes 16 (unat i)"

definition uuid_from_bytes :: "bytes \<Rightarrow> uuid" where
  "uuid_from_bytes bs = of_nat (be_bytes_nat bs)"

definition checkpoint_new :: "i64 \<Rightarrow> u64 \<Rightarrow> (partition_id \<times> i64) list \<Rightarrow> uuid list \<Rightarrow> u64 \<Rightarrow> u64 \<Rightarrow> checkpoint_record" where
  "checkpoint_new now cid offsets pending delivered failed =
     \<lparr>ck_id = cid, ck_timestamp_nanos = now, ck_source_offsets = map (\<lambda>(p, o'). (as_u16 p, o')) offsets,
      ck_pending_event_ids = map uuid_as_bytes pending, ck_delivered_count = delivered, ck_failed_count = failed,
      ck_per_sink_ack_seq = []\<rparr>"

definition with_per_sink_ack_seq :: "checkpoint_record \<Rightarrow> (string \<times> u64) list \<Rightarrow> checkpoint_record" where
  "with_per_sink_ack_seq r acks = r\<lparr>ck_per_sink_ack_seq := acks\<rparr>"

definition partition_offsets :: "checkpoint_record \<Rightarrow> (partition_id \<times> i64) list" where
  "partition_offsets r = map (\<lambda>(p, o'). (PartitionId p, o')) (ck_source_offsets r)"

definition pending_uuids :: "checkpoint_record \<Rightarrow> uuid list" where
  "pending_uuids r = map uuid_from_bytes (ck_pending_event_ids r)"

record ckpt_codec =
  cc_serialize :: "checkpoint_record \<Rightarrow> string + bytes"
  cc_deserialize :: "bytes \<Rightarrow> string + checkpoint_record"

definition ckpt_codec_roundtrips :: "ckpt_codec \<Rightarrow> bool" where
  "ckpt_codec_roundtrips C \<longleftrightarrow> (\<forall>r bs. cc_serialize C r = Inr bs \<longrightarrow> cc_deserialize C bs = Inr r)"

section \<open>The checkpoint WAL\<close>

definition wal_magic :: bytes where "wal_magic = map of_char ''AEON-CKP''"
definition wal_version :: u16 where "wal_version = 2"

definition wal_header :: bytes where
  "wal_header = wal_magic @ u16_to_le wal_version"

definition wal_frame :: "(bytes \<Rightarrow> u32) \<Rightarrow> bytes \<Rightarrow> bytes" where
  "wal_frame crc data = u32_to_le (of_nat (length data)) @ u32_to_le (crc data) @ data"

function wal_loop :: "(bytes \<Rightarrow> u32) \<Rightarrow> ckpt_codec \<Rightarrow> bytes \<Rightarrow> nat \<Rightarrow> checkpoint_record list" where
  "wal_loop crc C data offset =
     (if offset + 8 \<le> length data then
        let len = unat (u32_from_le (subslice data offset (offset + 4)));
            expected_crc = u32_from_le (subslice data (offset + 4) (offset + 8));
            offset' = offset + 8
        in if offset' + len > length data then []
           else
             let record_data = subslice data offset' (offset' + len)
             in if crc record_data \<noteq> expected_crc then []
                else (case cc_deserialize C record_data of
                        Inr r \<Rightarrow> r # wal_loop crc C data (offset' + len)
                      | Inl _ \<Rightarrow> [])
      else [])"
  by pat_completeness auto
termination by (relation "measure (\<lambda>(crc, C, data, offset). length data - offset)") auto

declare wal_loop.simps [simp del]

definition read_wal_records :: "(bytes \<Rightarrow> u32) \<Rightarrow> ckpt_codec \<Rightarrow> bytes res \<Rightarrow> checkpoint_record list res" where
  "read_wal_records crc C contents =
     rbind contents (\<lambda>data.
       if length data < 10 then Inl (State ''wal file too short for header'')
       else if subslice data 0 8 \<noteq> wal_magic then Inl (State ''wal invalid magic bytes'')
       else if u16_from_le (subslice data 8 10) \<noteq> wal_version then Inl (State ''wal unsupported version'')
       else Inr (wal_loop crc C data 10))"

text \<open>What the file system does with the next append, and with reads.\<close>

datatype append_io = AppendOk | OpenFails | WriteFails nat | FlushFails

record wal_store =
  ws_file :: bytes
  ws_next :: u64
  ws_io :: "append_io list"
  ws_readable :: bool

definition wal_contents :: "wal_store \<Rightarrow> bytes res" where
  "wal_contents w = (if ws_readable w then Inr (ws_file w) else Inl (State ''wal read''))"

definition next_io :: "wal_store \<Rightarrow> append_io" where
  "next_io w = (case ws_io w of [] \<Rightarrow> AppendOk | io # _ \<Rightarrow> io)"

text \<open>
  \<open>CheckpointWriter::new\<close>: \<open>existing\<close> is the content of the file if it exists, \<open>created\<close> the outcome of
  writing a fresh header.
\<close>

definition writer_new :: "(bytes \<Rightarrow> u32) \<Rightarrow> ckpt_codec \<Rightarrow> bytes option \<Rightarrow> bool \<Rightarrow> unit res \<Rightarrow> append_io list \<Rightarrow> wal_store res" where
  "writer_new crc C existing readable created io =
     (case existing of
        Some data \<Rightarrow>
          rbind (read_wal_records crc C (if readable then Inr data else Inl (State ''wal read''))) (\<lambda>records.
            Inr \<lparr>ws_file = data, ws_next = (if records = [] then 0 else ck_id (last records) + 1),
                 ws_io = io, ws_readable = readable\<rparr>)
      | None \<Rightarrow>
          rbind created (\<lambda>_.
            Inr \<lparr>ws_file = wal_header, ws_next = 0, ws_io = io, ws_readable = readable\<rparr>))"

definition wal_append :: "(bytes \<Rightarrow> u32) \<Rightarrow> ckpt_codec \<Rightarrow> checkpoint_record \<Rightarrow> wal_store
    \<Rightarrow> unit res \<times> checkpoint_record \<times> wal_store" where
  "wal_append crc C record w =
     (let record' = record\<lparr>ck_id := ws_next w\<rparr>
      in case cc_serialize C record' of
           Inl e \<Rightarrow> (Inl (State ''bincode serialize''), record', w)
         | Inr data \<Rightarrow>
             let buf = wal_frame crc data; w' = w\<lparr>ws_io := tl (ws_io w)\<rparr>
             in case next_io w of
                  OpenFails \<Rightarrow> (Inl (State ''wal open for append''), record', w')
                | WriteFails n \<Rightarrow> (Inl (State ''wal write''), record', w'\<lparr>ws_file := ws_file w @ take n buf\<rparr>)
                | FlushFails \<Rightarrow> (Inl (State ''wal flush''), record', w'\<lparr>ws_file := ws_file w @ buf\<rparr>)
                | AppendOk \<Rightarrow> (Inr (), record', w'\<lparr>ws_file := ws_file w @ buf, ws_next := ws_next w + 1\<rparr>))"

text \<open>\<open>CheckpointReader\<close>; \<^term>\<open>None\<close> is a file that does not exist.\<close>

definition reader_read_all :: "(bytes \<Rightarrow> u32) \<Rightarrow> ckpt_codec \<Rightarrow> bytes res option \<Rightarrow> checkpoint_record list res" where
  "reader_read_all crc C file = (case file of None \<Rightarrow> Inr [] | Some contents \<Rightarrow> read_wal_records crc C contents)"

definition last_opt :: "'a list \<Rightarrow> 'a option" where
  "last_opt xs = (if xs = [] then None else Some (last xs))"

definition reader_read_last :: "(bytes \<Rightarrow> u32) \<Rightarrow> ckpt_codec \<Rightarrow> bytes res option \<Rightarrow> checkpoint_record option res" where
  "reader_read_last crc C file =
     (case file of
        None \<Rightarrow> Inr None
      | Some contents \<Rightarrow> rbind (read_wal_records crc C contents) (\<lambda>records. Inr (last_opt records)))"

section \<open>The persistence trait\<close>

record 's ckpt_ops =
  cp_append :: "checkpoint_record \<Rightarrow> 's \<Rightarrow> unit res \<times> checkpoint_record \<times> 's"
  cp_read_last :: "'s \<Rightarrow> checkpoint_record option res"
  cp_next_id :: "'s \<Rightarrow> u64"
  cp_try_recover :: "'s \<Rightarrow> bool res \<times> 's"

text \<open>The default of \<open>try_recover_primary\<close>.\<close>

definition no_recovery :: "'s \<Rightarrow> bool res \<times> 's" where
  "no_recovery s = (Inr True, s)"

definition wal_ops :: "(bytes \<Rightarrow> u32) \<Rightarrow> ckpt_codec \<Rightarrow> wal_store ckpt_ops" where
  "wal_ops crc C =
     \<lparr>cp_append = wal_append crc C, cp_read_last = (\<lambda>w. reader_read_last crc C (Some (wal_contents w))),
      cp_next_id = ws_next, cp_try_recover = no_recovery\<rparr>"

section \<open>Checkpoints in an L3 store\<close>

definition checkpoint_prefix :: bytes where "checkpoint_prefix = map of_char ''checkpoint/''"

definition record_key :: "u64 \<Rightarrow> bytes" where
  "record_key i = checkpoint_prefix @ u64_to_be i"

definition parse_checkpoint_key :: "bytes \<Rightarrow> u64 option" where
  "parse_checkpoint_key k =
     (if \<not> starts_with k checkpoint_prefix then None
      else let suffix = drop (length checkpoint_prefix) k
           in if length suffix \<noteq> 8 then None else Some (u64_from_be suffix))"

record 's l3_ckpt =
  lk_l3 :: 's
  lk_next :: u64
  lk_max_records :: "u32 option"

definition filter_map :: "('a \<Rightarrow> 'b option) \<Rightarrow> 'a list \<Rightarrow> 'b list" where
  "filter_map f xs = map (\<lambda>x. the (f x)) (filter (\<lambda>x. f x \<noteq> None) xs)"

definition max_opt :: "'a::linorder list \<Rightarrow> 'a option" where
  "max_opt xs = (if xs = [] then None else Some (foldr max (tl xs) (hd xs)))"

definition l3_ckpt_open :: "'s l3_ops \<Rightarrow> 's \<Rightarrow> 's l3_ckpt res" where
  "l3_ckpt_open L l3 =
     rbind (l3_scan_prefix L l3 checkpoint_prefix) (\<lambda>existing.
       let ids = filter_map (\<lambda>(k, _). parse_checkpoint_key k) existing
       in Inr \<lparr>lk_l3 = l3, lk_next = (case max_opt ids of None \<Rightarrow> 0 | Some m \<Rightarrow> m + 1), lk_max_records = None\<rparr>)"

definition with_max_records :: "'s l3_ckpt \<Rightarrow> u32 option \<Rightarrow> 's l3_ckpt" where
  "with_max_records s n = s\<lparr>lk_max_records := n\<rparr>"

fun purge_ops :: "u64 \<Rightarrow> kv_pairs \<Rightarrow> batch_entry list" where
  "purge_ops low [] = []"
| "purge_ops low ((k, v) # entries) =
     (case parse_checkpoint_key k of
        None \<Rightarrow> purge_ops low entries
      | Some i \<Rightarrow> if i < low then (Delete, k, None) # purge_ops low entries else [])"

definition purge_below :: "'s l3_ops \<Rightarrow> u64 \<Rightarrow> 's \<Rightarrow> unit res \<times> 's" where
  "purge_below L low l3 =
     (case l3_scan_prefix L l3 checkpoint_prefix of
        Inl e \<Rightarrow> (Inl e, l3)
      | Inr entries \<Rightarrow>
          let ops = purge_ops low entries
          in if ops = [] then (Inr (), l3)
             else case l3_write_batch L l3 ops of
                    (Inl e, l3') \<Rightarrow> (Inl e, l3')
                  | (Inr _, l3') \<Rightarrow> l3_flush L l3')"

definition l3_ckpt_append :: "'s l3_ops \<Rightarrow> ckpt_codec \<Rightarrow> checkpoint_record \<Rightarrow> 's l3_ckpt
    \<Rightarrow> unit res \<times> checkpoint_record \<times> 's l3_ckpt" where
  "l3_ckpt_append L C record s =
     (let record' = record\<lparr>ck_id := lk_next s\<rparr>
      in case cc_serialize C record' of
           Inl e \<Rightarrow> (Inl (State ''checkpoint bincode serialize''), record', s)
         | Inr v \<Rightarrow>
             (case l3_write_batch L (lk_l3 s) [(Put, record_key (lk_next s), Some v)] of
                (Inl e, l3') \<Rightarrow> (Inl e, record', s\<lparr>lk_l3 := l3'\<rparr>)
              | (Inr _, l3') \<Rightarrow>
                  (case l3_flush L l3' of
                     (Inl e, l3'') \<Rightarrow> (Inl e, record', s\<lparr>lk_l3 := l3''\<rparr>)
                   | (Inr _, l3'') \<Rightarrow>
                       let s' = s\<lparr>lk_l3 := l3'', lk_next := lk_next s + 1\<rparr>
                       in case lk_max_records s of
                            None \<Rightarrow> (Inr (), record', s')
                          | Some mx \<Rightarrow>
                              let low = saturating_sub (lk_next s') (ucast mx)
                              in if low > 0
                                 then let (r, l3''') = purge_below L low l3''
                                      in (r, record', s'\<lparr>lk_l3 := l3'''\<rparr>)
                                 else (Inr (), record', s'))))"

definition l3_ckpt_read_last :: "'s l3_ops \<Rightarrow> ckpt_codec \<Rightarrow> 's l3_ckpt \<Rightarrow> checkpoint_record option res" where
  "l3_ckpt_read_last L C s =
     rbind (l3_scan_prefix L (lk_l3 s) checkpoint_prefix) (\<lambda>entries.
       if entries = [] then Inr None
       else case cc_deserialize C (snd (last entries)) of
              Inl e \<Rightarrow> Inl (State ''checkpoint bincode deserialize'')
            | Inr r \<Rightarrow> Inr (Some r))"

definition l3_ckpt_ops :: "'s l3_ops \<Rightarrow> ckpt_codec \<Rightarrow> 's l3_ckpt ckpt_ops" where
  "l3_ckpt_ops L C =
     \<lparr>cp_append = l3_ckpt_append L C, cp_read_last = l3_ckpt_read_last L C, cp_next_id = lk_next,
      cp_try_recover = no_recovery\<rparr>"

section \<open>Reading the WAL back\<close>

lemma length_wal_frame [simp]: "length (wal_frame crc d) = 8 + length d"
  by (simp add: wal_frame_def)

lemma length_wal_header [simp]: "length wal_header = 10"
  by (simp add: wal_header_def wal_magic_def)

lemma wal_fields:
  assumes "data = pre @ take n (wal_frame crc d) @ post" and "8 \<le> n"
  shows "subslice data (length pre) (length pre + 4) = u32_to_le (of_nat (length d))"
    and "subslice data (length pre + 4) (length pre + 8) = u32_to_le (crc d)"
proof -
  let ?L = "u32_to_le (of_nat (length d))" and ?X = "u32_to_le (crc d)"
  have "take n (wal_frame crc d) = ?L @ ?X @ take (n - 8) d"
    using assms(2) by (simp add: wal_frame_def)
  then have data: "data = pre @ ?L @ ?X @ take (n - 8) d @ post" using assms(1) by simp
  show "subslice data (length pre) (length pre + 4) = ?L" unfolding data by (rule slice_at) simp_all
  have "data = (pre @ ?L) @ ?X @ take (n - 8) d @ post" by (simp add: data)
  then show "subslice data (length pre + 4) (length pre + 8) = ?X"
    using slice_at [of "length pre + 4" "pre @ ?L" "length pre + 8" ?X "take (n - 8) d @ post"] by simp
qed

lemma wal_loop_frame:
  assumes "data = pre @ wal_frame crc d @ post" and "fits_u32 d" and "cc_deserialize C d = Inr r"
  shows "wal_loop crc C data (length pre) = r # wal_loop crc C data (length (pre @ wal_frame crc d))"
proof -
  have "data = pre @ take (8 + length d) (wal_frame crc d) @ post" using assms(1) by simp
  note f = wal_fields [OF this]
  have "data = (pre @ u32_to_le (of_nat (length d)) @ u32_to_le (crc d)) @ d @ post"
    by (simp add: assms(1) wal_frame_def)
  then have "subslice data (length pre + 8) (length pre + 8 + length d) = d"
    using slice_at [of "length pre + 8" "pre @ u32_to_le (of_nat (length d)) @ u32_to_le (crc d)"] by simp
  then show ?thesis
    using f assms by (subst wal_loop.simps) (simp add: Let_def unat_len_u32 add.assoc)
qed

lemma wal_loop_torn:
  assumes "data = pre @ take n (wal_frame crc d) @ extra" and "fits_u32 d" and "n + length extra < 8 + length d"
    and "8 \<le> n \<or> extra = []"
  shows "wal_loop crc C data (length pre) = []"
proof (cases "8 \<le> n")
  case True
  have "\<not> length pre + 8 + length d \<le> length data" using assms(1,3) by (simp add: min_def)
  then show ?thesis
    using wal_fields [OF assms(1) True] assms(2) by (subst wal_loop.simps) (simp add: Let_def unat_len_u32)
next
  case False
  then have "\<not> length pre + 8 \<le> length data" using assms(1,4) by simp
  then show ?thesis by (subst wal_loop.simps) simp
qed

lemma wal_loop_end: "wal_loop crc C data (length data) = []"
  by (subst wal_loop.simps) simp

definition wal_data_ok :: "ckpt_codec \<Rightarrow> bytes \<Rightarrow> checkpoint_record \<Rightarrow> bool" where
  "wal_data_ok C d r \<longleftrightarrow> fits_u32 d \<and> cc_deserialize C d = Inr r"

interpretation wal: framed_log "wal_loop crc C" "wal_frame crc" "wal_data_ok C" fits_u32 8 for crc C
proof
  fix data pre d post r
  show "wal_loop crc C data (length pre) = r # wal_loop crc C data (length (pre @ wal_frame crc d))"
    if "data = pre @ wal_frame crc d @ post" "wal_data_ok C d r"
    using that by (intro wal_loop_frame) (simp_all add: wal_data_ok_def)
next
  fix data pre n d extra
  show "wal_loop crc C data (length pre) = []"
    if "data = pre @ take n (wal_frame crc d) @ extra" "fits_u32 d" "n + length extra < length (wal_frame crc d)"
      "8 \<le> n \<or> extra = []"
    using that by (intro wal_loop_torn [of data pre n crc d extra]) simp_all
qed (rule wal_loop_end)

lemma read_wal_header: "read_wal_records crc C (Inr (wal_header @ rest)) = Inr (wal_loop crc C (wal_header @ rest) 10)"
proof -
  have "subslice (wal_header @ rest) 0 8 = wal_magic" "subslice (wal_header @ rest) 8 10 = u16_to_le wal_version"
    using slice_at [of 0 "[]" 8 wal_magic "u16_to_le wal_version @ rest"]
      slice_at [of 8 wal_magic 10 "u16_to_le wal_version" rest]
    by (simp_all add: wal_header_def wal_magic_def)
  then show ?thesis by (simp add: read_wal_records_def)
qed

text \<open>A clean file: the header and complete frames of known records.\<close>

definition wal_holds :: "(bytes \<Rightarrow> u32) \<Rightarrow> ckpt_codec \<Rightarrow> bytes \<Rightarrow> checkpoint_record list \<Rightarrow> bool" where
  "wal_holds crc C contents rs \<longleftrightarrow> framed (wal_frame crc) (wal_data_ok C) wal_header contents rs"

lemma wal_holds_header: "wal_holds crc C contents rs \<Longrightarrow> \<exists>rest. contents = wal_header @ rest"
  by (auto simp: wal_holds_def framed_def)

lemma wal_holds_read_torn:
  assumes "wal_holds crc C contents rs" and "fits_u32 d" and "n + length extra < 8 + length d" and "8 \<le> n \<or> extra = []"
  shows "read_wal_records crc C (Inr (contents @ take n (wal_frame crc d) @ extra)) = Inr rs"
proof -
  obtain rest where "contents = wal_header @ rest" using wal_holds_header [OF assms(1)] by blast
  moreover have "wal_loop crc C (contents @ take n (wal_frame crc d) @ extra) (length wal_header) = rs"
    using assms by (intro wal.read_framed_torn) (simp_all add: wal_holds_def)
  ultimately show ?thesis using read_wal_header [of crc C "rest @ take n (wal_frame crc d) @ extra"] by simp
qed

lemma wal_holds_read: "wal_holds crc C contents rs \<Longrightarrow> read_wal_records crc C (Inr contents) = Inr rs"
  using wal_holds_read_torn [where n = 0 and extra = "[]" and d = "[]"] by (simp add: fits_u32_def)

lemma read_wal_Inl [simp]: "read_wal_records crc C (Inl e) = Inl e"
  by (simp add: read_wal_records_def)

lemma wal_holds_new: "wal_holds crc C wal_header []"
  by (simp add: wal_holds_def framed_Nil)

lemma wal_holds_append:
  "wal_holds crc C contents rs \<Longrightarrow> fits_u32 d \<Longrightarrow> cc_deserialize C d = Inr r \<Longrightarrow>
     wal_holds crc C (contents @ wal_frame crc d) (rs @ [r])"
  by (simp add: wal_holds_def framed_snoc wal_data_ok_def)

section \<open>The persistence contract\<close>

fun append_all :: "'s ckpt_ops \<Rightarrow> checkpoint_record list \<Rightarrow> 's \<Rightarrow> checkpoint_record list res \<times> 's" where
  "append_all P [] s = (Inr [], s)"
| "append_all P (r # rs) s =
     (case cp_append P r s of
        (Inl e, _, s') \<Rightarrow> (Inl e, s')
      | (Inr _, r', s') \<Rightarrow> (case append_all P rs s' of
                             (Inl e, s'') \<Rightarrow> (Inl e, s'')
                           | (Inr rs', s'') \<Rightarrow> (Inr (r' # rs'), s'')))"

locale checkpoint_persist =
  fixes P :: "'s ckpt_ops" and inv :: "'s \<Rightarrow> bool" and latest :: "'s \<Rightarrow> checkpoint_record option"
    and admits :: "checkpoint_record \<Rightarrow> bool"
  assumes append_ok: "inv s \<Longrightarrow> cp_append P r s = (Inr (), r', s') \<Longrightarrow> admits r' \<Longrightarrow>
      inv s' \<and> r' = r\<lparr>ck_id := cp_next_id P s\<rparr> \<and> latest s' = Some r' \<and> cp_next_id P s' = cp_next_id P s + 1"
    and read_latest: "inv s \<Longrightarrow> cp_read_last P s = Inr x \<Longrightarrow> x = latest s"
begin

lemma read_after_append:
  assumes "inv s" "cp_append P r s = (Inr (), r', s')" "admits r'" "cp_read_last P s' = Inr x"
  shows "x = Some (r\<lparr>ck_id := cp_next_id P s\<rparr>)"
  using append_ok [OF assms(1-3)] read_latest [of s'] assms(4) by simp

lemma append_all_ids:
  assumes "inv s" "append_all P rs s = (Inr rs', s')" "\<forall>r \<in> set rs'. admits r"
  shows "inv s' \<and> map ck_id rs' = map (\<lambda>i. cp_next_id P s + of_nat i) [0..<length rs] \<and>
    latest s' = (if rs = [] then latest s else Some (last rs'))"
  using assms
proof (induction rs arbitrary: s rs')
  case (Cons r rs)
  obtain r1 s1 rs1 where step: "cp_append P r s = (Inr (), r1, s1)" and rest: "append_all P rs s1 = (Inr rs1, s')"
    and rs': "rs' = r1 # rs1"
    using Cons.prems(2) by (auto split: prod.splits sum.splits)
  have adm: "admits r1" "\<forall>r \<in> set rs1. admits r" using Cons.prems(3) rs' by simp_all
  note st = append_ok [OF Cons.prems(1) step adm(1)]
  note ih = Cons.IH [OF st [THEN conjunct1] rest adm(2)]
  have "length rs1 = length rs" using ih by (metis length_map length_upt minus_nat.diff_0)
  moreover have "[0..<length (r # rs)] = 0 # map Suc [0..<length rs]"
    by (simp add: upt_conv_Cons map_Suc_upt del: upt_Suc)
  ultimately show ?case using st ih rs' by (auto simp: comp_def algebra_simps simp del: upt_Suc)
qed simp

end

text \<open>The WAL keeps it while its file is clean.\<close>

definition wal_latest :: "(bytes \<Rightarrow> u32) \<Rightarrow> ckpt_codec \<Rightarrow> wal_store \<Rightarrow> checkpoint_record option" where
  "wal_latest crc C w = (case read_wal_records crc C (Inr (ws_file w)) of Inl _ \<Rightarrow> None | Inr rs \<Rightarrow> last_opt rs)"

definition wal_clean :: "(bytes \<Rightarrow> u32) \<Rightarrow> ckpt_codec \<Rightarrow> wal_store \<Rightarrow> bool" where
  "wal_clean crc C w \<longleftrightarrow> (\<exists>rs. wal_holds crc C (ws_file w) rs)"

definition record_fits :: "ckpt_codec \<Rightarrow> checkpoint_record \<Rightarrow> bool" where
  "record_fits C r \<longleftrightarrow> (case cc_serialize C r of Inl _ \<Rightarrow> True | Inr d \<Rightarrow> fits_u32 d)"

lemma wal_append_ok:
  assumes "wal_append crc C r w = (Inr (), r', w')"
  obtains d where "cc_serialize C (r\<lparr>ck_id := ws_next w\<rparr>) = Inr d" "r' = r\<lparr>ck_id := ws_next w\<rparr>"
    "ws_file w' = ws_file w @ wal_frame crc d" "ws_next w' = ws_next w + 1" "ws_readable w' = ws_readable w"
  using assms by (auto simp: wal_append_def Let_def split: sum.splits append_io.splits)

lemma wal_append_holds:
  assumes "ckpt_codec_roundtrips C" and "wal_holds crc C (ws_file w) rs" 
    and "wal_append crc C r w = (Inr (), r', w')" and "record_fits C r'"
  shows "wal_holds crc C (ws_file w') (rs @ [r'])"
  using assms(3)
proof (rule wal_append_ok)
  fix d
  assume d: "cc_serialize C (r\<lparr>ck_id := ws_next w\<rparr>) = Inr d" "r' = r\<lparr>ck_id := ws_next w\<rparr>"
    "ws_file w' = ws_file w @ wal_frame crc d"
  then have "cc_deserialize C d = Inr r'" "fits_u32 d"
    using assms(1,4) by (simp_all add: ckpt_codec_roundtrips_def record_fits_def)
  then show ?thesis unfolding d(3) by (intro wal_holds_append [OF assms(2)])
qed

lemma wal_persist:
  assumes "ckpt_codec_roundtrips C"
  shows "checkpoint_persist (wal_ops crc C) (wal_clean crc C) (wal_latest crc C) (record_fits C)"
proof
  fix w r r' w'
  assume "wal_clean crc C w" and fit: "record_fits C r'"
    and "cp_append (wal_ops crc C) r w = (Inr (), r', w')"
  then obtain rs where rs: "wal_holds crc C (ws_file w) rs" and app: "wal_append crc C r w = (Inr (), r', w')"
    by (auto simp: wal_clean_def wal_ops_def)
  have h: "wal_holds crc C (ws_file w') (rs @ [r'])" by (rule wal_append_holds [OF assms rs app fit])
  then have "wal_latest crc C w' = Some r'" by (simp add: wal_latest_def wal_holds_read last_opt_def)
  with h app show "wal_clean crc C w' \<and> r' = r\<lparr>ck_id := cp_next_id (wal_ops crc C) w\<rparr> \<and>
      wal_latest crc C w' = Some r' \<and> cp_next_id (wal_ops crc C) w' = cp_next_id (wal_ops crc C) w + 1"
    by (auto simp: wal_clean_def wal_ops_def elim: wal_append_ok)
qed (auto simp: wal_ops_def reader_read_last_def wal_contents_def wal_latest_def rbind_Inr_conv split: if_splits)

text \<open>The L3 store keeps it when it retains at least one record.\<close>

lemma record_key_simps [simp]:
  "parse_checkpoint_key (record_key i) = Some i" "starts_with (record_key i) checkpoint_prefix"
  "record_key i = record_key j \<longleftrightarrow> i = j"
  by (simp_all add: parse_checkpoint_key_def record_key_def)

definition stored_ids :: "(bytes \<rightharpoonup> bytes) \<Rightarrow> u64 set" where
  "stored_ids m = {i. m (record_key i) \<noteq> None}"

definition ckpts_ok :: "ckpt_codec \<Rightarrow> (bytes \<rightharpoonup> bytes) \<Rightarrow> u64 \<Rightarrow> bool" where
  "ckpts_ok C m next \<longleftrightarrow>
     (\<forall>k v. m k = Some v \<longrightarrow> starts_with k checkpoint_prefix \<longrightarrow>
        (\<exists>r. k = record_key (ck_id r) \<and> cc_deserialize C v = Inr r \<and> ck_id r < next))"

definition l3_ckpt_inv :: "ckpt_codec \<Rightarrow> ('s \<Rightarrow> (bytes \<rightharpoonup> bytes)) \<Rightarrow> 's l3_ckpt \<Rightarrow> bool" where
  "l3_ckpt_inv C view s \<longleftrightarrow> ckpts_ok C (view (lk_l3 s)) (lk_next s) \<and> lk_max_records s \<noteq> Some 0"

definition stored_latest :: "ckpt_codec \<Rightarrow> (bytes \<rightharpoonup> bytes) \<Rightarrow> checkpoint_record option" where
  "stored_latest C m =
     (if stored_ids m = {} then None
      else case cc_deserialize C (the (m (record_key (Max (stored_ids m))))) of Inl _ \<Rightarrow> None | Inr r \<Rightarrow> Some r)"

lemma scan_ckpts:
  assumes "l3_store L view" and "ckpts_ok C (view l3) next" and "l3_scan_prefix L l3 checkpoint_prefix = Inr kvs"
  shows "kvs = map (\<lambda>i. (record_key i, the (view l3 (record_key i)))) (sorted_list_of_set (stored_ids (view l3)))"
proof -
  have "\<exists>i. k = checkpoint_prefix @ u64_to_be i" if "view l3 k = Some v" "starts_with k checkpoint_prefix" for k v
    using assms(2) that unfolding ckpts_ok_def record_key_def by blast
  then show ?thesis
    unfolding record_key_def stored_ids_def by (rule scan_indexed [OF l3_store.scan_view [OF assms(1,3)]])
qed

lemma purge_ops_map:
  "purge_ops low (map (\<lambda>i. (record_key i, f i)) idxs) =
     map (\<lambda>k. (Delete, k, None)) (map record_key (takeWhile (\<lambda>i. i < low) idxs))"
  by (induction idxs) auto

lemma sorted_takeWhile_set: "sorted xs \<Longrightarrow> set (takeWhile (\<lambda>i. i < low) xs) = {i \<in> set xs. i < (low :: 'a::linorder)}"
  by (induction xs) (auto simp: not_less)

lemma purge_effect:
  assumes "l3_store L view" and "ckpts_ok C (view l3) next" and "purge_below L low l3 = (Inr (), l3')"
  shows "view l3' = (\<lambda>k. if \<exists>i \<in> stored_ids (view l3). i < low \<and> k = record_key i then None else view l3 k)"
proof -
  obtain kvs where kvs: "l3_scan_prefix L l3 checkpoint_prefix = Inr kvs"
    using assms(3) by (auto simp: purge_below_def split: sum.splits)
  let ?ops = "purge_ops low kvs"
  have "view l3' = fold batch_effect ?ops (view l3)"
  proof (cases "?ops = []")
    case False
    then obtain l1 where "l3_write_batch L l3 ?ops = (Inr (), l1)" "l3_flush L l1 = (Inr (), l3')"
      using assms(3) kvs by (auto simp: purge_below_def Let_def split: prod.splits sum.splits)
    then show ?thesis
      using l3_store.batch_view [OF assms(1)] l3_store.flush_view [OF assms(1)] by metis
  qed (use assms(3) kvs in \<open>simp add: purge_below_def\<close>)
  also have "\<dots> = (\<lambda>k. if \<exists>i \<in> stored_ids (view l3). i < low \<and> k = record_key i then None else view l3 k)"
    unfolding scan_ckpts [OF assms(1,2) kvs] purge_ops_map fold_batch_deletes
    by (auto simp: fun_eq_iff sorted_takeWhile_set)
  finally show ?thesis .
qed

lemma ckpts_ok_put:
  assumes "ckpts_ok C m (ck_id r)" and "ck_id r \<noteq> -1" and "cc_deserialize C v = Inr r"
  shows "ckpts_ok C (m(record_key (ck_id r) \<mapsto> v)) (ck_id r + 1)"
proof -
  have lt: "i < ck_id r + 1" if "i < ck_id r \<or> i = ck_id r" for i
    using that assms(2) by (intro le_less_succ) auto
  show ?thesis
    unfolding ckpts_ok_def
  proof (intro allI impI)
    fix k w
    assume kw: "(m(record_key (ck_id r) \<mapsto> v)) k = Some w" "starts_with k checkpoint_prefix"
    show "\<exists>r'. k = record_key (ck_id r') \<and> cc_deserialize C w = Inr r' \<and> ck_id r' < ck_id r + 1"
    proof (cases "k = record_key (ck_id r)")
      case True
      then show ?thesis using kw(1) assms(3) lt [of "ck_id r"] by (intro exI [of _ r]) simp
    next
      case False
      then show ?thesis using kw assms(1) lt unfolding ckpts_ok_def by (metis fun_upd_other)
    qed
  qed
qed

lemma stored_latest_eq:
  assumes "m (record_key i) = Some v" and "\<forall>j \<in> stored_ids m. j \<le> i" and "cc_deserialize C v = Inr r"
  shows "stored_latest C m = Some r"
proof -
  have "i \<in> stored_ids m" using assms(1) by (simp add: stored_ids_def)
  moreover from this have "Max (stored_ids m) = i" using assms(2) by (intro Max_eqI) auto
  ultimately show ?thesis using assms(1,3) by (auto simp: stored_latest_def)
qed

lemma ckpts_ok_below: "ckpts_ok C m n \<Longrightarrow> i \<in> stored_ids m \<Longrightarrow> i < n"
  unfolding ckpts_ok_def stored_ids_def
  by (metis (mono_tags, lifting) mem_Collect_eq option.exhaust record_key_simps(2,3))

lemma ckpts_ok_submap: "ckpts_ok C m n \<Longrightarrow> (\<And>k. m' k = None \<or> m' k = m k) \<Longrightarrow> ckpts_ok C m' n"
  unfolding ckpts_ok_def by (metis option.distinct(1))

lemma low_watermark: "mx \<noteq> 0 \<Longrightarrow> nx \<noteq> -1 \<Longrightarrow> saturating_sub (nx + 1) (ucast (mx :: u32)) \<le> (nx :: u64)"
proof -
  assume mx: "mx \<noteq> 0" and nx: "nx \<noteq> -1"
  have "1 + nx \<noteq> 0" using nx by (metis add.commute add_eq_0_iff2)
  then have s: "unat (nx + 1) = Suc (unat nx)" using unatSuc [of nx] by (simp add: add.commute)
  have "unat (ucast mx :: u64) = unat mx" using unsigned_less [where 'a = nat, of mx] by (simp add: unsigned_ucast_eq take_bit_nat_eq_self)
  then have "unat (ucast mx :: u64) \<noteq> 0" using mx by (simp add: unat_eq_0)
  then show ?thesis by (simp add: saturating_sub_def word_le_nat_alt unat_sub s) arith
qed

text \<open>The effect of a successful append: the new record, minus what the retention sweep drops.\<close>

lemma l3_ckpt_append_effect:
  assumes "l3_store L view" and "ckpt_codec_roundtrips C" and "ckpts_ok C (view (lk_l3 s)) (lk_next s)"
    and "lk_next s \<noteq> -1" and "l3_ckpt_append L C r s = (Inr (), r', s')"
  obtains v where "r' = r\<lparr>ck_id := lk_next s\<rparr>" "cc_deserialize C v = Inr r'" "lk_next s' = lk_next s + 1"
    "lk_max_records s' = lk_max_records s"
    "ckpts_ok C ((view (lk_l3 s))(record_key (lk_next s) \<mapsto> v)) (lk_next s + 1)"
    "view (lk_l3 s') = (\<lambda>k. if \<exists>i \<in> stored_ids ((view (lk_l3 s))(record_key (lk_next s) \<mapsto> v)).
        i < (case lk_max_records s of None \<Rightarrow> 0 | Some mx \<Rightarrow> saturating_sub (lk_next s + 1) (ucast mx)) \<and> k = record_key i
      then None else ((view (lk_l3 s))(record_key (lk_next s) \<mapsto> v)) k)"
proof -
  obtain v l1 l2 where v: "cc_serialize C (r\<lparr>ck_id := lk_next s\<rparr>) = Inr v"
    and l1: "l3_write_batch L (lk_l3 s) [(Put, record_key (lk_next s), Some v)] = (Inr (), l1)"
    and l2: "l3_flush L l1 = (Inr (), l2)" and r': "r' = r\<lparr>ck_id := lk_next s\<rparr>"
    using assms(5) by (auto simp: l3_ckpt_append_def Let_def split: sum.splits prod.splits option.splits if_splits)
  let ?m = "(view (lk_l3 s))(record_key (lk_next s) \<mapsto> v)"
  have m: "view l2 = ?m"
    using l3_store.batch_view [OF assms(1) l1] l3_store.flush_view [OF assms(1) l2] by simp
  have de: "cc_deserialize C v = Inr r'" using assms(2) v r' by (simp add: ckpt_codec_roundtrips_def)
  have ok: "ckpts_ok C ?m (lk_next s + 1)"
    using ckpts_ok_put [of C "view (lk_l3 s)" r' v] assms(3,4) de r' by simp
  let ?low = "case lk_max_records s of None \<Rightarrow> 0 | Some mx \<Rightarrow> saturating_sub (lk_next s + 1) (ucast mx)"
  have keep: "lk_next s' = lk_next s + 1" "lk_max_records s' = lk_max_records s"
    using assms(5) v l1 l2 by (auto simp: l3_ckpt_append_def Let_def split: option.splits if_splits prod.splits)
  have "if ?low = 0 then lk_l3 s' = l2 else purge_below L ?low l2 = (Inr (), lk_l3 s')"
    using assms(5) v l1 l2
    by (auto simp: l3_ckpt_append_def Let_def word_neq_0_conv split: option.splits if_splits prod.splits)
  then have "view (lk_l3 s') = (\<lambda>k. if \<exists>i \<in> stored_ids ?m. i < ?low \<and> k = record_key i then None else ?m k)"
    using purge_effect [OF assms(1), of C l2 "lk_next s + 1" ?low "lk_l3 s'", unfolded m, OF ok] m
    by (cases "?low = 0") (simp_all only: if_True if_False simp_thms word_not_simps word_gt_0 not_less_zero Bex_def)
  then show thesis using that r' de keep ok by blast
qed

lemma l3_ckpt_append_kept:
  assumes "l3_store L view" and "ckpt_codec_roundtrips C" and "l3_ckpt_inv C view s"
    and "l3_ckpt_append L C r s = (Inr (), r', s')" and "lk_next s \<noteq> -1"
  shows "l3_ckpt_inv C view s' \<and> r' = r\<lparr>ck_id := lk_next s\<rparr> \<and> lk_next s' = lk_next s + 1 \<and>
    stored_latest C (view (lk_l3 s')) = Some r' \<and> lk_next s \<in> stored_ids (view (lk_l3 s'))"
proof -
  have ok: "ckpts_ok C (view (lk_l3 s)) (lk_next s)" "lk_max_records s \<noteq> Some 0"
    using assms(3) by (simp_all add: l3_ckpt_inv_def)
  obtain v where v: "r' = r\<lparr>ck_id := lk_next s\<rparr>" "cc_deserialize C v = Inr r'" "lk_next s' = lk_next s + 1"
    "lk_max_records s' = lk_max_records s"
    "ckpts_ok C ((view (lk_l3 s))(record_key (lk_next s) \<mapsto> v)) (lk_next s + 1)"
    "view (lk_l3 s') = (\<lambda>k. if \<exists>i \<in> stored_ids ((view (lk_l3 s))(record_key (lk_next s) \<mapsto> v)).
        i < (case lk_max_records s of None \<Rightarrow> 0 | Some mx \<Rightarrow> saturating_sub (lk_next s + 1) (ucast mx)) \<and> k = record_key i
      then None else ((view (lk_l3 s))(record_key (lk_next s) \<mapsto> v)) k)"
    by (rule l3_ckpt_append_effect [OF assms(1,2) ok(1) assms(5,4)]) blast
  have "(case lk_max_records s of None \<Rightarrow> 0 | Some mx \<Rightarrow> saturating_sub (lk_next s + 1) (ucast mx)) \<le> lk_next s"
    using low_watermark assms(5) ok(2) by (auto split: option.splits)
  then have new: "view (lk_l3 s') (record_key (lk_next s)) = Some v" unfolding v(6) by auto
  have ok': "ckpts_ok C (view (lk_l3 s')) (lk_next s + 1)"
    by (rule ckpts_ok_submap [OF v(5)]) (simp add: v(6))
  have "i \<le> lk_next s" if "i \<in> stored_ids (view (lk_l3 s'))" for i
    using ckpts_ok_below [OF ok' that] by (simp add: inc_le linorder_not_less [symmetric]) (meson inc_le leD not_le_imp_less)
  then have "stored_latest C (view (lk_l3 s')) = Some r'" using new v(2) by (intro stored_latest_eq) auto
  then show ?thesis using ok' ok(2) v(1,3,4) new by (simp add: l3_ckpt_inv_def stored_ids_def)
qed

lemma l3_ckpt_read_ok:
  assumes "l3_store L view" and "ckpts_ok C (view (lk_l3 s)) n" and kvs: "l3_scan_prefix L (lk_l3 s) checkpoint_prefix = Inr kvs"
  shows "l3_ckpt_read_last L C s = Inr (stored_latest C (view (lk_l3 s)))"
proof -
  let ?D = "stored_ids (view (lk_l3 s))"
  note eq = scan_ckpts [OF assms]
  show ?thesis
  proof (cases "?D = {}")
    case True
    then show ?thesis using kvs eq by (simp add: l3_ckpt_read_last_def stored_latest_def)
  next
    case False
    then have ne: "sorted_list_of_set ?D \<noteq> []" by simp
    then have "last (sorted_list_of_set ?D) = Max ?D"
      using last_sorted_Max [of "sorted_list_of_set ?D"] by simp
    then have l: "snd (last kvs) = the (view (lk_l3 s) (record_key (Max ?D)))" "kvs \<noteq> []"
      using ne by (simp_all add: eq last_map)
    have "Max ?D \<in> ?D" using False by simp
    then obtain v where v: "view (lk_l3 s) (record_key (Max ?D)) = Some v" by (auto simp: stored_ids_def)
    then have "\<exists>r. cc_deserialize C v = Inr r" using assms(2) record_key_simps(2) unfolding ckpts_ok_def by meson
    then show ?thesis using kvs False l v by (auto simp: l3_ckpt_read_last_def stored_latest_def)
  qed
qed

lemma l3_ckpt_latest:
  assumes "l3_store L view" and "ckpts_ok C (view (lk_l3 s)) n" and "l3_ckpt_read_last L C s = Inr x"
  shows "x = stored_latest C (view (lk_l3 s))"
proof -
  obtain kvs where "l3_scan_prefix L (lk_l3 s) checkpoint_prefix = Inr kvs"
    using assms(3) by (auto simp: l3_ckpt_read_last_def rbind_Inr_conv)
  from l3_ckpt_read_ok [OF assms(1,2) this] show ?thesis using assms(3) by simp
qed

lemma l3_ckpt_persist:
  assumes "l3_store L view" and "ckpt_codec_roundtrips C"
  shows "checkpoint_persist (l3_ckpt_ops L C) (l3_ckpt_inv C view) (\<lambda>s. stored_latest C (view (lk_l3 s)))
    (\<lambda>r. ck_id r \<noteq> -1)"
proof
  fix s r r' s'
  assume i: "l3_ckpt_inv C view s" and app: "cp_append (l3_ckpt_ops L C) r s = (Inr (), r', s')" and id: "ck_id r' \<noteq> -1"
  have app': "l3_ckpt_append L C r s = (Inr (), r', s')" using app by (simp add: l3_ckpt_ops_def)
  then have "ck_id r' = lk_next s"
    by (auto simp: l3_ckpt_append_def Let_def split: sum.splits prod.splits option.splits if_splits)
  with id have "lk_next s \<noteq> -1" by simp
  from l3_ckpt_append_kept [OF assms i app' this]
  show "l3_ckpt_inv C view s' \<and> r' = r\<lparr>ck_id := cp_next_id (l3_ckpt_ops L C) s\<rparr> \<and>
      stored_latest C (view (lk_l3 s')) = Some r' \<and> cp_next_id (l3_ckpt_ops L C) s' = cp_next_id (l3_ckpt_ops L C) s + 1"
    by (simp add: l3_ckpt_ops_def)
next
  fix s x
  assume "l3_ckpt_inv C view s" "cp_read_last (l3_ckpt_ops L C) s = Inr x"
  then show "x = stored_latest C (view (lk_l3 s))"
    using l3_ckpt_latest [OF assms(1), of C s "lk_next s" x] by (simp add: l3_ckpt_inv_def l3_ckpt_ops_def)
qed

lemma foldr_max: "foldr max xs (a :: 'a::linorder) = Max (insert a (set xs))"
proof (induction xs)
  case (Cons x xs)
  then have "foldr max (x # xs) a = max x (Max (insert a (set xs)))" by simp
  also have "\<dots> = Max (insert x (insert a (set xs)))" by simp
  finally show ?case by (simp add: insert_commute)
qed simp

lemma max_opt_Max: "xs \<noteq> [] \<Longrightarrow> max_opt xs = Some (Max (set xs))"
  by (cases xs) (simp_all add: max_opt_def foldr_max)

lemma l3_ckpt_open_next:
  assumes "l3_store L view" and "ckpts_ok C (view l3) n" and "l3_ckpt_open L l3 = Inr s"
    and "i \<in> stored_ids (view l3)" and "\<forall>j \<in> stored_ids (view l3). j \<le> i"
  shows "lk_next s = i + 1 \<and> lk_l3 s = l3 \<and> lk_max_records s = None"
proof -
  let ?D = "stored_ids (view l3)"
  obtain kvs where kvs: "l3_scan_prefix L l3 checkpoint_prefix = Inr kvs"
    using assms(3) by (auto simp: l3_ckpt_open_def rbind_Inr_conv)
  have "filter_map (\<lambda>(k, _). parse_checkpoint_key k) kvs = sorted_list_of_set ?D"
    unfolding scan_ckpts [OF assms(1,2) kvs] by (simp add: filter_map_def comp_def)
  moreover have "sorted_list_of_set ?D \<noteq> []" using assms(4) by auto
  moreover have "Max ?D = i" using assms(4,5) by (intro Max_eqI) auto
  ultimately have "max_opt (filter_map (\<lambda>(k, _). parse_checkpoint_key k) kvs) = Some i"
    using max_opt_Max [of "sorted_list_of_set ?D"] by simp
  then show ?thesis using assms(3) kvs by (auto simp: l3_ckpt_open_def)
qed

section \<open>A concrete codec\<close>

definition enc_checkpoint :: "checkpoint_record \<Rightarrow> bytes" where
  "enc_checkpoint =
     enc_via (\<lambda>r. (ck_id r, ck_timestamp_nanos r, ck_source_offsets r, ck_pending_event_ids r, ck_delivered_count r,
                   ck_failed_count r, ck_per_sink_ack_seq r))
       (enc_pair enc_word (enc_pair enc_word (enc_pair (enc_list (enc_pair enc_word enc_word)) (enc_pair (enc_list enc_bytes)
         (enc_pair enc_word (enc_pair enc_word (enc_list (enc_pair enc_string enc_word))))))))"

definition dec_checkpoint :: "bytes \<Rightarrow> (checkpoint_record \<times> bytes) option" where
  "dec_checkpoint =
     dec_via (\<lambda>(i, t, os, ps, d, f, acks).
         \<lparr>ck_id = i, ck_timestamp_nanos = t, ck_source_offsets = os, ck_pending_event_ids = ps, ck_delivered_count = d,
          ck_failed_count = f, ck_per_sink_ack_seq = acks\<rparr>)
       (dec_pair dec_word (dec_pair dec_word (dec_pair (dec_list (dec_pair dec_word dec_word)) (dec_pair (dec_list dec_bytes)
         (dec_pair dec_word (dec_pair dec_word (dec_list (dec_pair dec_string dec_word))))))))"

interpretation checkpoint_codec: byte_codec enc_checkpoint dec_checkpoint
  unfolding enc_checkpoint_def dec_checkpoint_def by (rule codec_via) (intro codec_intros, simp)

definition byte_ckpt_codec :: ckpt_codec where
  "byte_ckpt_codec = \<lparr>cc_serialize = (\<lambda>r. Inr (enc_checkpoint r)), cc_deserialize = parse_all dec_checkpoint\<rparr>"

lemma byte_ckpt_codec_roundtrips: "ckpt_codec_roundtrips byte_ckpt_codec"
  by (auto simp: ckpt_codec_roundtrips_def byte_ckpt_codec_def intro!: parse_all_enc checkpoint_codec.byte_codec_axioms)

interpretation wal_ckpt: checkpoint_persist "wal_ops sum_crc byte_ckpt_codec" "wal_clean sum_crc byte_ckpt_codec"
  "wal_latest sum_crc byte_ckpt_codec" "record_fits byte_ckpt_codec"
  by (rule wal_persist [OF byte_ckpt_codec_roundtrips])

interpretation tree_ckpt: checkpoint_persist "l3_ckpt_ops (redb_ops tree_redb) byte_ckpt_codec"
  "l3_ckpt_inv byte_ckpt_codec (\<lambda>s. RBT.lookup (rs_db s))"
  "\<lambda>s. stored_latest byte_ckpt_codec (RBT.lookup (rs_db (lk_l3 s)))" "\<lambda>r. ck_id r \<noteq> -1"
  by (rule l3_ckpt_persist [OF redb.l3_store_axioms byte_ckpt_codec_roundtrips])

section \<open>Properties\<close>

lemma wal_append_all_holds:
  assumes "ckpt_codec_roundtrips C"
  shows "append_all (wal_ops crc C) rs w = (Inr rs', w') \<Longrightarrow> \<forall>r \<in> set rs'. record_fits C r \<Longrightarrow>
    wal_holds crc C (ws_file w) rs0 \<Longrightarrow> wal_holds crc C (ws_file w') (rs0 @ rs')"
proof (induction rs arbitrary: w rs' rs0)
  case (Cons r rs)
  obtain r1 w1 rs1 where step: "wal_append crc C r w = (Inr (), r1, w1)"
    and rest: "append_all (wal_ops crc C) rs w1 = (Inr rs1, w')" and rs': "rs' = r1 # rs1"
    using Cons.prems(1) by (auto simp: wal_ops_def split: prod.splits sum.splits)
  have "wal_holds crc C (ws_file w1) (rs0 @ [r1])"
    using Cons.prems(2,3) rs' by (intro wal_append_holds [OF assms _ step]) simp_all
  with Cons.IH [OF rest, of "rs0 @ [r1]"] Cons.prems(2) rs' show ?case by simp
qed simp

text \<open>
  C9: the checkpoint WAL survives a crash.  Records appended to a fresh WAL get the ids 0, 1, 2 and so
  on, and reading the file returns exactly them, also when the process died while it wrote the next
  frame and any proper prefix of that frame reached the file.
\<close>

theorem wal_crash_safe:
  assumes "ckpt_codec_roundtrips C" and "writer_new crc C None readable (Inr ()) io = Inr w"
    and "append_all (wal_ops crc C) rs w = (Inr rs', w')" and "\<forall>r \<in> set rs'. record_fits C r"
    and "fits_u32 next_data" and "n < length (wal_frame crc next_data)"
  shows "reader_read_all crc C (Some (Inr (ws_file w' @ take n (wal_frame crc next_data)))) = Inr rs' \<and>
    map ck_id rs' = map of_nat [0..<length rs]"
proof -
  have w: "ws_file w = wal_header" "ws_next w = 0" using assms(2) by (auto simp: writer_new_def)
  then have "wal_holds crc C (ws_file w') ([] @ rs')"
    using wal_append_all_holds [OF assms(1,3,4), of "[]"] wal_holds_new by simp
  then have "read_wal_records crc C (Inr (ws_file w' @ take n (wal_frame crc next_data))) = Inr rs'"
    using wal_holds_read_torn [where extra = "[]" and n = n and d = next_data] assms(5,6) by simp
  moreover have "wal_clean crc C w" using w wal_holds_new by (auto simp: wal_clean_def)
  then have "map ck_id rs' = map of_nat [0..<length rs]"
    using checkpoint_persist.append_all_ids [OF wal_persist [OF assms(1)] _ assms(3,4)] w(2) by (simp add: wal_ops_def)
  ultimately show ?thesis by (simp add: reader_read_all_def)
qed

definition sample_ckpt :: checkpoint_record where
  "sample_ckpt = checkpoint_new 5 0 [(PartitionId 3, 40)] [] 7 0"

lemma sample_ckpt_fits: "fits_u32 (enc_checkpoint (sample_ckpt\<lparr>ck_id := 0\<rparr>))" "length (enc_checkpoint (sample_ckpt\<lparr>ck_id := 0\<rparr>)) < 20"
  by (simp_all add: fits_u32_def enc_checkpoint_def sample_ckpt_def checkpoint_new_def codec_eval)

theorem wal_crash_safe_witness:
  "\<exists>w w'. writer_new sum_crc byte_ckpt_codec None True (Inr ()) [] = Inr w \<and>
     append_all (wal_ops sum_crc byte_ckpt_codec) [sample_ckpt] w = (Inr [sample_ckpt\<lparr>ck_id := 0\<rparr>], w') \<and>
     reader_read_all sum_crc byte_ckpt_codec (Some (Inr (ws_file w' @ take 9 (wal_frame sum_crc [1, 2, 3]))))
       = Inr [sample_ckpt\<lparr>ck_id := 0\<rparr>]"
proof -
  obtain w where w: "writer_new sum_crc byte_ckpt_codec None True (Inr ()) [] = Inr w" "ws_next w = 0" "ws_io w = []"
    by (simp add: writer_new_def)
  then obtain w' where app: "append_all (wal_ops sum_crc byte_ckpt_codec) [sample_ckpt] w = (Inr [sample_ckpt\<lparr>ck_id := 0\<rparr>], w')"
    by (simp add: wal_ops_def wal_append_def next_io_def byte_ckpt_codec_def Let_def)
  have "reader_read_all sum_crc byte_ckpt_codec (Some (Inr (ws_file w' @ take 9 (wal_frame sum_crc [1, 2, 3]))))
       = Inr [sample_ckpt\<lparr>ck_id := 0\<rparr>]"
    using wal_crash_safe [OF byte_ckpt_codec_roundtrips w(1) app, of "[1, 2, 3]" 9] sample_ckpt_fits(1)
    by (simp add: record_fits_def byte_ckpt_codec_def fits_u32_def)
  with w app show ?thesis by blast
qed



text \<open>
  Checkpoints in the L3 store survive a restart.  A successful append stores the record under the
  next id; a store opened again reads back exactly that record and continues with the following id, and
  with a retention bound no older record than the bound allows is left.
\<close>

theorem l3_checkpoint_survives_reopen:
  assumes "l3_store L view" and "ckpt_codec_roundtrips C" and "l3_ckpt_inv C view s" and "lk_next s \<noteq> -1"
    and "l3_ckpt_append L C r s = (Inr (), r', s')" and "l3_scan_prefix L (lk_l3 s') checkpoint_prefix = Inr kvs"
  shows "\<exists>s''. l3_ckpt_open L (lk_l3 s') = Inr s'' \<and> lk_next s'' = lk_next s + 1 \<and>
    l3_ckpt_read_last L C s'' = Inr (Some (r\<lparr>ck_id := lk_next s\<rparr>)) \<and>
    (\<forall>mx. lk_max_records s = Some mx \<longrightarrow>
       (\<forall>i \<in> stored_ids (view (lk_l3 s')). saturating_sub (lk_next s + 1) (ucast mx) \<le> i))"
proof -
  note kept = l3_ckpt_append_kept [OF assms(1-3,5,4)]
  have ok: "ckpts_ok C (view (lk_l3 s')) (lk_next s + 1)" using kept unfolding l3_ckpt_inv_def by metis
  have le: "\<forall>j \<in> stored_ids (view (lk_l3 s')). j \<le> lk_next s"
    using ckpts_ok_below [OF ok] by (meson inc_le leD not_le_imp_less)
  obtain s'' where op: "l3_ckpt_open L (lk_l3 s') = Inr s''"
    using assms(6) by (simp add: l3_ckpt_open_def Let_def)
  have open_eq: "lk_next s'' = lk_next s + 1" "lk_l3 s'' = lk_l3 s'"
    using l3_ckpt_open_next [OF assms(1) ok op _ le] kept by simp_all
  have "l3_ckpt_read_last L C s'' = Inr (Some (r\<lparr>ck_id := lk_next s\<rparr>))"
    using l3_ckpt_read_ok [OF assms(1), of C s'' "lk_next s + 1" kvs] ok open_eq(2) kept assms(6) by simp
  moreover have "saturating_sub (lk_next s + 1) (ucast mx) \<le> i"
    if "lk_max_records s = Some mx" "i \<in> stored_ids (view (lk_l3 s'))" for mx i
  proof -
    have "ckpts_ok C (view (lk_l3 s)) (lk_next s)" using assms(3) by (simp add: l3_ckpt_inv_def)
    then obtain v where "view (lk_l3 s') = (\<lambda>k. if \<exists>i \<in> stored_ids ((view (lk_l3 s))(record_key (lk_next s) \<mapsto> v)).
        i < (case lk_max_records s of None \<Rightarrow> 0 | Some mx \<Rightarrow> saturating_sub (lk_next s + 1) (ucast mx)) \<and> k = record_key i
      then None else ((view (lk_l3 s))(record_key (lk_next s) \<mapsto> v)) k)"
      by (rule l3_ckpt_append_effect [OF assms(1,2) _ assms(4,5)]) blast
    then show ?thesis using that by (auto simp: stored_ids_def not_less [symmetric] split: if_splits)
  qed
  ultimately show ?thesis using op open_eq(1) by blast
qed

lemma tree_flush [simp]: "l3_flush (redb_ops tree_redb) l = (Inr (), l)"
  by (simp add: redb_ops_def redb_flush_def)

lemma tree_purge: "\<exists>l'. purge_below (redb_ops tree_redb) low l = (Inr (), l')"
proof -
  obtain kvs where "l3_scan_prefix (redb_ops tree_redb) l checkpoint_prefix = Inr kvs" using tree_scan_total by blast
  moreover obtain l' where "l3_write_batch (redb_ops tree_redb) l (purge_ops low kvs) = (Inr (), l')"
    using tree_write_batch_total by blast
  ultimately show ?thesis by (simp add: purge_below_def Let_def)
qed

lemma tree_ckpt_append:
  "\<exists>s'. l3_ckpt_append (redb_ops tree_redb) byte_ckpt_codec r s = (Inr (), r\<lparr>ck_id := lk_next s\<rparr>, s')"
proof -
  obtain l1 where l1: "l3_write_batch (redb_ops tree_redb) (lk_l3 s)
      [(Put, record_key (lk_next s), Some (enc_checkpoint (r\<lparr>ck_id := lk_next s\<rparr>)))] = (Inr (), l1)"
    using tree_write_batch_total by blast
  show ?thesis
  proof (cases "lk_max_records s")
    case (Some mx)
    obtain l2 where "purge_below (redb_ops tree_redb) (saturating_sub (lk_next s + 1) (ucast mx)) l1 = (Inr (), l2)"
      using tree_purge by blast
    then show ?thesis using l1 Some by (simp add: l3_ckpt_append_def byte_ckpt_codec_def Let_def)
  qed (use l1 in \<open>simp add: l3_ckpt_append_def byte_ckpt_codec_def Let_def\<close>)
qed

theorem l3_checkpoint_survives_reopen_witness:
  "\<exists>s' s''. l3_ckpt_append (redb_ops tree_redb) byte_ckpt_codec sample_ckpt
        \<lparr>lk_l3 = empty_store, lk_next = 4, lk_max_records = Some 2\<rparr> = (Inr (), sample_ckpt\<lparr>ck_id := 4\<rparr>, s') \<and>
     l3_ckpt_open (redb_ops tree_redb) (lk_l3 s') = Inr s'' \<and> lk_next s'' = 5 \<and>
     l3_ckpt_read_last (redb_ops tree_redb) byte_ckpt_codec s'' = Inr (Some (sample_ckpt\<lparr>ck_id := 4\<rparr>))"
proof -
  let ?s = "\<lparr>lk_l3 = empty_store, lk_next = 4, lk_max_records = Some 2\<rparr>"
  obtain s' where app: "l3_ckpt_append (redb_ops tree_redb) byte_ckpt_codec sample_ckpt ?s = (Inr (), sample_ckpt\<lparr>ck_id := 4\<rparr>, s')"
    using tree_ckpt_append [of sample_ckpt ?s] by auto
  obtain kvs where kvs: "l3_scan_prefix (redb_ops tree_redb) (lk_l3 s') checkpoint_prefix = Inr kvs"
    using tree_scan_total by blast
  have inv: "l3_ckpt_inv byte_ckpt_codec (\<lambda>s. RBT.lookup (rs_db s)) ?s"
    by (simp add: l3_ckpt_inv_def ckpts_ok_def empty_store_def)
  from l3_checkpoint_survives_reopen [OF redb.l3_store_axioms byte_ckpt_codec_roundtrips inv _ app kvs] app
  show ?thesis by auto
qed

text \<open>
  A retention bound of zero records erases every checkpoint.  \<open>L3CheckpointStore\<close> accepts
  \<open>max_records = 0\<close>; an append then reports success and its retention sweep deletes the record it just
  wrote together with all others, so nothing is left to recover from.
\<close>

theorem zero_retention_erases_checkpoints:
  assumes "l3_store L view" and "ckpt_codec_roundtrips C" and "ckpts_ok C (view (lk_l3 s)) (lk_next s)"
    and "lk_max_records s = Some 0" and "lk_next s \<noteq> -1" and "l3_ckpt_append L C r s = (Inr (), r', s')"
  shows "stored_ids (view (lk_l3 s')) = {}"
proof -
  obtain v where v: "ckpts_ok C ((view (lk_l3 s))(record_key (lk_next s) \<mapsto> v)) (lk_next s + 1)"
    "view (lk_l3 s') = (\<lambda>k. if \<exists>i \<in> stored_ids ((view (lk_l3 s))(record_key (lk_next s) \<mapsto> v)).
        i < (case lk_max_records s of None \<Rightarrow> 0 | Some mx \<Rightarrow> saturating_sub (lk_next s + 1) (ucast mx)) \<and> k = record_key i
      then None else ((view (lk_l3 s))(record_key (lk_next s) \<mapsto> v)) k)"
    by (rule l3_ckpt_append_effect [OF assms(1-3,5,6)]) blast
  show ?thesis
    using ckpts_ok_below [OF v(1)] unfolding v(2) assms(4) by (auto simp: stored_ids_def saturating_sub_def)
qed

theorem zero_retention_erases_checkpoints_witness:
  "\<exists>s'. l3_ckpt_append (redb_ops tree_redb) byte_ckpt_codec sample_ckpt
        \<lparr>lk_l3 = empty_store, lk_next = 4, lk_max_records = Some 0\<rparr> = (Inr (), sample_ckpt\<lparr>ck_id := 4\<rparr>, s') \<and>
     stored_ids (RBT.lookup (rs_db (lk_l3 s'))) = {}"
proof -
  let ?s = "\<lparr>lk_l3 = empty_store, lk_next = 4, lk_max_records = Some 0\<rparr>"
  obtain s' where app: "l3_ckpt_append (redb_ops tree_redb) byte_ckpt_codec sample_ckpt ?s = (Inr (), sample_ckpt\<lparr>ck_id := 4\<rparr>, s')"
    using tree_ckpt_append [of sample_ckpt ?s] by auto
  have "ckpts_ok byte_ckpt_codec (RBT.lookup (rs_db (lk_l3 ?s))) (lk_next ?s)"
    by (simp add: ckpts_ok_def empty_store_def)
  from zero_retention_erases_checkpoints [OF redb.l3_store_axioms byte_ckpt_codec_roundtrips this _ _ app] app
  show ?thesis by auto
qed

end
