(* ===== verification/Eo2_Recovery.thy ===== *)
theory Eo2_Recovery
  imports Checkpoint
begin

text \<open>
  \<open>aeon-engine/src/eo2_recovery.rs\<close>: the checkpoint store that falls back from its primary to a WAL
  file, and the recovery plan derived from the last checkpoint.  The primary is any \<open>CheckpointPersist\<close>
  with state \<open>'p\<close>; the WAL file is on disk while it is closed and in the open store otherwise.  Metrics
  and log lines are left out.
\<close>

record 'p fallback_store =
  fb_primary :: 'p
  fb_disk :: "bytes option"
  fb_wal :: "wal_store option"
  fb_in_fallback :: bool
  fb_transitions :: u64
  fb_mkdir :: "unit res"
  fb_create :: "unit res"
  fb_io :: "append_io list"
  fb_readable :: bool

definition fallback_new :: "'p \<Rightarrow> bytes option \<Rightarrow> unit res \<Rightarrow> unit res \<Rightarrow> append_io list \<Rightarrow> bool \<Rightarrow> 'p fallback_store" where
  "fallback_new primary disk mkdir create io readable =
     \<lparr>fb_primary = primary, fb_disk = disk, fb_wal = None, fb_in_fallback = False, fb_transitions = 0,
      fb_mkdir = mkdir, fb_create = create, fb_io = io, fb_readable = readable\<rparr>"

definition open_wal :: "(bytes \<Rightarrow> u32) \<Rightarrow> ckpt_codec \<Rightarrow> 'p fallback_store \<Rightarrow> wal_store res" where
  "open_wal crc C s =
     rbind (fb_mkdir s) (\<lambda>_. writer_new crc C (fb_disk s) (fb_readable s) (fb_create s) (fb_io s))"

definition engage_fallback :: "(bytes \<Rightarrow> u32) \<Rightarrow> ckpt_codec \<Rightarrow> 'p fallback_store \<Rightarrow> unit res \<times> 'p fallback_store" where
  "engage_fallback crc C s =
     (case (case fb_wal s of Some w \<Rightarrow> Inr w | None \<Rightarrow> open_wal crc C s) of
        Inl e \<Rightarrow> (Inl e, s)
      | Inr w \<Rightarrow>
          (Inr (), s\<lparr>fb_wal := Some w, fb_in_fallback := True,
                     fb_transitions := (if fb_in_fallback s then fb_transitions s else fb_transitions s + 1)\<rparr>))"

definition fallback_append :: "(bytes \<Rightarrow> u32) \<Rightarrow> ckpt_codec \<Rightarrow> 'p ckpt_ops \<Rightarrow> checkpoint_record \<Rightarrow> 'p fallback_store
    \<Rightarrow> unit res \<times> checkpoint_record \<times> 'p fallback_store" where
  "fallback_append crc C P record s =
     (let route_to_wal = (\<lambda>record s.
            case fb_wal s of
              None \<Rightarrow> (Inl (State ''fallback: WAL not open''), record, s)
            | Some w \<Rightarrow> (case wal_append crc C record w of (r, record', w') \<Rightarrow> (r, record', s\<lparr>fb_wal := Some w'\<rparr>)))
      in if fb_in_fallback s then route_to_wal record s
         else case cp_append P record (fb_primary s) of
                (Inr _, record', p') \<Rightarrow> (Inr (), record', s\<lparr>fb_primary := p'\<rparr>)
              | (Inl e, record', p') \<Rightarrow>
                  (case engage_fallback crc C (s\<lparr>fb_primary := p'\<rparr>) of
                     (Inl e', s') \<Rightarrow> (Inl e', record', s')
                   | (Inr _, s') \<Rightarrow> route_to_wal record' s'))"

definition wal_read_last :: "(bytes \<Rightarrow> u32) \<Rightarrow> ckpt_codec \<Rightarrow> wal_store \<Rightarrow> checkpoint_record option res" where
  "wal_read_last crc C w = reader_read_last crc C (Some (wal_contents w))"

definition fallback_read_last :: "(bytes \<Rightarrow> u32) \<Rightarrow> ckpt_codec \<Rightarrow> 'p ckpt_ops \<Rightarrow> 'p fallback_store
    \<Rightarrow> checkpoint_record option res" where
  "fallback_read_last crc C P s =
     (case cp_read_last P (fb_primary s) of
        Inr (Some r) \<Rightarrow>
          (case fb_wal s of
             None \<Rightarrow> Inr (Some r)
           | Some w \<Rightarrow>
               (case wal_read_last crc C w of
                  Inr (Some wr) \<Rightarrow> if ck_id wr > ck_id r then Inr (Some wr) else Inr (Some r)
                | _ \<Rightarrow> Inr (Some r)))
      | Inr None \<Rightarrow> (case fb_wal s of Some w \<Rightarrow> wal_read_last crc C w | None \<Rightarrow> Inr None)
      | Inl _ \<Rightarrow> (case fb_wal s of Some w \<Rightarrow> wal_read_last crc C w | None \<Rightarrow> Inr None))"

definition fallback_next_id :: "'p ckpt_ops \<Rightarrow> 'p fallback_store \<Rightarrow> u64" where
  "fallback_next_id P s =
     (case (if fb_in_fallback s then fb_wal s else None) of
        Some w \<Rightarrow> ws_next w
      | None \<Rightarrow> cp_next_id P (fb_primary s))"

text \<open>Leaving fallback closes the WAL; its file stays on disk.\<close>

definition leave_fallback :: "wal_store \<Rightarrow> 'p fallback_store \<Rightarrow> 'p fallback_store" where
  "leave_fallback w s = s\<lparr>fb_in_fallback := False, fb_wal := None, fb_disk := Some (ws_file w)\<rparr>"

definition try_recover_primary :: "(bytes \<Rightarrow> u32) \<Rightarrow> ckpt_codec \<Rightarrow> 'p ckpt_ops \<Rightarrow> 'p fallback_store
    \<Rightarrow> bool res \<times> 'p fallback_store" where
  "try_recover_primary crc C P s =
     (if \<not> fb_in_fallback s then (Inr True, s)
      else case fb_wal s of
             None \<Rightarrow> (Inr True, s\<lparr>fb_in_fallback := False\<rparr>)
           | Some w \<Rightarrow>
               (case cp_read_last P (fb_primary s) of
                  Inl _ \<Rightarrow> (Inr False, s)
                | Inr primary_last \<Rightarrow>
                    (case wal_read_last crc C w of
                       Inl e \<Rightarrow> (Inl e, s)
                     | Inr None \<Rightarrow> (Inr True, leave_fallback w s)
                     | Inr (Some wr) \<Rightarrow>
                         (case primary_last of
                            Some r \<Rightarrow>
                              if ck_id wr \<le> ck_id r then (Inr True, leave_fallback w s)
                              else (case cp_append P wr (fb_primary s) of
                                      (Inl _, _, p') \<Rightarrow> (Inr False, s\<lparr>fb_primary := p'\<rparr>)
                                    | (Inr _, _, p') \<Rightarrow> (Inr True, leave_fallback w (s\<lparr>fb_primary := p'\<rparr>)))
                          | None \<Rightarrow>
                              (case cp_append P wr (fb_primary s) of
                                 (Inl _, _, p') \<Rightarrow> (Inr False, s\<lparr>fb_primary := p'\<rparr>)
                               | (Inr _, _, p') \<Rightarrow> (Inr True, leave_fallback w (s\<lparr>fb_primary := p'\<rparr>)))))))"

definition fallback_ops :: "(bytes \<Rightarrow> u32) \<Rightarrow> ckpt_codec \<Rightarrow> 'p ckpt_ops \<Rightarrow> 'p fallback_store ckpt_ops" where
  "fallback_ops crc C P =
     \<lparr>cp_append = fallback_append crc C P, cp_read_last = fallback_read_last crc C P,
      cp_next_id = fallback_next_id P, cp_try_recover = try_recover_primary crc C P\<rparr>"

section \<open>Recovery plans\<close>

record recovery_plan =
  rp_pull_seek_offsets :: "(partition_id \<times> i64) list"
  rp_l2_replay_start_seq :: u64
  rp_source_checkpoint_id :: u64

datatype recovery_action = SeekPartitions "(partition_id \<times> i64) list" | ReplayL2From u64

definition min_opt :: "'a::linorder list \<Rightarrow> 'a option" where
  "min_opt xs = (if xs = [] then None else Some (foldr min (tl xs) (hd xs)))"

definition plan_from_last :: "checkpoint_record option \<Rightarrow> recovery_plan" where
  "plan_from_last record =
     (case record of
        None \<Rightarrow> \<lparr>rp_pull_seek_offsets = [], rp_l2_replay_start_seq = 0, rp_source_checkpoint_id = 0\<rparr>
      | Some r \<Rightarrow>
          \<lparr>rp_pull_seek_offsets = map (\<lambda>(p, off). (PartitionId p, off)) (ck_source_offsets r),
           rp_l2_replay_start_seq = (case min_opt (map snd (ck_per_sink_ack_seq r)) of None \<Rightarrow> 0 | Some m \<Rightarrow> m),
           rp_source_checkpoint_id = ck_id r\<rparr>)"

fun action_for :: "recovery_plan \<Rightarrow> source_kind \<Rightarrow> recovery_action" where
  "action_for p Pull = SeekPartitions (rp_pull_seek_offsets p)"
| "action_for p Push = ReplayL2From (rp_l2_replay_start_seq p)"
| "action_for p Poll = ReplayL2From (rp_l2_replay_start_seq p)"

lemma foldr_min: "foldr min xs (a :: 'a::linorder) = Min (insert a (set xs))"
proof (induction xs)
  case (Cons x xs)
  then have "foldr min (x # xs) a = min x (Min (insert a (set xs)))" by simp
  also have "\<dots> = Min (insert x (insert a (set xs)))" by simp
  finally show ?case by (simp add: insert_commute)
qed simp

lemma min_opt_Min: "xs \<noteq> [] \<Longrightarrow> min_opt xs = Some (Min (set xs))"
  by (cases xs) (simp_all add: min_opt_def foldr_min)

lemma min_opt_le: "min_opt xs = Some m \<Longrightarrow> x \<in> set xs \<Longrightarrow> m \<le> x"
  by (cases "xs = []") (auto simp: min_opt_Min)

section \<open>Properties\<close>

text \<open>
  The fallback store loses the checkpoints it falls back with.  The WAL numbers its records from
  zero, so when the primary already holds a checkpoint and then refuses a write, the append is answered
  from the WAL with success, but reading back still prefers the older primary record, and the next
  recovery attempt finds the WAL behind the primary, drops it without replaying and reports the store
  healthy.
\<close>

theorem fallback_loses_checkpoint:
  assumes "\<not> fb_in_fallback s" and "fb_wal s = None" and "fb_disk s = None" and "fb_io s = []" and "fb_readable s"
    and "fb_mkdir s = Inr ()" and "fb_create s = Inr ()"
    and "cp_append P r (fb_primary s) = (Inl e, r1, p1)" and "cp_read_last P p1 = Inr (Some old)"
    and "ckpt_codec_roundtrips C" and "cc_serialize C (r1\<lparr>ck_id := 0\<rparr>) = Inr d" and "fits_u32 d"
  shows "\<exists>s1 s2. fallback_append crc C P r s = (Inr (), r1\<lparr>ck_id := 0\<rparr>, s1) \<and>
    fallback_read_last crc C P s1 = Inr (Some old) \<and>
    try_recover_primary crc C P s1 = (Inr True, s2) \<and> fallback_read_last crc C P s2 = Inr (Some old)"
proof -
  let ?w = "\<lparr>ws_file = wal_header, ws_next = 0, ws_io = [], ws_readable = True\<rparr>"
  let ?w' = "?w\<lparr>ws_file := wal_header @ wal_frame crc d, ws_next := 1\<rparr>"
  let ?s1 = "s\<lparr>fb_primary := p1, fb_wal := Some ?w', fb_in_fallback := True, fb_transitions := fb_transitions s + 1\<rparr>"
  have app: "wal_append crc C r1 ?w = (Inr (), r1\<lparr>ck_id := 0\<rparr>, ?w')"
    using assms(11) by (simp add: wal_append_def next_io_def Let_def)
  have open_eq: "open_wal crc C (s\<lparr>fb_primary := p1\<rparr>) = Inr ?w"
    using assms(3-7) by (simp add: open_wal_def writer_new_def)
  have step: "fallback_append crc C P r s = (Inr (), r1\<lparr>ck_id := 0\<rparr>, ?s1)"
    using assms(1,2,8) app open_eq by (simp add: fallback_append_def engage_fallback_def)
  have "wal_holds crc C (wal_header @ wal_frame crc d) ([] @ [r1\<lparr>ck_id := 0\<rparr>])"
    using assms(10-12) by (intro wal_holds_append [OF wal_holds_new]) (simp_all add: ckpt_codec_roundtrips_def)
  then have wal: "wal_read_last crc C ?w' = Inr (Some (r1\<lparr>ck_id := 0\<rparr>))"
    by (simp add: wal_read_last_def reader_read_last_def wal_contents_def wal_holds_read last_opt_def)
  have "fallback_read_last crc C P ?s1 = Inr (Some old)"
    using assms(9) wal by (simp add: fallback_read_last_def)
  moreover have "try_recover_primary crc C P ?s1 = (Inr True, leave_fallback ?w' ?s1)"
    using assms(9) wal by (simp add: try_recover_primary_def)
  moreover have "fallback_read_last crc C P (leave_fallback ?w' ?s1) = Inr (Some old)"
    using assms(9) by (simp add: fallback_read_last_def leave_fallback_def)
  ultimately show ?thesis using step by blast
qed

text \<open>A primary whose commits fail: the L3 checkpoint store over a database with a full disk.\<close>

definition full_redb :: "(bytes, bytes) rbt redb" where
  "full_redb = tree_redb\<lparr>rb_commit := (\<lambda>d w. Inl ''disk full'')\<rparr>"

lemma full_redb_laws: "redb_laws full_redb RBT.lookup"
  using tree_redb_laws unfolding redb_laws_def full_redb_def by simp

lemma full_redb_scan: "l3_scan_prefix (redb_ops full_redb) s p = l3_scan_prefix (redb_ops tree_redb) s p"
  by (cases "prefix_upper_bound p") (simp_all add: redb_ops_def redb_scan_prefix_def full_redb_def)

definition full_primary :: "tree_store l3_ckpt" where
  "full_primary = \<lparr>lk_l3 = \<lparr>rs_db = RBT.insert (record_key 4) (enc_checkpoint (sample_ckpt\<lparr>ck_id := 4\<rparr>)) RBT.empty,
     rs_entry_count = 1\<rparr>, lk_next = 5, lk_max_records = None\<rparr>"

lemma full_primary_append:
  "\<exists>e p1. cp_append (l3_ckpt_ops (redb_ops full_redb) byte_ckpt_codec) sample_ckpt full_primary
     = (Inl e, sample_ckpt\<lparr>ck_id := 5\<rparr>, p1) \<and> rs_db (lk_l3 p1) = rs_db (lk_l3 full_primary)"
proof -
  obtain w' c' where "txn_batch full_redb [(Put, record_key 5, Some (enc_checkpoint (sample_ckpt\<lparr>ck_id := 5\<rparr>)))]
      (rs_db (lk_l3 full_primary)) (rs_entry_count (lk_l3 full_primary)) = (Inr w', c')"
    by (simp add: txn_put_def full_redb_def tree_redb_simps)
  then show ?thesis
    by (simp add: l3_ckpt_ops_def l3_ckpt_append_def byte_ckpt_codec_def redb_ops_def redb_write_batch_def with_txn_def
        full_redb_def tree_redb_simps state_err_def full_primary_def Let_def)
qed

lemma full_primary_read:
  assumes "rs_db (lk_l3 p1) = rs_db (lk_l3 full_primary)"
  shows "cp_read_last (l3_ckpt_ops (redb_ops full_redb) byte_ckpt_codec) p1 = Inr (Some (sample_ckpt\<lparr>ck_id := 4\<rparr>))"
proof -
  let ?v = "\<lambda>s :: tree_store. RBT.lookup (rs_db s)"
  have m: "?v (lk_l3 p1) = [record_key 4 \<mapsto> enc_checkpoint (sample_ckpt\<lparr>ck_id := 4\<rparr>)]"
    by (simp add: assms full_primary_def)
  have de: "cc_deserialize byte_ckpt_codec (enc_checkpoint (sample_ckpt\<lparr>ck_id := 4\<rparr>)) = Inr (sample_ckpt\<lparr>ck_id := 4\<rparr>)"
    using byte_ckpt_codec_roundtrips by (simp add: ckpt_codec_roundtrips_def byte_ckpt_codec_def)
  have "ckpts_ok byte_ckpt_codec (?v (lk_l3 p1)) 5"
    unfolding m ckpts_ok_def using de by (auto intro!: exI [of _ "sample_ckpt\<lparr>ck_id := 4\<rparr>"] split: if_splits)
  moreover obtain kvs where "l3_scan_prefix (redb_ops full_redb) (lk_l3 p1) checkpoint_prefix = Inr kvs"
    using tree_scan_total [of "lk_l3 p1" checkpoint_prefix] full_redb_scan by metis
  ultimately have "l3_ckpt_read_last (redb_ops full_redb) byte_ckpt_codec p1 = Inr (stored_latest byte_ckpt_codec (?v (lk_l3 p1)))"
    by (rule l3_ckpt_read_ok [OF redb_store_l3 [OF full_redb_laws]])
  moreover have "stored_latest byte_ckpt_codec (?v (lk_l3 p1)) = Some (sample_ckpt\<lparr>ck_id := 4\<rparr>)"
    unfolding m by (rule stored_latest_eq [OF _ _ de, of _ 4]) (auto simp: stored_ids_def split: if_splits)
  ultimately show ?thesis by (simp add: l3_ckpt_ops_def)
qed

theorem fallback_loses_checkpoint_witness:
  "\<exists>s1 s2. fallback_append sum_crc byte_ckpt_codec (l3_ckpt_ops (redb_ops full_redb) byte_ckpt_codec) sample_ckpt
        (fallback_new full_primary None (Inr ()) (Inr ()) [] True) = (Inr (), sample_ckpt\<lparr>ck_id := 0\<rparr>, s1) \<and>
     try_recover_primary sum_crc byte_ckpt_codec (l3_ckpt_ops (redb_ops full_redb) byte_ckpt_codec) s1 = (Inr True, s2) \<and>
     fallback_read_last sum_crc byte_ckpt_codec (l3_ckpt_ops (redb_ops full_redb) byte_ckpt_codec) s2
       = Inr (Some (sample_ckpt\<lparr>ck_id := 4\<rparr>))"
proof -
  let ?s = "fallback_new full_primary None (Inr ()) (Inr ()) [] True"
  obtain e p1 where app: "cp_append (l3_ckpt_ops (redb_ops full_redb) byte_ckpt_codec) sample_ckpt (fb_primary ?s)
      = (Inl e, sample_ckpt\<lparr>ck_id := 5\<rparr>, p1)" and db: "rs_db (lk_l3 p1) = rs_db (lk_l3 full_primary)"
    using full_primary_append by (auto simp: fallback_new_def)
  have ser: "cc_serialize byte_ckpt_codec (sample_ckpt\<lparr>ck_id := 5, ck_id := 0\<rparr>) = Inr (enc_checkpoint (sample_ckpt\<lparr>ck_id := 0\<rparr>))"
    by (simp add: byte_ckpt_codec_def)
  have env: "\<not> fb_in_fallback ?s" "fb_wal ?s = None" "fb_disk ?s = None" "fb_io ?s = []" "fb_readable ?s"
    "fb_mkdir ?s = Inr ()" "fb_create ?s = Inr ()" by (simp_all add: fallback_new_def)
  from fallback_loses_checkpoint [OF env app full_primary_read [OF db] byte_ckpt_codec_roundtrips ser sample_ckpt_fits(1),
      of sum_crc]
  show ?thesis by auto
qed

end
