(* ===== verification/Eo2.thy ===== *)
theory Eo2
  imports L2_Body Backpressure Eo2_Recovery "HOL-Library.Multiset"
begin

text \<open>
  \<open>aeon-engine/src/eo2.rs\<close>: the registry of L2 body stores, the source adapter that writes every event
  of a push or poll source to its partition's store before the pipeline sees it, and the tracker of the
  highest acknowledged sequence number per sink.  A store handle (\<open>Arc<Mutex<L2BodyStore>>\<close>) is the
  entry of the registry map, so both sides see one state.  A lock is never poisoned here, because no
  modelled operation panics while holding one.
\<close>

section \<open>Registry\<close>

record 'k l2_registry =
  rg_stores :: "(string \<times> partition_id, 'k l2_store) hash_map"
  rg_root :: "string option"
  rg_segment_bytes :: u64
  rg_kek :: "'k kek option"
  rg_gc_min_hold :: nat
  rg_disk :: "(string \<times> partition_id, (u64, bytes) hash_map \<times> (u64, 'k) hash_map) hash_map"

text \<open>Without a configured root the directory of the process is used; \<open>disk\<close> is what the directories hold.\<close>

definition registry_new :: "string option \<Rightarrow> string \<Rightarrow> u64
    \<Rightarrow> (string \<times> partition_id, (u64, bytes) hash_map \<times> (u64, 'k) hash_map) hash_map \<Rightarrow> 'k l2_registry" where
  "registry_new root tmp segment_bytes disk =
     \<lparr>rg_stores = [], rg_root = Some (case root of Some r \<Rightarrow> r | None \<Rightarrow> tmp), rg_segment_bytes = segment_bytes,
      rg_kek = None, rg_gc_min_hold = 0, rg_disk = disk\<rparr>"

definition with_kek :: "'k kek \<Rightarrow> 'k l2_registry \<Rightarrow> 'k l2_registry" where
  "with_kek k reg = reg\<lparr>rg_kek := Some k\<rparr>"

definition with_gc_min_hold :: "nat \<Rightarrow> 'k l2_registry \<Rightarrow> 'k l2_registry" where
  "with_gc_min_hold hold reg = reg\<lparr>rg_gc_min_hold := hold\<rparr>"

definition registry_open :: "serde_backend \<Rightarrow> (bytes \<Rightarrow> u32) \<Rightarrow> string \<Rightarrow> partition_id \<Rightarrow> 'k l2_registry
    \<Rightarrow> unit res \<times> 'k l2_registry" where
  "registry_open S crc pipeline part reg =
     (case hm_get (rg_stores reg) (pipeline, part) of
        Some _ \<Rightarrow> (Inr (), reg)
      | None \<Rightarrow>
          (case rg_root reg of
             None \<Rightarrow> (Inl (State ''l2 registry: no root configured''), reg)
           | Some _ \<Rightarrow>
               let (files, metas) = (case hm_get (rg_disk reg) (pipeline, part) of None \<Rightarrow> ([], []) | Some d \<Rightarrow> d)
               in case l2_open S crc files metas (rg_segment_bytes reg) (rg_kek reg) (rg_gc_min_hold reg) [] of
                    Inl e \<Rightarrow> (Inl e, reg)
                  | Inr store \<Rightarrow> (Inr (), reg\<lparr>rg_stores := hm_insert (pipeline, part) store (rg_stores reg)\<rparr>)))"

definition registry_keys :: "'k l2_registry \<Rightarrow> (string \<times> partition_id) list" where
  "registry_keys reg = map fst (rg_stores reg)"

section \<open>Acknowledged sequence numbers\<close>

type_synonym ack_seq_tracker = "(string, u64) hash_map"

definition record_ack :: "string \<Rightarrow> u64 \<Rightarrow> ack_seq_tracker \<Rightarrow> ack_seq_tracker" where
  "record_ack sink seq t = hm_upsert sink 0 (\<lambda>e. if seq > e then seq else e) t"

definition register_sink :: "string \<Rightarrow> ack_seq_tracker \<Rightarrow> ack_seq_tracker" where
  "register_sink sink t = hm_upsert sink 0 (\<lambda>e. e) t"

definition min_across_sinks :: "ack_seq_tracker \<Rightarrow> u64 option" where
  "min_across_sinks t = min_opt (map snd t)"

section \<open>Sources\<close>

text \<open>The \<open>Source\<close> trait: a connector is any implementation of it.\<close>

record 's source_ops =
  so_next_batch :: "'s \<Rightarrow> event list res \<times> 's"
  so_kind :: "'s \<Rightarrow> source_kind"
  so_on_recovery_plan :: "(partition_id \<times> i64) list \<Rightarrow> u64 \<Rightarrow> 's \<Rightarrow> unit res \<times> 's"
  so_broker_coordinated :: "'s \<Rightarrow> bool"

record ('s, 'k) l2_source =
  ls_inner :: 's
  ls_pipeline :: string
  ls_registry :: "'k l2_registry"
  ls_mode :: durability_mode
  ls_last_seqs :: "(partition_id \<times> u64) list"
  ls_capacity :: "pipeline_capacity option"

definition l2_source_new :: "'s \<Rightarrow> string \<Rightarrow> 'k l2_registry \<Rightarrow> durability_mode \<Rightarrow> ('s, 'k) l2_source" where
  "l2_source_new inner pipeline reg mode =
     \<lparr>ls_inner = inner, ls_pipeline = pipeline, ls_registry = reg, ls_mode = mode, ls_last_seqs = [], ls_capacity = None\<rparr>"

definition with_capacity :: "pipeline_capacity \<Rightarrow> ('s, 'k) l2_source \<Rightarrow> ('s, 'k) l2_source" where
  "with_capacity c w = w\<lparr>ls_capacity := Some c\<rparr>"

definition take_last_seqs :: "('s, 'k) l2_source \<Rightarrow> (partition_id \<times> u64) list \<times> ('s, 'k) l2_source" where
  "take_last_seqs w = (ls_last_seqs w, w\<lparr>ls_last_seqs := []\<rparr>)"

definition is_passthrough :: "'s source_ops \<Rightarrow> ('s, 'k) l2_source \<Rightarrow> bool" where
  "is_passthrough Src w \<longleftrightarrow> \<not> requires_l2_body_store (ls_mode w) \<or> so_kind Src (ls_inner w) = Pull"

text \<open>Indices of the batch grouped by partition, each group ascending.\<close>

definition group_by_partition :: "event list \<Rightarrow> (partition_id, nat list) hash_map" where
  "group_by_partition batch =
     fold (\<lambda>(i, ev) m. hm_upsert (ev_partition ev) [] (\<lambda>is. is @ [i]) m) (enumerate 0 batch) []"

text \<open>The writes of one partition, under its store's lock.\<close>

fun write_indices :: "serde_backend \<Rightarrow> (bytes \<Rightarrow> u32) \<Rightarrow> partition_id \<Rightarrow> nat list \<Rightarrow> 'k l2_store
    \<Rightarrow> event list \<times> (partition_id \<times> u64) list \<times> pipeline_capacity option
    \<Rightarrow> unit res \<times> 'k l2_store \<times> (event list \<times> (partition_id \<times> u64) list \<times> pipeline_capacity option)" where
  "write_indices S crc part [] st acc = (Inr (), st, acc)"
| "write_indices S crc part (i # is) st (batch, seqs, cap) =
     (case l2_append S crc (batch ! i) st of
        (Inl e, st') \<Rightarrow> (Inl e, st', (batch, seqs, cap))
      | (Inr seq, st') \<Rightarrow>
          let delta = saturating_sub (disk_bytes st') (disk_bytes st)
          in write_indices S crc part is st'
               (batch[i := (batch ! i)\<lparr>ev_l2_seq := Some seq\<rparr>], seqs[i := (part, seq)],
                (if delta > 0 then map_option (capacity_adjust (as_u16 part) delta) cap else cap)))"

fun write_groups :: "serde_backend \<Rightarrow> (bytes \<Rightarrow> u32) \<Rightarrow> string \<Rightarrow> (partition_id \<times> nat list) list \<Rightarrow> 'k l2_registry
    \<Rightarrow> event list \<times> (partition_id \<times> u64) list \<times> pipeline_capacity option
    \<Rightarrow> unit res \<times> 'k l2_registry \<times> (event list \<times> (partition_id \<times> u64) list \<times> pipeline_capacity option)" where
  "write_groups S crc pipeline [] reg acc = (Inr (), reg, acc)"
| "write_groups S crc pipeline ((part, is) # groups) reg acc =
     (case registry_open S crc pipeline part reg of
        (Inl e, reg1) \<Rightarrow> (Inl e, reg1, acc)
      | (Inr _, reg1) \<Rightarrow>
          (case hm_get (rg_stores reg1) (pipeline, part) of
             None \<Rightarrow> (Inl (State ''l2 store lock poisoned''), reg1, acc)
           | Some st \<Rightarrow>
               (case write_indices S crc part is st acc of
                  (r, st', acc') \<Rightarrow>
                    let reg2 = reg1\<lparr>rg_stores := hm_insert (pipeline, part) st' (rg_stores reg1)\<rparr>
                    in case r of
                         Inl e \<Rightarrow> (Inl e, reg2, acc')
                       | Inr _ \<Rightarrow> write_groups S crc pipeline groups reg2 acc')))"

text \<open>
  \<open>L2WritingSource::next_batch\<close>.  \<open>order\<close> is the iteration order of the map of groups; \<open>fsync\<close> leaves
  the model's file contents as they are.
\<close>

definition l2_next_batch :: "serde_backend \<Rightarrow> (bytes \<Rightarrow> u32) \<Rightarrow> 's source_ops
    \<Rightarrow> ((partition_id \<times> nat list) list \<Rightarrow> (partition_id \<times> nat list) list) \<Rightarrow> ('s, 'k) l2_source
    \<Rightarrow> event list res \<times> ('s, 'k) l2_source" where
  "l2_next_batch S crc Src order w =
     (case so_next_batch Src (ls_inner w) of
        (Inl e, s') \<Rightarrow> (Inl e, w\<lparr>ls_inner := s'\<rparr>)
      | (Inr batch, s') \<Rightarrow>
          let w1 = w\<lparr>ls_inner := s', ls_last_seqs := []\<rparr>
          in if is_passthrough Src w1 \<or> batch = [] then (Inr batch, w1)
             else (case write_groups S crc (ls_pipeline w) (order (group_by_partition batch)) (ls_registry w1)
                          (batch, replicate (length batch) (PartitionId 0, 0), ls_capacity w1) of
                     (r, reg', batch', seqs', cap') \<Rightarrow>
                       (rbind r (\<lambda>_. Inr batch'),
                        w1\<lparr>ls_registry := reg', ls_last_seqs := seqs', ls_capacity := cap'\<rparr>)))"

datatype ('s, 'k) maybe_l2 = Direct 's | Wrapped "('s, 'k) l2_source"

definition maybe_wrap :: "'s \<Rightarrow> string \<Rightarrow> 'k l2_registry option \<Rightarrow> durability_mode \<Rightarrow> pipeline_capacity option
    \<Rightarrow> ('s, 'k) maybe_l2" where
  "maybe_wrap source pipeline_name registry mode capacity =
     (case registry of
        Some reg \<Rightarrow>
          if requires_l2_body_store mode then
            let l2 = l2_source_new source pipeline_name reg mode
            in Wrapped (case capacity of Some c \<Rightarrow> with_capacity c l2 | None \<Rightarrow> l2)
          else Direct source
      | None \<Rightarrow> Direct source)"

fun maybe_next_batch :: "serde_backend \<Rightarrow> (bytes \<Rightarrow> u32) \<Rightarrow> 's source_ops
    \<Rightarrow> ((partition_id \<times> nat list) list \<Rightarrow> (partition_id \<times> nat list) list) \<Rightarrow> ('s, 'k) maybe_l2
    \<Rightarrow> event list res \<times> ('s, 'k) maybe_l2" where
  "maybe_next_batch S crc Src order (Direct s) = (case so_next_batch Src s of (r, s') \<Rightarrow> (r, Direct s'))"
| "maybe_next_batch S crc Src order (Wrapped w) = (case l2_next_batch S crc Src order w of (r, w') \<Rightarrow> (r, Wrapped w'))"

fun maybe_source_kind :: "'s source_ops \<Rightarrow> ('s, 'k) maybe_l2 \<Rightarrow> source_kind" where
  "maybe_source_kind Src (Direct s) = so_kind Src s"
| "maybe_source_kind Src (Wrapped w) = so_kind Src (ls_inner w)"

fun maybe_on_recovery_plan :: "'s source_ops \<Rightarrow> (partition_id \<times> i64) list \<Rightarrow> u64 \<Rightarrow> ('s, 'k) maybe_l2
    \<Rightarrow> unit res \<times> ('s, 'k) maybe_l2" where
  "maybe_on_recovery_plan Src offs seq (Direct s) = (case so_on_recovery_plan Src offs seq s of (r, s') \<Rightarrow> (r, Direct s'))"
| "maybe_on_recovery_plan Src offs seq (Wrapped w) =
     (case so_on_recovery_plan Src offs seq (ls_inner w) of (r, s') \<Rightarrow> (r, Wrapped (w\<lparr>ls_inner := s'\<rparr>)))"

section \<open>Grouping\<close>

lemma group_by_partition_snoc:
  "group_by_partition (evs @ [ev]) = hm_upsert (ev_partition ev) [] (\<lambda>is. is @ [length evs]) (group_by_partition evs)"
  by (simp add: group_by_partition_def enumerate_append_eq)

definition indices_of :: "partition_id \<Rightarrow> event list \<Rightarrow> nat list" where
  "indices_of p evs = filter (\<lambda>i. ev_partition (evs ! i) = p) [0..<length evs]"

lemma indices_of_snoc: "indices_of p (evs @ [ev]) = indices_of p evs @ (if ev_partition ev = p then [length evs] else [])"
proof -
  have "filter (\<lambda>i. ev_partition ((evs @ [ev]) ! i) = p) [0..<length evs] = filter (\<lambda>i. ev_partition (evs ! i) = p) [0..<length evs]"
    by (rule filter_cong) (auto simp: nth_append)
  then show ?thesis by (simp add: indices_of_def)
qed

lemma group_by_partition_get:
  "hm_get (group_by_partition evs) p = (if indices_of p evs = [] then None else Some (indices_of p evs))"
proof (induction evs rule: rev_induct)
  case Nil
  then show ?case by (simp add: group_by_partition_def indices_of_def)
next
  case (snoc ev evs)
  then show ?case
    by (cases "ev_partition ev = p") (auto simp: group_by_partition_snoc indices_of_snoc hm_get_upsert split: option.splits if_splits)
qed

lemma group_by_partition_invar: "hm_invar (group_by_partition evs)"
  by (induction evs rule: rev_induct) (simp_all add: group_by_partition_def [of "[]"] group_by_partition_snoc hm_invar_upsert)

lemma group_member:
  assumes "mset gs = mset (group_by_partition evs)" "(p, is) \<in> set gs"
  shows "is = indices_of p evs"
proof -
  have "(p, is) \<in> set (group_by_partition evs)" using assms by (metis set_mset_mset)
  then have "hm_get (group_by_partition evs) p = Some is" using group_by_partition_invar by simp
  then show ?thesis by (simp add: group_by_partition_get split: if_splits)
qed

lemma group_covers:
  assumes "mset gs = mset (group_by_partition evs)" "i < length evs"
  shows "(ev_partition (evs ! i), indices_of (ev_partition (evs ! i)) evs) \<in> set gs \<and> i \<in> set (indices_of (ev_partition (evs ! i)) evs)"
proof -
  let ?p = "ev_partition (evs ! i)"
  have i: "i \<in> set (indices_of ?p evs)" using assms(2) by (simp add: indices_of_def)
  then have "hm_get (group_by_partition evs) ?p = Some (indices_of ?p evs)" by (auto simp: group_by_partition_get)
  then show ?thesis using i assms(1) by (metis map_of_SomeD set_mset_mset)
qed

section \<open>Bodies are stored before the pipeline sees them\<close>

definition stored :: "serde_backend \<Rightarrow> (bytes \<Rightarrow> u32) \<Rightarrow> 'k l2_store \<Rightarrow> (u64 \<times> event) set" where
  "stored S crc st = (case iter_from S crc 0 st of Inl _ \<Rightarrow> {} | Inr recs \<Rightarrow> set recs)"

text \<open>A well-formed store with room for \<open>n\<close> more sequence numbers.\<close>

definition good_store :: "serde_backend \<Rightarrow> (bytes \<Rightarrow> u32) \<Rightarrow> nat \<Rightarrow> 'k l2_store \<Rightarrow> bool" where
  "good_store S crc n st \<longleftrightarrow> (\<exists>logs. l2_inv S crc st logs) \<and> kek_ok (bs_kek st) \<and> unat (bs_next_seq st) + n < 2 ^ 64"

lemma stored_inv: "l2_inv S crc st logs \<Longrightarrow> stored S crc st = set (concat logs)"
  using l2_inv_iter [of S crc st logs 0] by (simp add: stored_def)

lemma good_store_mono: "good_store S crc n st \<Longrightarrow> m \<le> n \<Longrightarrow> good_store S crc m st"
  by (auto simp: good_store_def)

lemma append_good:
  assumes "serde_roundtrips S" "good_store S crc (Suc n) st" "l2_append S crc ev st = (Inr seq, st')"
  shows "good_store S crc n st' \<and> stored S crc st' = insert (seq, strip_event ev) (stored S crc st)"
proof -
  obtain logs where logs: "l2_inv S crc st logs" and kek: "kek_ok (bs_kek st)" and room: "unat (bs_next_seq st) + Suc n < 2 ^ 64"
    using assms(2) by (auto simp: good_store_def)
  have ne: "bs_next_seq st \<noteq> -1" using of_nat_ne_minus_one [of "unat (bs_next_seq st)"] room by simp
  then have "unat (bs_next_seq st + 1) = Suc (unat (bs_next_seq st))"
    by (metis add.commute add_eq_0_iff2 unatSuc)
  moreover obtain logs' where "l2_inv S crc st' logs'" "concat logs' = concat logs @ [(seq, strip_event ev)]" "seq = bs_next_seq st"
    "bs_next_seq st' = seq + 1" "bs_kek st' = bs_kek st"
    using l2_append_inv [OF logs kek assms(1) ne assms(3)] by blast
  ultimately show ?thesis
    using room kek logs by (auto simp: good_store_def stored_inv)
qed

definition persisted :: "serde_backend \<Rightarrow> (bytes \<Rightarrow> u32) \<Rightarrow> 'k l2_store \<Rightarrow> event \<Rightarrow> event \<Rightarrow> bool" where
  "persisted S crc st ev ev' \<longleftrightarrow> (\<exists>seq. ev' = ev\<lparr>ev_l2_seq := Some seq\<rparr> \<and> (seq, strip_event ev) \<in> stored S crc st)"

lemma write_indices_good:
  assumes "serde_roundtrips S"
  shows "write_indices S crc part is st (batch, seqs, cap) = (Inr (), st', batch', seqs', cap') \<Longrightarrow>
    good_store S crc (length is + k) st \<Longrightarrow> distinct is \<Longrightarrow> set is \<subseteq> {..<length batch} \<Longrightarrow>
    good_store S crc k st' \<and> stored S crc st \<subseteq> stored S crc st' \<and> length batch' = length batch \<and>
    (\<forall>j. j \<notin> set is \<longrightarrow> batch' ! j = batch ! j) \<and>
    (\<forall>i \<in> set is. persisted S crc st' (batch ! i) (batch' ! i))"
proof (induction "is" arbitrary: st batch seqs cap)
  case (Cons i "is")
  obtain seq st1 cap1 where app: "l2_append S crc (batch ! i) st = (Inr seq, st1)"
    and rest: "write_indices S crc part is st1 (batch[i := (batch ! i)\<lparr>ev_l2_seq := Some seq\<rparr>], seqs[i := (part, seq)], cap1)
        = (Inr (), st', batch', seqs', cap')"
    using Cons.prems(1) by (auto simp: Let_def split: prod.splits sum.splits)
  let ?b = "batch[i := (batch ! i)\<lparr>ev_l2_seq := Some seq\<rparr>]"
  have g: "good_store S crc (length is + k) st1" "stored S crc st1 = insert (seq, strip_event (batch ! i)) (stored S crc st)"
    using append_good [OF assms _ app, of "length is + k"] Cons.prems(2) by simp_all
  have ni: "i \<notin> set is" "i < length batch" "distinct is" "set is \<subseteq> {..<length ?b}" using Cons.prems(3,4) by auto
  note ih = Cons.IH [OF rest g(1) ni(3,4)]
  then have i: "stored S crc st \<subseteq> stored S crc st'" "batch' ! i = (batch ! i)\<lparr>ev_l2_seq := Some seq\<rparr>"
    "(seq, strip_event (batch ! i)) \<in> stored S crc st'"
    using g(2) ni(1,2) by auto
  have "persisted S crc st' (batch ! j) (batch' ! j)" if "j \<in> set (i # is)" for j
  proof (cases "j = i")
    case False
    then show ?thesis
      using bspec [OF ih [THEN conjunct2, THEN conjunct2, THEN conjunct2, THEN conjunct2], of j] that by simp
  qed (use i in \<open>auto simp: persisted_def\<close>)
  moreover have "batch' ! j = batch ! j" if "j \<notin> set (i # is)" for j using spec [OF ih [THEN conjunct2, THEN conjunct2, THEN conjunct2, THEN conjunct1], of j] that by simp
  ultimately show ?case using ih i(1) by simp
qed simp

text \<open>The store a partition resolves to, already open or found on disk.\<close>

definition resolve :: "serde_backend \<Rightarrow> (bytes \<Rightarrow> u32) \<Rightarrow> string \<Rightarrow> 'k l2_registry \<Rightarrow> partition_id \<Rightarrow> 'k l2_store option" where
  "resolve S crc pipeline reg part =
     (case registry_open S crc pipeline part reg of (r, reg') \<Rightarrow>
        case r of Inl _ \<Rightarrow> None | Inr _ \<Rightarrow> hm_get (rg_stores reg') (pipeline, part))"

definition good_registry :: "serde_backend \<Rightarrow> (bytes \<Rightarrow> u32) \<Rightarrow> string \<Rightarrow> nat \<Rightarrow> 'k l2_registry \<Rightarrow> bool" where
  "good_registry S crc pipeline n reg \<longleftrightarrow>
     (\<forall>part st. resolve S crc pipeline reg part = Some st \<longrightarrow> good_store S crc n st)"

lemma resolve_open:
  "resolve S crc pipeline reg part = Some st \<Longrightarrow> \<exists>reg'. registry_open S crc pipeline part reg = (Inr (), reg') \<and>
     hm_get (rg_stores reg') (pipeline, part) = Some st"
  by (auto simp: resolve_def split: prod.splits sum.splits)

lemma open_frame:
  assumes "registry_open S crc pipeline part reg = (Inr (), reg1)"
  shows "\<exists>st. hm_get (rg_stores reg1) (pipeline, part) = Some st \<and> resolve S crc pipeline reg part = Some st"
    and "key \<noteq> (pipeline, part) \<Longrightarrow> hm_get (rg_stores reg1) key = hm_get (rg_stores reg) key"
    and "reg1\<lparr>rg_stores := s\<rparr> = reg\<lparr>rg_stores := s\<rparr>"
  using assms by (auto simp: registry_open_def resolve_def Let_def update_conv' split: option.splits sum.splits prod.splits)

text \<open>Only the entry of a partition matters for what it resolves to.\<close>

lemma resolve_stores:
  "resolve S crc pipeline (reg\<lparr>rg_stores := s\<rparr>) part =
     (case hm_get s (pipeline, part) of Some st \<Rightarrow> Some st
      | None \<Rightarrow> resolve S crc pipeline (reg\<lparr>rg_stores := []\<rparr>) part)"
  by (auto simp: resolve_def registry_open_def Let_def update_conv' split: option.splits sum.splits prod.splits)

lemma good_registry_update:
  assumes "good_registry S crc pipeline n reg" "registry_open S crc pipeline part reg = (Inr (), reg1)" "good_store S crc n st"
  shows "good_registry S crc pipeline n (reg1\<lparr>rg_stores := hm_insert (pipeline, part) st (rg_stores reg1)\<rparr>)"
  unfolding good_registry_def
proof (intro allI impI)
  fix q st'
  assume q: "resolve S crc pipeline (reg1\<lparr>rg_stores := hm_insert (pipeline, part) st (rg_stores reg1)\<rparr>) q = Some st'"
  show "good_store S crc n st'"
  proof (cases "q = part")
    case True
    then show ?thesis using q assms(3) by (simp add: resolve_stores update_conv')
  next
    case False
    then have "resolve S crc pipeline reg q = Some st'"
      using q open_frame(2) [OF assms(2), of "(pipeline, q)"] resolve_stores [of S crc pipeline "rg_stores reg" reg q]
      by (simp add: open_frame(3) [OF assms(2)] resolve_stores update_conv')
    then show ?thesis using assms(1) by (auto simp: good_registry_def)
  qed
qed

lemma good_registry_mono: "good_registry S crc pipeline n reg \<Longrightarrow> m \<le> n \<Longrightarrow> good_registry S crc pipeline m reg"
  using good_store_mono unfolding good_registry_def by metis

lemma write_groups_good:
  assumes "serde_roundtrips S"
  shows "write_groups S crc pipeline groups reg (batch, seqs, cap) = (Inr (), reg', batch', seqs', cap') \<Longrightarrow>
    good_registry S crc pipeline (length (concat (map snd groups))) reg \<Longrightarrow> distinct (map fst groups) \<Longrightarrow>
    distinct (concat (map snd groups)) \<Longrightarrow> set (concat (map snd groups)) \<subseteq> {..<length batch} \<Longrightarrow>
    length batch' = length batch \<and> (\<forall>j. j \<notin> set (concat (map snd groups)) \<longrightarrow> batch' ! j = batch ! j) \<and>
    (\<forall>key. key \<notin> Pair pipeline ` set (map fst groups) \<longrightarrow> hm_get (rg_stores reg') key = hm_get (rg_stores reg) key) \<and>
    (\<forall>(part, is) \<in> set groups. \<exists>st. hm_get (rg_stores reg') (pipeline, part) = Some st \<and>
       (\<forall>i \<in> set is. persisted S crc st (batch ! i) (batch' ! i)))"
proof (induction groups arbitrary: reg batch seqs cap)
  case (Cons g groups)
  obtain part "is" where g: "g = (part, is)" by force
  let ?n = "length (concat (map snd groups))"
  obtain reg1 st where op: "registry_open S crc pipeline part reg = (Inr (), reg1)"
    and st: "hm_get (rg_stores reg1) (pipeline, part) = Some st"
    using Cons.prems(1) by (auto simp: g split: prod.splits sum.splits option.splits)
  obtain st1 b1 s1 c1 where wi: "write_indices S crc part is st (batch, seqs, cap) = (Inr (), st1, b1, s1, c1)"
    and rest: "write_groups S crc pipeline groups (reg1\<lparr>rg_stores := hm_insert (pipeline, part) st1 (rg_stores reg1)\<rparr>) (b1, s1, c1)
      = (Inr (), reg', batch', seqs', cap')"
    using Cons.prems(1) op st by (auto simp: g Let_def split: prod.splits sum.splits)
  have "good_store S crc (length is + ?n) st"
    using Cons.prems(2) open_frame(1) [OF op] st by (auto simp: good_registry_def g)
  from write_indices_good [OF assms wi this] have w: "good_store S crc ?n st1" "length b1 = length batch"
    "\<forall>j. j \<notin> set is \<longrightarrow> b1 ! j = batch ! j"
    "\<forall>i \<in> set is. persisted S crc st1 (batch ! i) (b1 ! i)"
    using Cons.prems(4,5) by (auto simp: g)
  have "good_registry S crc pipeline ?n reg" using Cons.prems(2) by (rule good_registry_mono) (simp add: g)
  note upd = good_registry_update [OF this op w(1)]
  have d: "distinct (map fst groups)" "distinct (concat (map snd groups))" "set (concat (map snd groups)) \<subseteq> {..<length b1}"
    "part \<notin> set (map fst groups)" "set is \<inter> set (concat (map snd groups)) = {}"
    using Cons.prems(3-5) w(2) by (auto simp: g)
  note ih = Cons.IH [OF rest upd d(1-3)]
  from ih have ih1: "length batch' = length b1" by (rule conjunct1)
  have ih2: "batch' ! j = b1 ! j" if "j \<notin> set (concat (map snd groups))" for j
    using ih [THEN conjunct2, THEN conjunct1] that by blast
  have keys: "hm_get (rg_stores reg') key = hm_get (hm_insert (pipeline, part) st1 (rg_stores reg1)) key"
    if "key \<notin> Pair pipeline ` set (map fst groups)" for key
    using spec [OF ih [THEN conjunct2, THEN conjunct2, THEN conjunct1], of key] that by (simp add: update_conv')
  have ih4: "\<exists>st. hm_get (rg_stores reg') (pipeline, q) = Some st \<and>
      (\<forall>i \<in> set js. persisted S crc st (b1 ! i) (batch' ! i))"
    if "(q, js) \<in> set groups" for q js
    using bspec [OF ih [THEN conjunct2, THEN conjunct2, THEN conjunct2] that] by simp
  have later: "\<exists>st. hm_get (rg_stores reg') (pipeline, q) = Some st \<and>
      (\<forall>i \<in> set js. persisted S crc st (batch ! i) (batch' ! i))"
    if qj: "(q, js) \<in> set groups" for q js
  proof -
    have "b1 ! i = batch ! i" if "i \<in> set js" for i
    proof -
      have "i \<in> set (concat (map snd groups))" using that qj by force
      then show ?thesis using w(3) d(5) by blast
    qed
    then show ?thesis using ih4 [OF qj] by metis
  qed
  have first: "persisted S crc st1 (batch ! i) (batch' ! i)"
    if "i \<in> set is" for i
  proof -
    have "i \<notin> set (concat (map snd groups))" using that d(5) by blast
    then show ?thesis using w(4) that ih2 by metis
  qed
  have hd: "hm_get (rg_stores reg') (pipeline, part) = Some st1" using keys [of "(pipeline, part)"] d(4) by (auto simp: update_conv')
  show ?case
  proof (intro conjI allI impI ballI)
    show "length batch' = length batch" using ih1 w(2) by simp
    show "batch' ! j = batch ! j" if "j \<notin> set (concat (map snd (g # groups)))" for j
      using that ih2 [of j] w(3) by (simp add: g)
    show "hm_get (rg_stores reg') key = hm_get (rg_stores reg) key" if "key \<notin> Pair pipeline ` set (map fst (g # groups))" for key
      using that keys [of key] open_frame(2) [OF op, of key] by (auto simp: g update_conv')
    show "case qj of (q, js) \<Rightarrow> \<exists>st. hm_get (rg_stores reg') (pipeline, q) = Some st \<and>
       (\<forall>i \<in> set js. persisted S crc st (batch ! i) (batch' ! i))"
      if "qj \<in> set (g # groups)" for qj
      using that hd first later by (cases qj) (auto simp: g)
  qed
qed auto

lemma indices_in_groups:
  assumes "mset gs = mset (group_by_partition evs)"
  shows "distinct (map fst gs)" "distinct (concat (map snd gs))" "set (concat (map snd gs)) \<subseteq> {..<length evs}"
    "length (concat (map snd gs)) \<le> length evs"
proof -
  have "mset (map fst gs) = mset (map fst (group_by_partition evs))" using assms by simp
  then show d: "distinct (map fst gs)" using group_by_partition_invar by (metis mset_eq_imp_distinct_iff)
  have mem: "is = indices_of p evs" if "(p, is) \<in> set gs" for p "is" using group_member [OF assms that] .
  show "set (concat (map snd gs)) \<subseteq> {..<length evs}" using mem by (fastforce simp: indices_of_def)
  then have fin: "card (set (concat (map snd gs))) \<le> length evs" by (metis card_lessThan card_mono finite_lessThan)
  have "map snd gs = map (\<lambda>p. indices_of p evs) (map fst gs)" using mem by force
  moreover have "distinct (concat (map (\<lambda>p. indices_of p evs) ps))" if "distinct ps" for ps
    using that by (induction ps) (auto simp: indices_of_def)
  ultimately show dc: "distinct (concat (map snd gs))" using d by metis
  then show "length (concat (map snd gs)) \<le> length evs" using fin by (metis distinct_card)
qed

text \<open>
  C19: a push or poll source writes ahead.  When the wrapped source hands a batch to the pipeline, the
  batch is the inner source's with a sequence number on every event, and the body of every event is
  readable under that number from the store of its partition, in whatever order the partitions were
  written.
\<close>

theorem l2_source_writes_ahead:
  assumes "serde_roundtrips S" "\<And>gs. mset (order gs) = mset gs"
    and "good_registry S crc (ls_pipeline w) (length batch) (ls_registry w)"
    and "so_next_batch Src (ls_inner w) = (Inr batch, s')" "\<not> is_passthrough Src (w\<lparr>ls_inner := s'\<rparr>)"
    and "l2_next_batch S crc Src order w = (Inr batch', w')" "i < length batch"
  shows "length batch' = length batch \<and> (\<exists>seq st recs. batch' ! i = (batch ! i)\<lparr>ev_l2_seq := Some seq\<rparr> \<and>
    hm_get (rg_stores (ls_registry w')) (ls_pipeline w, ev_partition (batch ! i)) = Some st \<and>
    iter_from S crc 0 st = Inr recs \<and> (seq, strip_event (batch ! i)) \<in> set recs)"
proof -
  let ?gs = "order (group_by_partition batch)"
  have gs: "mset ?gs = mset (group_by_partition batch)" by (rule assms(2))
  have pass: "\<not> is_passthrough Src (w\<lparr>ls_inner := s', ls_last_seqs := []\<rparr>)" "batch \<noteq> []"
    using assms(5,7) by (auto simp: is_passthrough_def)
  obtain reg' seqs' cap' where wg: "write_groups S crc (ls_pipeline w) ?gs (ls_registry w)
      (batch, replicate (length batch) (PartitionId 0, 0), ls_capacity w) = (Inr (), reg', batch', seqs', cap')"
    and w': "ls_registry w' = reg'"
    using assms(4,6) pass by (auto simp: l2_next_batch_def Let_def rbind_Inr_conv split: prod.splits)
  have "good_registry S crc (ls_pipeline w) (length (concat (map snd ?gs))) (ls_registry w)"
    using assms(3) indices_in_groups(4) [OF gs] by (rule good_registry_mono)
  note res = write_groups_good [OF assms(1) wg this indices_in_groups(1-3) [OF gs]]
  let ?p = "ev_partition (batch ! i)"
  have "(?p, indices_of ?p batch) \<in> set ?gs" and i: "i \<in> set (indices_of ?p batch)"
    using group_covers [OF gs assms(7)] by (rule conjunct1, rule conjunct2)
  from bspec [OF res [THEN conjunct2, THEN conjunct2, THEN conjunct2] this(1)]
  obtain st where st: "hm_get (rg_stores reg') (ls_pipeline w, ?p) = Some st"
    and all: "\<forall>i \<in> set (indices_of ?p batch). persisted S crc st (batch ! i) (batch' ! i)" by auto
  obtain seq where seq: "batch' ! i = (batch ! i)\<lparr>ev_l2_seq := Some seq\<rparr>" "(seq, strip_event (batch ! i)) \<in> stored S crc st"
    using bspec [OF all i] by (auto simp: persisted_def)
  then obtain recs where "iter_from S crc 0 st = Inr recs" "(seq, strip_event (batch ! i)) \<in> set recs"
    by (auto simp: stored_def split: sum.splits)
  with res [THEN conjunct1] st seq(1) w' show ?thesis by metis
qed

definition sample_source :: "unit source_ops" where
  "sample_source = \<lparr>so_next_batch = (\<lambda>s. (Inr [sample_event], s)), so_kind = (\<lambda>_. Push),
     so_on_recovery_plan = (\<lambda>_ _ s. (Inr (), s)), so_broker_coordinated = (\<lambda>_. False)\<rparr>"

definition sample_l2_source :: "(unit, unit) l2_source" where
  "sample_l2_source = l2_source_new () ''pipe'' (registry_new None ''tmp'' 1 []) PerEvent"

lemma fresh_registry_good:
  assumes "n < 2 ^ 64"
  shows "good_registry S crc pipeline n (registry_new root tmp segb [])"
proof -
  have "good_store S crc n st" if "l2_open S crc [] [] segb None 0 [] = Inr st" for st
    using l2_open_empty_inv [OF that] assms by (auto simp: good_store_def kek_ok_def)
  then show ?thesis
    by (auto simp: good_registry_def resolve_def registry_open_def registry_new_def Let_def update_conv'
        split: sum.splits prod.splits option.splits)
qed

theorem l2_source_writes_ahead_witness:
  "\<exists>batch' w' seq st recs. l2_next_batch byte_serde sum_crc sample_source (\<lambda>gs. gs) sample_l2_source = (Inr batch', w') \<and>
     batch' ! 0 = sample_event\<lparr>ev_l2_seq := Some seq\<rparr> \<and>
     hm_get (rg_stores (ls_registry w')) (''pipe'', PartitionId 3) = Some st \<and>
     iter_from byte_serde sum_crc 0 st = Inr recs \<and> (seq, strip_event sample_event) \<in> set recs"
proof -
  obtain p where p: "seal_event byte_serde None sample_event = Inr p" using sample_seal by blast
  have part: "ev_partition sample_event = PartitionId 3" by (simp add: sample_event_def event_new_def)
  have grp: "group_by_partition [sample_event] = [(PartitionId 3, [0])]" by (simp add: group_by_partition_def hm_upsert_def part)
  have nb: "so_next_batch sample_source (ls_inner sample_l2_source) = (Inr [sample_event], ())" by (simp add: sample_source_def)
  have pass: "\<not> is_passthrough sample_source (sample_l2_source\<lparr>ls_inner := ()\<rparr>)"
    by (simp add: is_passthrough_def sample_source_def sample_l2_source_def l2_source_new_def requires_l2_body_store_def)
  have good: "good_registry byte_serde sum_crc (ls_pipeline sample_l2_source) (length [sample_event]) (ls_registry sample_l2_source)"
    by (simp add: sample_l2_source_def l2_source_new_def fresh_registry_good)
  obtain batch' w' where run: "l2_next_batch byte_serde sum_crc sample_source (\<lambda>gs. gs) sample_l2_source = (Inr batch', w')"
    by (simp add: l2_next_batch_def grp sample_source_def sample_l2_source_def l2_source_new_def registry_new_def is_passthrough_def
        requires_l2_body_store_def registry_open_def l2_open_def l2_append_def roll_segment_def need_new_segment_def
        segment_create_def take_io_def segment_append_def p Let_def)
  have "ls_pipeline sample_l2_source = ''pipe''" by (simp add: sample_l2_source_def l2_source_new_def)
  then show ?thesis
    using l2_source_writes_ahead [OF byte_serde_roundtrips refl good nb pass run, of 0] run part by auto
qed

end
