(* ===== verification/Delivery_Ledger.thy ===== *)
theory Delivery_Ledger
  imports Aeon_Types Aeon_Maps
begin

text \<open>
  \<open>aeon-engine/src/delivery_ledger.rs\<close>: the per-pipeline record of outputs handed to the sink and not
  yet acknowledged.  The concurrent map is an association list in its iteration order; each method is one
  atomic step, since every one touches a single entry or iterates.  \<open>now\<close> is the reading of the clock.
\<close>

datatype delivery_state =
    Pending instant
  | Failed instant instant string u32

record ledger_entry =
  le_event_id :: uuid
  le_partition :: partition_id
  le_source_offset :: i64
  le_state :: delivery_state

record failed_entry =
  fe_event_id :: uuid
  fe_partition :: partition_id
  fe_source_offset :: i64
  fe_reason :: string
  fe_attempts :: u32
  fe_failed_at :: instant

record delivery_ledger =
  dl_entries :: "(uuid, ledger_entry) hash_map"
  dl_total_tracked :: u64
  dl_total_acked :: u64
  dl_total_failed :: u64
  dl_max_attempts :: u32

definition ledger_new :: "u32 \<Rightarrow> delivery_ledger" where
  "ledger_new max_attempts =
     \<lparr>dl_entries = [], dl_total_tracked = 0, dl_total_acked = 0, dl_total_failed = 0, dl_max_attempts = max_attempts\<rparr>"

definition track :: "instant \<Rightarrow> uuid \<Rightarrow> partition_id \<Rightarrow> i64 \<Rightarrow> delivery_ledger \<Rightarrow> delivery_ledger" where
  "track now eid p off l =
     l\<lparr>dl_entries := AList.update eid
          \<lparr>le_event_id = eid, le_partition = p, le_source_offset = off, le_state = Pending now\<rparr> (dl_entries l),
       dl_total_tracked := dl_total_tracked l + 1\<rparr>"

definition mark_acked :: "uuid \<Rightarrow> delivery_ledger \<Rightarrow> bool \<times> delivery_ledger" where
  "mark_acked eid l =
     (case map_of (dl_entries l) eid of
        None \<Rightarrow> (False, l)
      | Some _ \<Rightarrow> (True, l\<lparr>dl_entries := AList.delete eid (dl_entries l), dl_total_acked := dl_total_acked l + 1\<rparr>))"

fun mark_batch_acked :: "uuid list \<Rightarrow> delivery_ledger \<Rightarrow> u64 \<times> delivery_ledger" where
  "mark_batch_acked [] l = (0, l)"
| "mark_batch_acked (eid # eids) l =
     (let (acked, l') = mark_acked eid l; (count, l'') = mark_batch_acked eids l'
      in (if acked then count + 1 else count, l''))"

fun tracked_at :: "delivery_state \<Rightarrow> instant" where
  "tracked_at (Pending t) = t"
| "tracked_at (Failed t _ _ _) = t"

fun next_attempts :: "delivery_state \<Rightarrow> u32" where
  "next_attempts (Pending _) = 1"
| "next_attempts (Failed _ _ _ a) = a + 1"

definition mark_failed :: "instant \<Rightarrow> uuid \<Rightarrow> string \<Rightarrow> delivery_ledger \<Rightarrow> bool \<times> delivery_ledger" where
  "mark_failed now eid reason l =
     (case map_of (dl_entries l) eid of
        None \<Rightarrow> (False, l)
      | Some entry \<Rightarrow>
          let st = Failed (tracked_at (le_state entry)) now reason (next_attempts (le_state entry))
          in (True, l\<lparr>dl_entries := AList.update eid (entry\<lparr>le_state := st\<rparr>) (dl_entries l),
                      dl_total_failed := dl_total_failed l + 1\<rparr>))"

fun is_pending :: "delivery_state \<Rightarrow> bool" where
  "is_pending (Pending _) = True"
| "is_pending (Failed _ _ _ _) = False"

definition pending_count :: "delivery_ledger \<Rightarrow> nat" where
  "pending_count l = length (filter (\<lambda>(_, e). is_pending (le_state e)) (dl_entries l))"

definition failed_count :: "delivery_ledger \<Rightarrow> nat" where
  "failed_count l = length (filter (\<lambda>(_, e). \<not> is_pending (le_state e)) (dl_entries l))"

definition ledger_len :: "delivery_ledger \<Rightarrow> nat" where
  "ledger_len l = length (dl_entries l)"

definition pending_ids :: "delivery_ledger \<Rightarrow> uuid list" where
  "pending_ids l = map fst (filter (\<lambda>(_, e). is_pending (le_state e)) (dl_entries l))"

definition failed_of :: "ledger_entry \<Rightarrow> failed_entry list" where
  "failed_of e =
     (case le_state e of
        Failed _ failed_at reason attempts \<Rightarrow>
          [\<lparr>fe_event_id = le_event_id e, fe_partition = le_partition e, fe_source_offset = le_source_offset e,
            fe_reason = reason, fe_attempts = attempts, fe_failed_at = failed_at\<rparr>]
      | Pending _ \<Rightarrow> [])"

definition failed_entries :: "delivery_ledger \<Rightarrow> failed_entry list" where
  "failed_entries l = concat (map (\<lambda>(_, e). failed_of e) (dl_entries l))"

definition dlq_ready :: "delivery_ledger \<Rightarrow> failed_entry list" where
  "dlq_ready l = filter (\<lambda>e. fe_attempts e \<ge> dl_max_attempts l) (failed_entries l)"

text \<open>\<open>elapsed\<close> saturates at zero when the clock reads earlier.\<close>

definition oldest_pending_age :: "instant \<Rightarrow> delivery_ledger \<Rightarrow> nat option" where
  "oldest_pending_age now l =
     (let ages = map (\<lambda>(_, e). now - tracked_at (le_state e)) (filter (\<lambda>(_, e). is_pending (le_state e)) (dl_entries l))
      in if ages = [] then None else Some (foldr max ages 0))"

definition signed_min :: "i64 \<Rightarrow> i64 \<Rightarrow> i64" where
  "signed_min a b = (if sint b < sint a then b else a)"

definition checkpoint_offsets :: "delivery_ledger \<Rightarrow> (partition_id, i64) hash_map" where
  "checkpoint_offsets l =
     fold (\<lambda>(_, e) offsets.
         case map_of offsets (le_partition e) of
           Some off \<Rightarrow> AList.update (le_partition e) (signed_min off (le_source_offset e)) offsets
         | None \<Rightarrow> AList.update (le_partition e) (le_source_offset e) offsets)
       (dl_entries l) []"

definition ledger_remove :: "uuid \<Rightarrow> delivery_ledger \<Rightarrow> bool \<times> delivery_ledger" where
  "ledger_remove eid l =
     (case map_of (dl_entries l) eid of
        None \<Rightarrow> (False, l)
      | Some _ \<Rightarrow> (True, l\<lparr>dl_entries := AList.delete eid (dl_entries l)\<rparr>))"

definition ledger_clear :: "delivery_ledger \<Rightarrow> delivery_ledger" where
  "ledger_clear l = l\<lparr>dl_entries := []\<rparr>"

section \<open>Invariant\<close>

text \<open>Keys are distinct and every entry is stored under its own event id.\<close>

definition ledger_ok :: "delivery_ledger \<Rightarrow> bool" where
  "ledger_ok l \<longleftrightarrow> distinct (map fst (dl_entries l)) \<and> (\<forall>(i, e) \<in> set (dl_entries l). le_event_id e = i)"

lemma ledger_ok_get: "ledger_ok l \<Longrightarrow> map_of (dl_entries l) eid = Some e \<Longrightarrow> le_event_id e = eid"
  by (auto simp: ledger_ok_def dest!: map_of_SomeD)

lemma set_update: "distinct (map fst al) \<Longrightarrow> set (AList.update k v al) \<subseteq> insert (k, v) (set al)"
  by (induction al) auto

lemma ledger_ok_update:
  assumes "ledger_ok l" and "le_event_id e = eid"
  shows "ledger_ok (l\<lparr>dl_entries := AList.update eid e (dl_entries l)\<rparr>)"
proof -
  have d: "distinct (map fst (dl_entries l))" using assms(1) by (simp add: ledger_ok_def)
  show ?thesis
    using assms set_update [OF d, of eid e] distinct_update [OF d, of eid e] by (fastforce simp: ledger_ok_def)
qed

lemma ledger_ok_delete: "ledger_ok l \<Longrightarrow> ledger_ok (l\<lparr>dl_entries := AList.delete eid (dl_entries l)\<rparr>)"
  using distinct_delete [of "dl_entries l" eid] by (auto simp: ledger_ok_def AList.delete_eq)

lemma ledger_ok_counters [simp]:
  "ledger_ok (l\<lparr>dl_total_tracked := a\<rparr>) = ledger_ok l" "ledger_ok (l\<lparr>dl_total_acked := a\<rparr>) = ledger_ok l"
  "ledger_ok (l\<lparr>dl_total_failed := a\<rparr>) = ledger_ok l"
  by (simp_all add: ledger_ok_def)

lemma ledger_ok_ops [inv_intros]:
  assumes "ledger_ok l"
  shows "ledger_ok (track now eid p off l)" "ledger_ok (snd (mark_acked eid l))"
    "ledger_ok (snd (mark_failed now eid reason l))" "ledger_ok (snd (ledger_remove eid l))" "ledger_ok (ledger_clear l)"
proof -
  show "ledger_ok (snd (mark_failed now eid reason l))"
  proof (cases "map_of (dl_entries l) eid")
    case (Some e)
    then show ?thesis using ledger_ok_update [OF assms, of "e\<lparr>le_state := _\<rparr>" eid] ledger_ok_get [OF assms Some]
      by (simp add: mark_failed_def Let_def)
  qed (simp add: mark_failed_def assms)
qed (use ledger_ok_update [OF assms, of "\<lparr>le_event_id = eid, le_partition = p, le_source_offset = off, le_state = Pending now\<rparr>" eid]
    ledger_ok_delete [OF assms, of eid] assms in
    \<open>auto simp: track_def mark_acked_def ledger_remove_def ledger_clear_def ledger_ok_def split: option.splits\<close>)

section \<open>Replay offsets\<close>

definition offset_step :: "uuid \<times> ledger_entry \<Rightarrow> (partition_id, i64) hash_map \<Rightarrow> (partition_id, i64) hash_map" where
  "offset_step = (\<lambda>(_, e) offsets.
     case map_of offsets (le_partition e) of
       Some off \<Rightarrow> AList.update (le_partition e) (signed_min off (le_source_offset e)) offsets
     | None \<Rightarrow> AList.update (le_partition e) (le_source_offset e) offsets)"

lemma checkpoint_offsets_fold: "checkpoint_offsets l = fold offset_step (dl_entries l) []"
  by (simp add: checkpoint_offsets_def offset_step_def)

lemma offset_step_get:
  "map_of (offset_step (i, e) acc) = (map_of acc)(le_partition e \<mapsto>
     (case map_of acc (le_partition e) of None \<Rightarrow> le_source_offset e | Some off \<Rightarrow> signed_min off (le_source_offset e)))"
  by (simp add: offset_step_def update_conv' split: option.splits)

lemma signed_min_le: "sint (signed_min a b) \<le> sint a" "sint (signed_min a b) \<le> sint b"
  by (auto simp: signed_min_def)

lemma offset_fold_lower:
  "map_of acc p = Some m0 \<Longrightarrow> \<exists>m. map_of (fold offset_step es acc) p = Some m \<and> sint m \<le> sint m0"
proof (induction es arbitrary: acc m0)
  case (Cons ie es)
  obtain i e where ie: "ie = (i, e)" by force
  obtain m1 where "map_of (offset_step (i, e) acc) p = Some m1" "sint m1 \<le> sint m0"
    using Cons.prems signed_min_le by (cases "p = le_partition e") (auto simp: offset_step_get)
  with Cons.IH [of "offset_step (i, e) acc" m1] show ?case by (fastforce simp: ie)
qed auto

lemma offset_fold_covers:
  "(i, e) \<in> set es \<Longrightarrow> \<exists>m. map_of (fold offset_step es acc) (le_partition e) = Some m \<and> sint m \<le> sint (le_source_offset e)"
proof (induction es arbitrary: acc)
  case (Cons ie es)
  show ?case
  proof (cases "ie = (i, e)")
    case True
    obtain m1 where "map_of (offset_step (i, e) acc) (le_partition e) = Some m1" "sint m1 \<le> sint (le_source_offset e)"
      using signed_min_le by (cases "map_of acc (le_partition e)") (auto simp: offset_step_get)
    with offset_fold_lower [of "offset_step (i, e) acc" "le_partition e" m1 es] show ?thesis by (fastforce simp: True)
  qed (use Cons in auto)
qed simp

lemma offset_fold_attained:
  "map_of (fold offset_step es acc) p = Some m \<Longrightarrow>
     map_of acc p = Some m \<or> (\<exists>(i, e) \<in> set es. le_partition e = p \<and> le_source_offset e = m)"
proof (induction es arbitrary: acc)
  case (Cons ie es)
  obtain i e where ie: "ie = (i, e)" by force
  have "map_of (offset_step (i, e) acc) p = Some m \<or> (\<exists>(i, e) \<in> set es. le_partition e = p \<and> le_source_offset e = m)"
    using Cons.IH [of "offset_step (i, e) acc"] Cons.prems by (simp add: ie)
  then show ?case
    by (auto simp: ie offset_step_get signed_min_def split: if_splits option.splits)
qed simp

lemma checkpoint_offsets_min:
  "map_of (checkpoint_offsets l) p = Some m \<longleftrightarrow>
     (\<exists>(i, e) \<in> set (dl_entries l). le_partition e = p \<and> le_source_offset e = m) \<and>
     (\<forall>(i, e) \<in> set (dl_entries l). le_partition e = p \<longrightarrow> sint m \<le> sint (le_source_offset e))"
  (is "?L \<longleftrightarrow> ?R")
proof
  assume ?L
  have "sint m \<le> sint (le_source_offset e)" if "(i, e) \<in> set (dl_entries l)" "le_partition e = p" for i e
    using offset_fold_covers [OF that(1), of "[]"] \<open>?L\<close> that(2) by (simp add: checkpoint_offsets_fold)
  with offset_fold_attained [of "dl_entries l" "[]" p m] \<open>?L\<close> show ?R by (auto simp: checkpoint_offsets_fold)
next
  assume R: ?R
  then obtain i e where ie: "(i, e) \<in> set (dl_entries l)" "le_partition e = p" "le_source_offset e = m" by auto
  then obtain m' where m': "map_of (checkpoint_offsets l) p = Some m'" "sint m' \<le> sint m"
    using offset_fold_covers [OF ie(1), of "[]"] by (auto simp: checkpoint_offsets_fold)
  obtain i' e' where "(i', e') \<in> set (dl_entries l)" "le_partition e' = p" "le_source_offset e' = m'"
    using offset_fold_attained [of "dl_entries l" "[]" p m'] m'(1) by (auto simp: checkpoint_offsets_fold)
  then have "sint m \<le> sint m'" using R by auto
  with m' have "sint m = sint m'" by simp
  then have "m = m'" by (rule signed_word_eqI)
  then show ?L using m'(1) by simp
qed

section \<open>Properties\<close>

datatype ledger_op =
    LTrack instant uuid partition_id i64 | LAck uuid | LFail instant uuid string | LRemove uuid | LClear

fun ledger_do :: "ledger_op \<Rightarrow> delivery_ledger \<Rightarrow> delivery_ledger" where
  "ledger_do (LTrack now eid p off) l = track now eid p off l"
| "ledger_do (LAck eid) l = snd (mark_acked eid l)"
| "ledger_do (LFail now eid reason) l = snd (mark_failed now eid reason l)"
| "ledger_do (LRemove eid) l = snd (ledger_remove eid l)"
| "ledger_do LClear l = ledger_clear l"

fun leaves :: "uuid \<Rightarrow> ledger_op \<Rightarrow> bool" where
  "leaves eid (LTrack _ i _ _) = (i \<noteq> eid)"
| "leaves eid (LAck i) = (i \<noteq> eid)"
| "leaves eid (LFail _ _ _) = True"
| "leaves eid (LRemove i) = (i \<noteq> eid)"
| "leaves eid LClear = False"

definition holds_event :: "uuid \<Rightarrow> partition_id \<Rightarrow> i64 \<Rightarrow> delivery_ledger \<Rightarrow> bool" where
  "holds_event eid p off l \<longleftrightarrow>
     (\<exists>e. map_of (dl_entries l) eid = Some e \<and> le_partition e = p \<and> le_source_offset e = off)"

lemma holds_event_step: "holds_event eid p off l \<Longrightarrow> leaves eid op \<Longrightarrow> holds_event eid p off (ledger_do op l)"
  by (cases op)
    (auto simp: holds_event_def track_def mark_acked_def mark_failed_def ledger_remove_def Let_def update_conv'
      delete_conv' split: option.splits)

lemma holds_event_run: "holds_event eid p off l \<Longrightarrow> \<forall>op \<in> set ops. leaves eid op \<Longrightarrow> holds_event eid p off (fold ledger_do ops l)"
  by (induction ops arbitrary: l) (auto simp: holds_event_step)

lemma ledger_ok_run: "ledger_ok l \<Longrightarrow> ledger_ok (fold ledger_do ops l)"
proof (induction ops arbitrary: l)
  case (Cons op ops)
  then show ?case by (cases op) (simp_all add: ledger_ok_ops)
qed simp

lemma holds_event_offset:
  assumes "holds_event eid p off l"
  shows "\<exists>m. map_of (checkpoint_offsets l) p = Some m \<and> sint m \<le> sint off"
proof -
  obtain e where "(eid, e) \<in> set (dl_entries l)" "le_partition e = p" "le_source_offset e = off"
    using assms by (auto simp: holds_event_def dest: map_of_SomeD)
  then show ?thesis using offset_fold_covers [of eid e "dl_entries l" "[]"] by (auto simp: checkpoint_offsets_fold)
qed

text \<open>
  The replay offset never skips an undelivered event.  Once an event is tracked, and until it is
  acknowledged, removed or tracked anew, the checkpoint offset of its partition exists and is at most
  its source offset, whatever else happens in the ledger; that offset is exactly the least offset among
  the events still held for the partition, failed ones included.
\<close>

theorem unacked_event_covered:
  assumes "ledger_ok l" and "\<forall>op \<in> set ops. leaves eid op" and "l' = fold ledger_do ops (track now eid p off l)"
  shows "\<exists>m. map_of (checkpoint_offsets l') p = Some m \<and> sint m \<le> sint off \<and>
    (\<exists>i e. map_of (dl_entries l') i = Some e \<and> le_partition e = p \<and> le_source_offset e = m)"
proof -
  have "holds_event eid p off (track now eid p off l)" by (simp add: holds_event_def track_def update_conv')
  then have "holds_event eid p off l'" using assms(2,3) holds_event_run by blast
  then obtain m where m: "map_of (checkpoint_offsets l') p = Some m" "sint m \<le> sint off"
    using holds_event_offset by blast
  then obtain i e where ie: "(i, e) \<in> set (dl_entries l')" "le_partition e = p" "le_source_offset e = m"
    unfolding checkpoint_offsets_min by auto
  have "ledger_ok l'" using assms(1,3) ledger_ok_run ledger_ok_ops(1) by blast
  then have "map_of (dl_entries l') i = Some e" using ie(1) by (simp add: ledger_ok_def)
  with m ie(2,3) show ?thesis by blast
qed

theorem unacked_event_covered_witness:
  "\<exists>m. map_of (checkpoint_offsets (fold ledger_do [LTrack 2 8 (PartitionId 1) 30, LAck 8, LFail 3 7 ''x'']
        (track 1 7 (PartitionId 1) 20 (ledger_new 3)))) (PartitionId 1) = Some m \<and> sint m \<le> 20"
proof -
  have "ledger_ok (ledger_new 3)" by (simp add: ledger_ok_def ledger_new_def)
  from unacked_event_covered [OF this, of "[LTrack 2 8 (PartitionId 1) 30, LAck 8, LFail 3 7 ''x'']" 7 _ 1 "PartitionId 1" 20, OF _ refl]
  show ?thesis by auto
qed

end
