(* ===== verification/Delivery_Types.thy ===== *)
theory Delivery_Types
  imports Aeon_Types
begin

text \<open>
  \<open>aeon-types/src/delivery.rs\<close>: the delivery strategy and failure policy of a pipeline and the result
  of a \<open>write_batch\<close> call; with them the rendering of an error by \<open>Display\<close>, which the delivery
  ledger stores as the reason of a failure.
\<close>

datatype delivery_strategy = PerEventStrategy | OrderedBatchStrategy | UnorderedBatchStrategy

fun is_blocking :: "delivery_strategy \<Rightarrow> bool" where
  "is_blocking PerEventStrategy = True"
| "is_blocking OrderedBatchStrategy = True"
| "is_blocking UnorderedBatchStrategy = False"

fun preserves_order :: "delivery_strategy \<Rightarrow> bool" where
  "preserves_order PerEventStrategy = True"
| "preserves_order OrderedBatchStrategy = True"
| "preserves_order UnorderedBatchStrategy = False"

fun is_per_event :: "delivery_strategy \<Rightarrow> bool" where
  "is_per_event PerEventStrategy = True"
| "is_per_event OrderedBatchStrategy = False"
| "is_per_event UnorderedBatchStrategy = False"

datatype batch_failure_policy = RetryFailed | FailBatch | SkipToDlq

record batch_result =
  br_delivered :: "uuid list"
  br_pending :: "uuid list"
  br_failed :: "(uuid \<times> aeon_error) list"

definition empty_result :: batch_result where
  "empty_result = \<lparr>br_delivered = [], br_pending = [], br_failed = []\<rparr>"

definition all_delivered :: "uuid list \<Rightarrow> batch_result" where
  "all_delivered ids = \<lparr>br_delivered = ids, br_pending = [], br_failed = []\<rparr>"

definition all_pending :: "uuid list \<Rightarrow> batch_result" where
  "all_pending ids = \<lparr>br_delivered = [], br_pending = ids, br_failed = []\<rparr>"

definition result_total :: "batch_result \<Rightarrow> nat" where
  "result_total r = length (br_delivered r) + length (br_pending r) + length (br_failed r)"

definition has_failures :: "batch_result \<Rightarrow> bool" where
  "has_failures r \<longleftrightarrow> br_failed r \<noteq> []"

definition all_succeeded :: "batch_result \<Rightarrow> bool" where
  "all_succeeded r \<longleftrightarrow> br_pending r = [] \<and> br_failed r = []"

lemma constructed_results [simp]:
  "has_failures (all_delivered ids) = False" "has_failures (all_pending ids) = False"
  "all_succeeded (all_delivered ids) = True" "result_total (all_delivered ids) = length ids"
  "all_succeeded (all_pending ids) \<longleftrightarrow> ids = []" "result_total (all_pending ids) = length ids"
  by (simp_all add: has_failures_def all_succeeded_def result_total_def all_delivered_def all_pending_def)

fun display_error :: "aeon_error \<Rightarrow> string" where
  "display_error (Connection m _) = ''connection error: '' @ m"
| "display_error (Serialization m) = ''serialization error: '' @ m"
| "display_error (State m) = ''state error: '' @ m"
| "display_error (Processor m) = ''processor error: '' @ m"
| "display_error (Config m) = ''config error: '' @ m"
| "display_error (Cluster m) = ''cluster error: '' @ m"
| "display_error (Crypto m) = ''crypto error: '' @ m"
| "display_error (Resource m) = ''resource error: '' @ m"
| "display_error (Timeout m) = ''timeout: '' @ m"
| "display_error (NotFound m) = ''not found: '' @ m"

end
