(* ===== verification/Batch_Tuner.thy ===== *)
theory Batch_Tuner
  imports Aeon_Types
begin

text \<open>
  \<open>aeon-engine/src/batch_tuner.rs\<close>: the hill-climbing tuners of the batch size and of the flush
  interval.  The floating-point operations are the fields of a record, so every fact holds whatever the
  rounding; durations are nanoseconds.  The constructors return \<open>None\<close> where their assertions panic,
  and each call reads the clock once.
\<close>

record 'f f64_ops =
  f_zero :: 'f
  f_one :: 'f
  f_101 :: 'f
  f_099 :: 'f
  f_of_u64 :: "u64 \<Rightarrow> 'f"
  f_as_secs :: "nat \<Rightarrow> 'f"
  f_div :: "'f \<Rightarrow> 'f \<Rightarrow> 'f"
  f_mul :: "'f \<Rightarrow> 'f \<Rightarrow> 'f"
  f_lt :: "'f \<Rightarrow> 'f \<Rightarrow> bool"
  f_eq :: "'f \<Rightarrow> 'f \<Rightarrow> bool"

definition millis :: "nat \<Rightarrow> nat" where
  "millis n = n * 1000000"

section \<open>Batch size\<close>

record 'f batch_tuner =
  bt_current_size :: nat
  bt_min_size :: nat
  bt_max_size :: nat
  bt_step :: nat
  bt_min_step :: nat
  bt_best_throughput :: 'f
  bt_try_larger :: bool
  bt_events_since_measure :: u64
  bt_last_measure :: instant
  bt_measure_interval :: u64
  bt_adjustments :: u32

definition batch_tuner_new :: "'f f64_ops \<Rightarrow> instant \<Rightarrow> nat \<Rightarrow> nat \<Rightarrow> nat \<Rightarrow> 'f batch_tuner option" where
  "batch_tuner_new F now initial mn mx =
     (if mn \<le> initial \<and> initial \<le> mx \<and> mn > 0 then
        Some \<lparr>bt_current_size = initial, bt_min_size = mn, bt_max_size = mx, bt_step = (mx - mn) div 4,
              bt_min_step = max 1 ((mx - mn) div 64), bt_best_throughput = f_zero F, bt_try_larger = True,
              bt_events_since_measure = 0, bt_last_measure = now,
              bt_measure_interval = of_nat (initial * 100), bt_adjustments = 0\<rparr>
      else None)"

text \<open>\<open>step_in_direction\<close> and \<open>revert_step\<close> have the same body.\<close>

definition size_step :: "'f batch_tuner \<Rightarrow> 'f batch_tuner" where
  "size_step t =
     (let size = (if bt_try_larger t then min (bt_current_size t + bt_step t) (bt_max_size t)
                  else max (bt_current_size t - bt_step t) (bt_min_size t))
      in t\<lparr>bt_current_size := size, bt_measure_interval := of_nat (size * 100)\<rparr>)"

definition batch_evaluate :: "'f f64_ops \<Rightarrow> instant \<Rightarrow> 'f batch_tuner \<Rightarrow> bool \<times> 'f batch_tuner" where
  "batch_evaluate F now t =
     (let elapsed = now - bt_last_measure t
      in if elapsed < millis 1 then (False, t)
         else
           let throughput = f_div F (f_of_u64 F (bt_events_since_measure t)) (f_as_secs F elapsed);
               t = t\<lparr>bt_events_since_measure := 0, bt_last_measure := now\<rparr>;
               half = max (bt_step t div 2) (bt_min_step t)
           in if f_eq F (bt_best_throughput t) (f_zero F) then (False, t\<lparr>bt_best_throughput := throughput\<rparr>)
              else if f_lt F (f_mul F (bt_best_throughput t) (f_101 F)) throughput then
                let t = size_step (t\<lparr>bt_best_throughput := throughput\<rparr>)
                in (True, t\<lparr>bt_adjustments := bt_adjustments t + 1\<rparr>)
              else if f_lt F throughput (f_mul F (bt_best_throughput t) (f_099 F)) then
                let t = size_step (t\<lparr>bt_try_larger := \<not> bt_try_larger t, bt_step := half\<rparr>)
                in (True, t\<lparr>bt_adjustments := bt_adjustments t + 1\<rparr>)
              else (False, t\<lparr>bt_step := half\<rparr>))"

definition batch_report :: "'f f64_ops \<Rightarrow> instant \<Rightarrow> u64 \<Rightarrow> 'f batch_tuner \<Rightarrow> bool \<times> 'f batch_tuner" where
  "batch_report F now events t =
     (let t = t\<lparr>bt_events_since_measure := bt_events_since_measure t + events\<rparr>
      in if bt_events_since_measure t \<ge> bt_measure_interval t then batch_evaluate F now t else (False, t))"

section \<open>Flush interval\<close>

record 'f flush_tuner =
  ft_current_interval :: nat
  ft_min_interval :: nat
  ft_max_interval :: nat
  ft_step :: nat
  ft_min_step :: nat
  ft_best_metric :: 'f
  ft_try_longer :: bool
  ft_events_since_eval :: u64
  ft_acks_since_eval :: u64
  ft_last_eval :: instant
  ft_min_sample :: u64
  ft_adjustments :: u32

definition flush_tuner_new :: "'f f64_ops \<Rightarrow> instant \<Rightarrow> nat \<Rightarrow> nat \<Rightarrow> nat \<Rightarrow> 'f flush_tuner option" where
  "flush_tuner_new F now initial mn mx =
     (if mn \<le> initial \<and> initial \<le> mx \<and> mn \<noteq> 0 then
        Some \<lparr>ft_current_interval = initial, ft_min_interval = mn, ft_max_interval = mx, ft_step = (mx - mn) div 4,
              ft_min_step = max (millis 10) ((mx - mn) div 64), ft_best_metric = f_zero F, ft_try_longer = True,
              ft_events_since_eval = 0, ft_acks_since_eval = 0, ft_last_eval = now, ft_min_sample = 100,
              ft_adjustments = 0\<rparr>
      else None)"

definition interval_step :: "'f flush_tuner \<Rightarrow> 'f flush_tuner" where
  "interval_step t =
     t\<lparr>ft_current_interval :=
        (if ft_try_longer t then min (ft_current_interval t + ft_step t) (ft_max_interval t)
         else max (ft_current_interval t - ft_step t) (ft_min_interval t))\<rparr>"

definition reduced_step :: "'f flush_tuner \<Rightarrow> nat" where
  "reduced_step t =
     (let step = max (ft_step t) (ft_min_step t * 2) div 2 in if step < ft_min_step t then ft_min_step t else step)"

definition flush_evaluate :: "'f f64_ops \<Rightarrow> instant \<Rightarrow> 'f flush_tuner \<Rightarrow> bool \<times> 'f flush_tuner" where
  "flush_evaluate F now t =
     (let elapsed = now - ft_last_eval t
      in if elapsed < millis 10 then (False, t)
         else
           let events = f_of_u64 F (ft_events_since_eval t);
               throughput = f_div F events (f_as_secs F elapsed);
               success_rate = (if ft_events_since_eval t > 0 then f_div F (f_of_u64 F (ft_acks_since_eval t)) events
                               else f_one F);
               metric = f_mul F (f_mul F throughput success_rate) success_rate;
               t = t\<lparr>ft_events_since_eval := 0, ft_acks_since_eval := 0, ft_last_eval := now\<rparr>
           in if f_eq F (ft_best_metric t) (f_zero F) then (False, t\<lparr>ft_best_metric := metric\<rparr>)
              else if f_lt F (f_mul F (ft_best_metric t) (f_101 F)) metric then
                let t = interval_step (t\<lparr>ft_best_metric := metric\<rparr>)
                in (True, t\<lparr>ft_adjustments := ft_adjustments t + 1\<rparr>)
              else if f_lt F metric (f_mul F (ft_best_metric t) (f_099 F)) then
                let t = interval_step (t\<lparr>ft_try_longer := \<not> ft_try_longer t, ft_step := reduced_step t\<rparr>)
                in (True, t\<lparr>ft_adjustments := ft_adjustments t + 1\<rparr>)
              else (False, t\<lparr>ft_step := reduced_step t\<rparr>))"

definition flush_report :: "'f f64_ops \<Rightarrow> instant \<Rightarrow> u64 \<Rightarrow> u64 \<Rightarrow> 'f flush_tuner \<Rightarrow> bool \<times> 'f flush_tuner" where
  "flush_report F now events acked t =
     (let t = t\<lparr>ft_events_since_eval := ft_events_since_eval t + events, ft_acks_since_eval := ft_acks_since_eval t + acked\<rparr>
      in if ft_events_since_eval t \<ge> ft_min_sample t then flush_evaluate F now t else (False, t))"

section \<open>The tuned value stays in its range\<close>

text \<open>Both tuners are instances of one contract: a value confined to a fixed range by every report.\<close>

locale bounded_tuner =
  fixes report :: "'i \<Rightarrow> 't \<Rightarrow> 't" and tuned low high :: "'t \<Rightarrow> nat"
  assumes report_bounds: "low t \<le> tuned t \<Longrightarrow> tuned t \<le> high t \<Longrightarrow>
      low (report i t) \<le> tuned (report i t) \<and> tuned (report i t) \<le> high (report i t)"
    and report_range: "low (report i t) = low t \<and> high (report i t) = high t"
begin

lemma reports_in_range:
  "low t \<le> tuned t \<Longrightarrow> tuned t \<le> high t \<Longrightarrow> low t \<le> tuned (fold report is t) \<and> tuned (fold report is t) \<le> high t"
proof (induction "is" arbitrary: t)
  case (Cons i "is")
  then show ?case using report_bounds [of t i] report_range [of i t] Cons.IH [of "report i t"] by simp
qed simp

end

interpretation size_tuner: bounded_tuner "\<lambda>(now, events) t. snd (batch_report F now events t)"
  bt_current_size bt_min_size bt_max_size for F :: "'f f64_ops"
  by unfold_locales (auto simp: batch_report_def batch_evaluate_def size_step_def Let_def)

interpretation interval_tuner: bounded_tuner "\<lambda>(now, events, acked) t. snd (flush_report F now events acked t)"
  ft_current_interval ft_min_interval ft_max_interval for F :: "'f f64_ops"
  by unfold_locales (auto simp: flush_report_def flush_evaluate_def interval_step_def Let_def)

end
