(* ===== verification/Sink_Task.thy ===== *)
theory Sink_Task
  imports Eo2 Delivery_Ledger Delivery_Types Batch_Tuner
begin

text \<open>
  The sink task of \<open>aeon-engine/src/pipeline.rs\<close>: delivery with retries, the delivery ledger, the
  acknowledged-sequence watermark, periodic flushes, checkpoints and the sweep of the L2 body stores, and
  the recovery plan a restarted pipeline derives from the last checkpoint.

  The loop is driven by the list of results its ring buffer pops, each with the reading of the clock for
  that iteration.  The sink connector and the checkpoint store are records of operations over hidden
  states.  \<open>Eo2Metrics\<close> gauges, log lines and the sleeps between retries are left out.
\<close>

record 'n sink_ops =
  sk_write_batch :: "aeon_output list \<Rightarrow> 'n \<Rightarrow> batch_result res \<times> 'n"
  sk_flush :: "'n \<Rightarrow> unit res \<times> 'n"

record pipeline_metrics =
  pm_events_received :: u64
  pm_events_processed :: u64
  pm_outputs_sent :: u64
  pm_outputs_acked :: u64
  pm_checkpoints_written :: u64
  pm_events_failed :: u64
  pm_events_retried :: u64
  pm_poh_entries :: u64

definition metrics_new :: pipeline_metrics where
  "metrics_new =
     \<lparr>pm_events_received = 0, pm_events_processed = 0, pm_outputs_sent = 0, pm_outputs_acked = 0,
      pm_checkpoints_written = 0, pm_events_failed = 0, pm_events_retried = 0, pm_poh_entries = 0\<rparr>"

record ('n, 'c, 'f) sink_env =
  se_sink :: "'n sink_ops"
  se_ckpt :: "'c ckpt_ops"
  se_f64 :: "'f f64_ops"
  se_serde :: serde_backend
  se_crc :: "bytes \<Rightarrow> u32"
  se_wall :: "instant \<Rightarrow> i64"

text \<open>The configuration part of \<open>SinkTaskCtx\<close>.\<close>

record sink_cfg =
  sc_strategy :: delivery_strategy
  sc_flush_interval :: nat
  sc_max_pending :: nat
  sc_adaptive_flush :: bool
  sc_adaptive_min_divisor :: u32
  sc_adaptive_max_multiplier :: u32
  sc_failure_policy :: batch_failure_policy
  sc_max_retries :: u32
  sc_sink_name :: string
  sc_pipeline_name :: string

text \<open>The shared objects of the task and its local variables.\<close>

record ('n, 'c, 'k, 'f) sink_state =
  st_sink :: 'n
  st_metrics :: pipeline_metrics
  st_ledger :: "delivery_ledger option"
  st_writer :: "'c option"
  st_tracker :: "ack_seq_tracker option"
  st_registry :: "'k l2_registry option"
  st_capacity :: "pipeline_capacity option"
  st_max_acked_seq :: u64
  st_flushes_since_recovery :: u32
  st_last_flush :: instant
  st_pending_count :: u64
  st_pending_ids :: "uuid list"
  st_delivered_since_checkpoint :: u64
  st_failed_since_checkpoint :: u64
  st_flush_tuner :: "'f flush_tuner option"
  st_acked_since_last_flush :: u64
  st_events_since_last_flush :: u64

section \<open>Partial failures\<close>

definition add_sent :: "nat \<Rightarrow> pipeline_metrics \<Rightarrow> pipeline_metrics" where
  "add_sent n m = m\<lparr>pm_outputs_sent := pm_outputs_sent m + of_nat n\<rparr>"

definition add_failed :: "nat \<Rightarrow> pipeline_metrics \<Rightarrow> pipeline_metrics" where
  "add_failed n m = m\<lparr>pm_events_failed := pm_events_failed m + of_nat n\<rparr>"

definition mark_each_failed :: "instant \<Rightarrow> (uuid \<times> string) list \<Rightarrow> delivery_ledger \<Rightarrow> delivery_ledger" where
  "mark_each_failed now fs l = fold (\<lambda>(i, reason) l. snd (mark_failed now i reason l)) fs l"

definition ack_ledger :: "uuid list \<Rightarrow> delivery_ledger option \<Rightarrow> delivery_ledger option" where
  "ack_ledger ids l = map_option (\<lambda>l. snd (mark_batch_acked ids l)) l"

definition outputs_of :: "(uuid \<times> aeon_error) list \<Rightarrow> aeon_output list \<Rightarrow> aeon_output list" where
  "outputs_of failed outs =
     filter (\<lambda>ou. case out_source_event_id ou of Some i \<Rightarrow> i \<in> set (map fst failed) | None \<Rightarrow> False) outs"

text \<open>\<open>n\<close> retries are left; the last one records what still fails.\<close>

fun retry_loop :: "'n sink_ops \<Rightarrow> instant \<Rightarrow> nat \<Rightarrow> aeon_output list \<Rightarrow> 'n \<times> pipeline_metrics \<times> delivery_ledger option
    \<Rightarrow> unit res \<times> 'n \<times> pipeline_metrics \<times> delivery_ledger option" where
  "retry_loop K now 0 outs (sink, m, l) = (Inr (), sink, m, l)"
| "retry_loop K now (Suc n) outs (sink, m, l) =
     (let m = m\<lparr>pm_events_retried := pm_events_retried m + of_nat (length outs)\<rparr>
      in case sk_write_batch K outs sink of
           (Inl e, sink) \<Rightarrow> (Inl e, sink, m, l)
         | (Inr r, sink) \<Rightarrow>
             let l = ack_ledger (br_delivered r) l; m = add_sent (length (br_delivered r)) m
             in if \<not> has_failures r then (Inr (), sink, m, l)
                else if n = 0 then
                  (Inr (), sink, add_failed (length (br_failed r)) m,
                   map_option (mark_each_failed now
                     (map (\<lambda>(i, err). (i, ''retry exhausted: '' @ display_error err)) (br_failed r))) l)
                else retry_loop K now n (outputs_of (br_failed r) outs) (sink, m, l))"

fun handle_batch_failures :: "'n sink_ops \<Rightarrow> instant \<Rightarrow> aeon_output list \<Rightarrow> batch_result \<Rightarrow> batch_failure_policy \<Rightarrow> u32
    \<Rightarrow> 'n \<times> pipeline_metrics \<times> delivery_ledger option
    \<Rightarrow> unit res \<times> 'n \<times> pipeline_metrics \<times> delivery_ledger option" where
  "handle_batch_failures K now original r FailBatch max_retries (sink, m, l) =
     (Inl (Connection ''FailBatch: events failed in batch'' False), sink, add_failed (length (br_failed r)) m, l)"
| "handle_batch_failures K now original r SkipToDlq max_retries (sink, m, l) =
     (Inr (), sink, add_failed (length (br_failed r)) m, l)"
| "handle_batch_failures K now original r RetryFailed max_retries (sink, m, l) =
     (let retry_outputs = outputs_of (br_failed r) original
      in if retry_outputs = [] then (Inr (), sink, add_failed (length (br_failed r)) m, l)
         else retry_loop K now (unat max_retries) retry_outputs (sink, m, l))"

section \<open>Checkpoints, flush credit and the sweep\<close>

definition checkpoint_of :: "('n, 'c, 'f) sink_env \<Rightarrow> instant \<Rightarrow> ('n, 'c, 'k, 'f) sink_state \<Rightarrow> checkpoint_record" where
  "checkpoint_of E now st =
     (let (source_offsets, pending) =
            (case st_ledger st of Some l \<Rightarrow> (checkpoint_offsets l, pending_ids l) | None \<Rightarrow> ([], []));
          record = checkpoint_new (se_wall E now) 0 source_offsets pending
                     (st_delivered_since_checkpoint st) (st_failed_since_checkpoint st)
      in case st_tracker st of Some t \<Rightarrow> with_per_sink_ack_seq record t | None \<Rightarrow> record)"

definition write_checkpoint :: "('n, 'c, 'f) sink_env \<Rightarrow> instant \<Rightarrow> ('n, 'c, 'k, 'f) sink_state \<Rightarrow> ('n, 'c, 'k, 'f) sink_state" where
  "write_checkpoint E now st =
     (case st_writer st of
        None \<Rightarrow> st
      | Some w \<Rightarrow>
          let (_, _, w') = cp_append (se_ckpt E) (checkpoint_of E now st) w; m = st_metrics st
          in st\<lparr>st_writer := Some w',
                st_metrics := m\<lparr>pm_checkpoints_written := pm_checkpoints_written m + 1\<rparr>,
                st_delivered_since_checkpoint := 0, st_failed_since_checkpoint := 0\<rparr>)"

definition credit_pending_on_flush :: "('n, 'c, 'k, 'f) sink_state \<Rightarrow> ('n, 'c, 'k, 'f) sink_state" where
  "credit_pending_on_flush st =
     (if st_pending_ids st = [] then st
      else let n = length (st_pending_ids st)
           in st\<lparr>st_ledger := ack_ledger (st_pending_ids st) (st_ledger st), st_metrics := add_sent n (st_metrics st),
                 st_delivered_since_checkpoint := st_delivered_since_checkpoint st + of_nat n,
                 st_acked_since_last_flush := st_acked_since_last_flush st + of_nat n, st_pending_ids := []\<rparr>)"

definition sweep_store :: "('n, 'c, 'f) sink_env \<Rightarrow> u64 \<Rightarrow> instant \<Rightarrow> string \<Rightarrow> string \<times> partition_id
    \<Rightarrow> 'k l2_registry \<times> pipeline_capacity option \<Rightarrow> 'k l2_registry \<times> pipeline_capacity option" where
  "sweep_store E min_ack now pipeline_name key regcap =
     (let (reg, cap) = regcap; (pipe, part) = key
      in if pipe \<noteq> pipeline_name then (reg, cap)
         else case registry_open (se_serde E) (se_crc E) pipe part reg of
                (Inl _, reg) \<Rightarrow> (reg, cap)
              | (Inr _, reg) \<Rightarrow>
                  (case hm_get (rg_stores reg) (pipe, part) of
                     None \<Rightarrow> (reg, cap)
                   | Some store \<Rightarrow>
                       let (_, store') = gc_up_to_at min_ack now store;
                           reclaimed = saturating_sub (disk_bytes store) (disk_bytes store')
                       in (reg\<lparr>rg_stores := hm_insert (pipe, part) store' (rg_stores reg)\<rparr>,
                           (if reclaimed > 0 then map_option (capacity_adjust (as_u16 part) (- reclaimed)) cap else cap))))"

definition eo2_gc_sweep :: "('n, 'c, 'f) sink_env \<Rightarrow> sink_cfg \<Rightarrow> instant \<Rightarrow> ('n, 'c, 'k, 'f) sink_state
    \<Rightarrow> ('n, 'c, 'k, 'f) sink_state" where
  "eo2_gc_sweep E cfg now st =
     (case (st_registry st, st_tracker st) of
        (Some reg, Some tracker) \<Rightarrow>
          (case min_across_sinks tracker of
             None \<Rightarrow> st
           | Some min_ack \<Rightarrow>
               if min_ack = 0 then st
               else let (reg', cap') = fold (sweep_store E min_ack now (sc_pipeline_name cfg)) (registry_keys reg)
                                         (reg, st_capacity st)
                    in st\<lparr>st_registry := Some reg', st_capacity := cap'\<rparr>)
      | _ \<Rightarrow> st)"

section \<open>One batch\<close>

definition identity_of :: "aeon_output \<Rightarrow> partition_id \<times> i64" where
  "identity_of ou =
     (case out_source_partition ou of Some p \<Rightarrow> p | None \<Rightarrow> PartitionId 0,
      case out_source_offset ou of Some off \<Rightarrow> off | None \<Rightarrow> 0)"

definition track_outputs :: "instant \<Rightarrow> aeon_output list \<Rightarrow> delivery_ledger \<Rightarrow> delivery_ledger" where
  "track_outputs now outs l =
     fold (\<lambda>ou l. case out_source_event_id ou of
             Some i \<Rightarrow> track now i (fst (identity_of ou)) (snd (identity_of ou)) l
           | None \<Rightarrow> l) outs l"

definition l2_seqs :: "aeon_output list \<Rightarrow> (uuid, u64) hash_map" where
  "l2_seqs outs =
     fold (\<lambda>ou m. case (out_source_event_id ou, out_l2_seq ou) of
             (Some i, Some seq) \<Rightarrow> hm_insert i seq m
           | _ \<Rightarrow> m) outs []"

definition batch_max :: "(uuid, u64) hash_map \<Rightarrow> uuid list \<Rightarrow> u64" where
  "batch_max m ids =
     fold (\<lambda>i mx. case hm_get m i of Some seq \<Rightarrow> if seq > mx then seq else mx | None \<Rightarrow> mx) ids 0"

definition advance_watermark :: "sink_cfg \<Rightarrow> (uuid, u64) hash_map \<Rightarrow> uuid list \<Rightarrow> ('n, 'c, 'k, 'f) sink_state
    \<Rightarrow> ('n, 'c, 'k, 'f) sink_state" where
  "advance_watermark cfg m delivered st =
     (case st_tracker st of
        None \<Rightarrow> st
      | Some t \<Rightarrow>
          let mx = batch_max m delivered
          in if mx > st_max_acked_seq st
             then st\<lparr>st_max_acked_seq := mx, st_tracker := Some (record_ack (sc_sink_name cfg) mx t)\<rparr>
             else st)"

text \<open>Up to and including the failure policy.\<close>

definition deliver_batch :: "('n, 'c, 'f) sink_env \<Rightarrow> sink_cfg \<Rightarrow> instant \<Rightarrow> aeon_output list \<Rightarrow> ('n, 'c, 'k, 'f) sink_state
    \<Rightarrow> unit res \<times> ('n, 'c, 'k, 'f) sink_state" where
  "deliver_batch E cfg now outs st =
     (let st = st\<lparr>st_ledger := map_option (track_outputs now outs) (st_ledger st)\<rparr>;
          tracked_ids = (case st_ledger st of Some _ \<Rightarrow> filter_map out_source_event_id outs | None \<Rightarrow> []);
          for_retry = (if sc_failure_policy cfg = RetryFailed then outs else [])
      in case sk_write_batch (se_sink E) outs (st_sink st) of
           (Inl e, sink) \<Rightarrow>
             (Inl e, st\<lparr>st_sink := sink,
                        st_ledger := map_option (mark_each_failed now (map (\<lambda>i. (i, display_error e)) tracked_ids)) (st_ledger st)\<rparr>)
         | (Inr r, sink) \<Rightarrow>
             let st = st\<lparr>st_sink := sink,
                         st_ledger := map_option (mark_each_failed now (map (\<lambda>(i, err). (i, display_error err)) (br_failed r)))
                                        (ack_ledger (br_delivered r) (st_ledger st))\<rparr>;
                 st = advance_watermark cfg (l2_seqs outs) (br_delivered r) st;
                 n = of_nat (length (br_delivered r));
                 st = st\<lparr>st_metrics := add_sent (length (br_delivered r)) (st_metrics st),
                         st_delivered_since_checkpoint := st_delivered_since_checkpoint st + n,
                         st_acked_since_last_flush := st_acked_since_last_flush st + n,
                         st_events_since_last_flush := st_events_since_last_flush st + of_nat (length outs),
                         st_pending_ids := st_pending_ids st @ br_pending r\<rparr>
             in if \<not> has_failures r then (Inr (), st)
                else case handle_batch_failures (se_sink E) now for_retry r (sc_failure_policy cfg) (sc_max_retries cfg)
                            (st_sink st, st_metrics st, st_ledger st) of
                       (res, sink, m, l) \<Rightarrow>
                         let st = st\<lparr>st_sink := sink, st_metrics := m, st_ledger := l\<rparr>
                         in case res of
                              Inl e \<Rightarrow> (Inl e, st)
                            | Inr _ \<Rightarrow>
                                (Inr (), st\<lparr>st_failed_since_checkpoint :=
                                           st_failed_since_checkpoint st + of_nat (length (br_failed r))\<rparr>))"

definition blocking_checkpoint :: "('n, 'c, 'f) sink_env \<Rightarrow> sink_cfg \<Rightarrow> instant \<Rightarrow> ('n, 'c, 'k, 'f) sink_state
    \<Rightarrow> ('n, 'c, 'k, 'f) sink_state" where
  "blocking_checkpoint E cfg now st =
     (if is_blocking (sc_strategy cfg) \<and> st_delivered_since_checkpoint st > 0 \<and> now - st_last_flush st \<ge> sc_flush_interval cfg
      then (write_checkpoint E now st)\<lparr>st_last_flush := now\<rparr> else st)"

definition effective_interval :: "sink_cfg \<Rightarrow> ('n, 'c, 'k, 'f) sink_state \<Rightarrow> nat" where
  "effective_interval cfg st =
     (case st_flush_tuner st of Some t \<Rightarrow> ft_current_interval t | None \<Rightarrow> sc_flush_interval cfg)"

definition recovery_attempt :: "('n, 'c, 'f) sink_env \<Rightarrow> ('n, 'c, 'k, 'f) sink_state \<Rightarrow> ('n, 'c, 'k, 'f) sink_state" where
  "recovery_attempt E st =
     (let n = st_flushes_since_recovery st + 1
      in if n \<ge> 16 then st\<lparr>st_flushes_since_recovery := 0, st_writer := map_option (\<lambda>w. snd (cp_try_recover (se_ckpt E) w)) (st_writer st)\<rparr>
         else st\<lparr>st_flushes_since_recovery := n\<rparr>)"

text \<open>A flush in the non-blocking mode, with everything that follows it.\<close>

definition flush_cycle :: "('n, 'c, 'f) sink_env \<Rightarrow> sink_cfg \<Rightarrow> instant \<Rightarrow> ('n, 'c, 'k, 'f) sink_state
    \<Rightarrow> unit res \<times> ('n, 'c, 'k, 'f) sink_state" where
  "flush_cycle E cfg now st =
     (let st = st\<lparr>st_flush_tuner := map_option (\<lambda>t. snd (flush_report (se_f64 E) now (st_events_since_last_flush st)
                    (st_acked_since_last_flush st) t)) (st_flush_tuner st)\<rparr>
      in case sk_flush (se_sink E) (st_sink st) of
           (Inl e, sink) \<Rightarrow> (Inl e, st\<lparr>st_sink := sink\<rparr>)
         | (Inr _, sink) \<Rightarrow>
             let st = recovery_attempt E (eo2_gc_sweep E cfg now (write_checkpoint E now (credit_pending_on_flush (st\<lparr>st_sink := sink\<rparr>))))
             in (Inr (), st\<lparr>st_pending_count := 0, st_last_flush := now, st_acked_since_last_flush := 0,
                            st_events_since_last_flush := 0\<rparr>))"

definition sink_batch :: "('n, 'c, 'f) sink_env \<Rightarrow> sink_cfg \<Rightarrow> instant \<Rightarrow> aeon_output list \<Rightarrow> ('n, 'c, 'k, 'f) sink_state
    \<Rightarrow> unit res \<times> ('n, 'c, 'k, 'f) sink_state" where
  "sink_batch E cfg now outs st =
     (case deliver_batch E cfg now outs st of
        (Inl e, st) \<Rightarrow> (Inl e, st)
      | (Inr _, st) \<Rightarrow>
          let st = (if is_blocking (sc_strategy cfg) \<and> st_capacity st \<noteq> None then eo2_gc_sweep E cfg now st else st);
              st = blocking_checkpoint E cfg now st
          in if is_blocking (sc_strategy cfg) then (Inr (), st)
             else let st = st\<lparr>st_pending_count := st_pending_count st + of_nat (length outs)\<rparr>
                  in if now - st_last_flush st \<ge> effective_interval cfg st \<or> st_pending_count st \<ge> of_nat (sc_max_pending cfg)
                     then flush_cycle E cfg now st else (Inr (), st))"

text \<open>An empty ring: install a swapped sink, if one was handed over, and tick the timers.\<close>

definition sink_idle :: "('n, 'c, 'f) sink_env \<Rightarrow> sink_cfg \<Rightarrow> instant \<Rightarrow> 'n option \<Rightarrow> ('n, 'c, 'k, 'f) sink_state
    \<Rightarrow> unit res \<times> ('n, 'c, 'k, 'f) sink_state" where
  "sink_idle E cfg now swapped st =
     (let st = (case swapped of Some sink \<Rightarrow> st\<lparr>st_sink := sink\<rparr> | None \<Rightarrow> st);
          st = blocking_checkpoint E cfg now st
      in if \<not> is_blocking (sc_strategy cfg) \<and> st_pending_count st > 0 \<and> now - st_last_flush st \<ge> effective_interval cfg st
         then flush_cycle E cfg now st else (Inr (), st))"

definition sink_finish :: "('n, 'c, 'f) sink_env \<Rightarrow> sink_cfg \<Rightarrow> instant \<Rightarrow> ('n, 'c, 'k, 'f) sink_state
    \<Rightarrow> unit res \<times> ('n, 'c, 'k, 'f) sink_state" where
  "sink_finish E cfg now st =
     (case sk_flush (se_sink E) (st_sink st) of
        (Inl e, sink) \<Rightarrow> (Inl e, st\<lparr>st_sink := sink\<rparr>)
      | (Inr _, sink) \<Rightarrow>
          let st = credit_pending_on_flush (st\<lparr>st_sink := sink\<rparr>)
          in if st_delivered_since_checkpoint st > 0 \<or> st_failed_since_checkpoint st > 0
             then (Inr (), eo2_gc_sweep E cfg now (write_checkpoint E now st)) else (Inr (), st))"

section \<open>The loop\<close>

datatype 'n pop = PopBatch "aeon_output list" | PopIdle "'n option" | PopAbandoned

text \<open>\<open>None\<close> as the first component: the task is still running when the list ends.\<close>

fun sink_loop :: "('n, 'c, 'f) sink_env \<Rightarrow> sink_cfg \<Rightarrow> (instant \<times> 'n pop) list \<Rightarrow> ('n, 'c, 'k, 'f) sink_state
    \<Rightarrow> unit res option \<times> ('n, 'c, 'k, 'f) sink_state" where
  "sink_loop E cfg [] st = (None, st)"
| "sink_loop E cfg ((now, PopBatch outs) # pops) st =
     (case sink_batch E cfg now outs st of
        (Inl e, st) \<Rightarrow> (Some (Inl e), st)
      | (Inr _, st) \<Rightarrow> sink_loop E cfg pops st)"
| "sink_loop E cfg ((now, PopIdle swapped) # pops) st =
     (case sink_idle E cfg now swapped st of
        (Inl e, st) \<Rightarrow> (Some (Inl e), st)
      | (Inr _, st) \<Rightarrow> sink_loop E cfg pops st)"
| "sink_loop E cfg ((now, PopAbandoned) # pops) st =
     (case sink_finish E cfg now st of (r, st) \<Rightarrow> (Some r, st))"

text \<open>The start of the task; \<open>None\<close> where the tuner's assertions or the division panic.\<close>

definition start_tuner :: "('n, 'c, 'f) sink_env \<Rightarrow> sink_cfg \<Rightarrow> instant \<Rightarrow> bool \<Rightarrow> 'f flush_tuner option option" where
  "start_tuner E cfg now has_ledger =
     (if sc_adaptive_flush cfg \<and> has_ledger then
        (if sc_adaptive_min_divisor cfg = 0 then None
         else map_option Some (flush_tuner_new (se_f64 E) now (sc_flush_interval cfg)
                (sc_flush_interval cfg div unat (sc_adaptive_min_divisor cfg))
                (sc_flush_interval cfg * unat (sc_adaptive_max_multiplier cfg))))
      else Some None)"

definition sink_start :: "('n, 'c, 'f) sink_env \<Rightarrow> sink_cfg \<Rightarrow> instant \<Rightarrow> 'n \<Rightarrow> pipeline_metrics \<Rightarrow> delivery_ledger option
    \<Rightarrow> 'c option \<Rightarrow> ack_seq_tracker option \<Rightarrow> 'k l2_registry option \<Rightarrow> pipeline_capacity option
    \<Rightarrow> ('n, 'c, 'k, 'f) sink_state option" where
  "sink_start E cfg now sink metrics ledger writer tracker registry capacity =
     map_option (\<lambda>tuner.
       \<lparr>st_sink = sink, st_metrics = metrics, st_ledger = ledger, st_writer = writer,
        st_tracker = map_option (register_sink (sc_sink_name cfg)) tracker, st_registry = registry,
        st_capacity = capacity, st_max_acked_seq = 0, st_flushes_since_recovery = 0, st_last_flush = now,
        st_pending_count = 0, st_pending_ids = [], st_delivered_since_checkpoint = 0,
        st_failed_since_checkpoint = 0, st_flush_tuner = tuner, st_acked_since_last_flush = 0,
        st_events_since_last_flush = 0\<rparr>) (start_tuner E cfg now (ledger \<noteq> None))"

definition run_sink_task :: "('n, 'c, 'f) sink_env \<Rightarrow> sink_cfg \<Rightarrow> instant \<Rightarrow> 'n \<Rightarrow> pipeline_metrics \<Rightarrow> delivery_ledger option
    \<Rightarrow> 'c option \<Rightarrow> ack_seq_tracker option \<Rightarrow> 'k l2_registry option \<Rightarrow> pipeline_capacity option \<Rightarrow> (instant \<times> 'n pop) list
    \<Rightarrow> (unit res option \<times> ('n, 'c, 'k, 'f) sink_state) option" where
  "run_sink_task E cfg now sink metrics ledger writer tracker registry capacity pops =
     map_option (sink_loop E cfg pops) (sink_start E cfg now sink metrics ledger writer tracker registry capacity)"

section \<open>Recovery\<close>

definition load_recovery_plan :: "'c ckpt_ops \<Rightarrow> 'c option \<Rightarrow> recovery_plan option" where
  "load_recovery_plan P writer =
     (case writer of
        None \<Rightarrow> None
      | Some w \<Rightarrow> (case cp_read_last P w of Inl _ \<Rightarrow> None | Inr record \<Rightarrow> Some (plan_from_last record)))"

definition dispatch_recovery_plan :: "'s source_ops \<Rightarrow> 's \<Rightarrow> recovery_plan option \<Rightarrow> 's" where
  "dispatch_recovery_plan Src s plan =
     (case plan of
        None \<Rightarrow> s
      | Some p \<Rightarrow> snd (so_on_recovery_plan Src (rp_pull_seek_offsets p) (rp_l2_replay_start_seq p) s))"

section \<open>The ledger through the loop\<close>

text \<open>
  \<open>tracked e p off st\<close>: the event is in the ledger with its identity and is not waiting for a flush.  It
  stays so while the sink does not report it.
\<close>

definition tracked :: "uuid \<Rightarrow> partition_id \<Rightarrow> i64 \<Rightarrow> ('n, 'c, 'k, 'f) sink_state \<Rightarrow> bool" where
  "tracked e p off st \<longleftrightarrow>
     (case st_ledger st of Some l \<Rightarrow> holds_event e p off l | None \<Rightarrow> False) \<and> e \<notin> set (st_pending_ids st)"

definition never_acks :: "'n sink_ops \<Rightarrow> uuid \<Rightarrow> bool" where
  "never_acks K e \<longleftrightarrow>
     (\<forall>outs n r n'. sk_write_batch K outs n = (Inr r, n') \<longrightarrow> e \<notin> set (br_delivered r) \<and> e \<notin> set (br_pending r))"

definition identified :: "uuid \<Rightarrow> partition_id \<Rightarrow> i64 \<Rightarrow> aeon_output list \<Rightarrow> bool" where
  "identified e p off outs \<longleftrightarrow> (\<forall>ou \<in> set outs. out_source_event_id ou = Some e \<longrightarrow> identity_of ou = (p, off))"

lemma holds_mark_batch_acked:
  "holds_event e p off l \<Longrightarrow> e \<notin> set ids \<Longrightarrow> holds_event e p off (snd (mark_batch_acked ids l))"
proof (induction ids arbitrary: l)
  case (Cons i ids)
  then have "holds_event e p off (snd (mark_acked i l))" using holds_event_step [of e p off l "LAck i"] by auto
  then show ?case using Cons by (simp add: split_beta Let_def)
qed simp

lemma holds_mark_each_failed: "holds_event e p off l \<Longrightarrow> holds_event e p off (mark_each_failed now fs l)"
proof (induction fs arbitrary: l)
  case (Cons f fs)
  obtain i reason where f: "f = (i, reason)" by force
  have "holds_event e p off (snd (mark_failed now i reason l))"
    using holds_event_step [OF Cons.prems, of "LFail now i reason"] by simp
  then show ?case using Cons.IH by (simp add: mark_each_failed_def f)
qed (simp add: mark_each_failed_def)

lemma holds_track: "holds_event e p off (track now e p off l)"
  "holds_event e p off l \<Longrightarrow> i \<noteq> e \<Longrightarrow> holds_event e p off (track now i q o' l)"
  by (simp_all add: holds_event_def track_def update_conv')

lemma holds_track_outputs:
  "identified e p off outs \<Longrightarrow> holds_event e p off l \<or> (\<exists>ou \<in> set outs. out_source_event_id ou = Some e) \<Longrightarrow>
     holds_event e p off (track_outputs now outs l)"
proof (induction outs arbitrary: l)
  case (Cons ou outs)
  define l1 where "l1 = (case out_source_event_id ou of Some i \<Rightarrow> track now i (fst (identity_of ou)) (snd (identity_of ou)) l | None \<Rightarrow> l)"
  have "holds_event e p off l1 \<or> (\<exists>ou \<in> set outs. out_source_event_id ou = Some e)"
  proof (cases "out_source_event_id ou = Some e")
    case True
    then show ?thesis using Cons.prems(1) holds_track(1) by (simp add: l1_def identified_def)
  next
    case False
    then show ?thesis using Cons.prems(2) holds_track(2) [of e p off l] by (auto simp: l1_def split: option.splits)
  qed
  moreover have "identified e p off outs" using Cons.prems(1) by (simp add: identified_def)
  moreover have "track_outputs now (ou # outs) l = track_outputs now outs l1" by (simp add: track_outputs_def l1_def)
  ultimately show ?case using Cons.IH [of l1] by simp
qed (simp add: track_outputs_def)

lemma holds_retry_loop:
  assumes "never_acks K e"
  shows "retry_loop K now n outs (sink, m, Some l) = (r, sink', m', l') \<Longrightarrow> holds_event e p off l \<Longrightarrow>
     \<exists>l2. l' = Some l2 \<and> holds_event e p off l2"
proof (induction n arbitrary: outs sink m l)
  case (Suc n)
  show ?case
  proof (cases "sk_write_batch K outs sink")
    case (Pair w s1)
    show ?thesis
    proof (cases w)
      case (Inr res)
      then have "e \<notin> set (br_delivered res)" using assms Pair by (auto simp: never_acks_def)
      then have h: "holds_event e p off (snd (mark_batch_acked (br_delivered res) l))"
        using Suc.prems(2) holds_mark_batch_acked by blast
      then show ?thesis
        using Suc.prems(1) Suc.IH [OF _ h] holds_mark_each_failed [OF h] Pair Inr
        by (auto simp: Let_def ack_ledger_def split: if_splits)
    qed (use Suc.prems Pair in auto)
  qed
qed auto

lemma holds_handle_batch_failures:
  assumes "never_acks K e" "handle_batch_failures K now orig r pol n (sink, m, Some l) = (res, sink', m', l')" "holds_event e p off l"
  shows "\<exists>l2. l' = Some l2 \<and> holds_event e p off l2"
  using assms(2,3) holds_retry_loop [OF assms(1)] by (cases pol) (auto simp: Let_def split: if_splits)

lemma bookkeeping_keeps_ledger [simp]:
  "st_ledger (write_checkpoint E now st) = st_ledger st" "st_pending_ids (write_checkpoint E now st) = st_pending_ids st"
  "st_ledger (eo2_gc_sweep E cfg now st) = st_ledger st" "st_pending_ids (eo2_gc_sweep E cfg now st) = st_pending_ids st"
  "st_ledger (recovery_attempt E st) = st_ledger st" "st_pending_ids (recovery_attempt E st) = st_pending_ids st"
  "st_ledger (blocking_checkpoint E cfg now st) = st_ledger st"
  "st_pending_ids (blocking_checkpoint E cfg now st) = st_pending_ids st"
  "st_ledger (advance_watermark cfg m ids st) = st_ledger st"
  "st_pending_ids (advance_watermark cfg m ids st) = st_pending_ids st"
  by (auto simp: write_checkpoint_def eo2_gc_sweep_def recovery_attempt_def blocking_checkpoint_def advance_watermark_def
      Let_def split: option.splits prod.splits)

lemma tracked_deliver_batch:
  assumes "never_acks (se_sink E) e" "identified e p off outs" "deliver_batch E cfg now outs st = (r, st')"
    and "tracked e p off st \<or> st_ledger st \<noteq> None \<and> e \<notin> set (st_pending_ids st) \<and> (\<exists>ou \<in> set outs. out_source_event_id ou = Some e)"
  shows "tracked e p off st'"
proof -
  obtain l where l: "st_ledger st = Some l" and np: "e \<notin> set (st_pending_ids st)"
    using assms(4) by (auto simp: tracked_def split: option.splits)
  have h: "holds_event e p off (track_outputs now outs l)"
    using assms(2,4) l by (intro holds_track_outputs) (auto simp: tracked_def)
  obtain w s1 where w: "sk_write_batch (se_sink E) outs (st_sink st) = (w, s1)" by force
  show ?thesis
  proof (cases w)
    case (Inl err)
    then show ?thesis
      using assms(3) w l np holds_mark_each_failed [OF h] by (auto simp: deliver_batch_def tracked_def Let_def)
  next
    case (Inr res)
    have ids: "e \<notin> set (br_delivered res)" "e \<notin> set (br_pending res)"
      using assms(1) w Inr by (auto simp: never_acks_def)
    define l1 where "l1 = mark_each_failed now (map (\<lambda>(i, err). (i, display_error err)) (br_failed res))
      (snd (mark_batch_acked (br_delivered res) (track_outputs now outs l)))"
    have h1: "holds_event e p off l1" unfolding l1_def by (intro holds_mark_each_failed holds_mark_batch_acked h ids)
    show ?thesis
    proof (cases "has_failures res")
      case False
      then show ?thesis
        using assms(3) w Inr l np ids h1 by (auto simp: deliver_batch_def tracked_def Let_def ack_ledger_def l1_def)
    next
      case True
      obtain r2 s2 m2 l2 where hb: "handle_batch_failures (se_sink E) now (if sc_failure_policy cfg = RetryFailed then outs else [])
          res (sc_failure_policy cfg) (sc_max_retries cfg) (s1, add_sent (length (br_delivered res)) (st_metrics st), Some l1) = (r2, s2, m2, l2)"
        by (metis prod_cases4)
      obtain l3 where l3: "l2 = Some l3" "holds_event e p off l3"
        using holds_handle_batch_failures [OF assms(1) hb h1] by blast
      have "st_ledger st' = l2 \<and> st_pending_ids st' = st_pending_ids st @ br_pending res"
        using assms(3) w Inr l True hb
        by (auto simp: deliver_batch_def Let_def ack_ledger_def l1_def [symmetric] advance_watermark_def split: sum.splits option.splits if_splits)
      then show ?thesis using l3 np ids by (simp add: tracked_def)
    qed
  qed
qed

lemma tracked_credit:
  "tracked e p off st \<Longrightarrow> tracked e p off (credit_pending_on_flush st)"
  by (auto simp: tracked_def credit_pending_on_flush_def ack_ledger_def Let_def holds_mark_batch_acked split: option.splits)

lemma tracked_cong: "st_ledger st' = st_ledger st \<Longrightarrow> st_pending_ids st' = st_pending_ids st \<Longrightarrow> tracked e p off st' = tracked e p off st"
  by (simp add: tracked_def)

lemma tracked_flush_cycle:
  assumes "flush_cycle E cfg now st = (r, st')" "tracked e p off st"
  shows "tracked e p off st'"
proof -
  define st1 where "st1 = st\<lparr>st_flush_tuner := map_option (\<lambda>t. snd (flush_report (se_f64 E) now (st_events_since_last_flush st)
     (st_acked_since_last_flush st) t)) (st_flush_tuner st)\<rparr>"
  obtain w s1 where w: "sk_flush (se_sink E) (st_sink st1) = (w, s1)" by force
  have t1: "tracked e p off (st1\<lparr>st_sink := s1\<rparr>)" using assms(2) by (simp add: tracked_def st1_def)
  show ?thesis
  proof (cases w)
    case (Inl err)
    then show ?thesis using assms(1) w t1 by (auto simp: flush_cycle_def Let_def st1_def [symmetric])
  next
    case (Inr u)
    define st2 where "st2 = credit_pending_on_flush (st1\<lparr>st_sink := s1\<rparr>)"
    have "tracked e p off st2" unfolding st2_def by (rule tracked_credit [OF t1])
    then show ?thesis
      using assms(1) w Inr by (auto simp: flush_cycle_def Let_def st1_def [symmetric] st2_def [symmetric] tracked_def)
  qed
qed

lemma tracked_sink_batch:
  assumes "never_acks (se_sink E) e" "identified e p off outs" "sink_batch E cfg now outs st = (r, st')"
    and "tracked e p off st \<or> st_ledger st \<noteq> None \<and> e \<notin> set (st_pending_ids st) \<and> (\<exists>ou \<in> set outs. out_source_event_id ou = Some e)"
  shows "tracked e p off st'"
proof -
  obtain r1 st1 where d: "deliver_batch E cfg now outs st = (r1, st1)" by force
  have t1: "tracked e p off st1" by (rule tracked_deliver_batch [OF assms(1,2) d assms(4)])
  show ?thesis
  proof (cases r1)
    case (Inr u)
    define st2 where "st2 = blocking_checkpoint E cfg now
      (if is_blocking (sc_strategy cfg) \<and> st_capacity st1 \<noteq> None then eo2_gc_sweep E cfg now st1 else st1)"
    define st3 where "st3 = st2\<lparr>st_pending_count := st_pending_count st2 + of_nat (length outs)\<rparr>"
    have t2: "tracked e p off st2" "tracked e p off st3" using t1 by (simp_all add: tracked_def st2_def st3_def)
    have "st' = st2 \<or> st' = st3 \<or> (r, st') = flush_cycle E cfg now st3"
      using assms(3) d Inr by (auto simp: sink_batch_def Let_def st2_def st3_def split: if_splits)
    then show ?thesis using t2 tracked_flush_cycle [of E cfg now st3 r st'] by auto
  qed (use assms(3) d t1 in \<open>auto simp: sink_batch_def\<close>)
qed

lemma tracked_sink_idle:
  assumes "sink_idle E cfg now sw st = (r, st')" "tracked e p off st"
  shows "tracked e p off st'"
proof -
  define st1 where "st1 = blocking_checkpoint E cfg now (case sw of Some sink \<Rightarrow> st\<lparr>st_sink := sink\<rparr> | None \<Rightarrow> st)"
  have t: "tracked e p off st1" using assms(2) by (simp add: tracked_def st1_def split: option.splits)
  have "st' = st1 \<or> (r, st') = flush_cycle E cfg now st1"
    using assms(1) by (auto simp: sink_idle_def Let_def st1_def [symmetric] split: if_splits)
  then show ?thesis using t tracked_flush_cycle [of E cfg now st1 r st'] by auto
qed

text \<open>Before the event arrives: the ledger exists and the event is not among the pending ids.\<close>

definition awaits :: "uuid \<Rightarrow> ('n, 'c, 'k, 'f) sink_state \<Rightarrow> bool" where
  "awaits e st \<longleftrightarrow> st_ledger st \<noteq> None \<and> e \<notin> set (st_pending_ids st)"

lemma retry_loop_keeps_some: "retry_loop K now n outs (sink, m, Some l) = (r, sink', m', l') \<Longrightarrow> l' \<noteq> None"
  by (induction n arbitrary: outs sink m l)
    (auto simp: Let_def ack_ledger_def split: prod.splits sum.splits if_splits)

lemma handle_batch_failures_keeps_some:
  "handle_batch_failures K now orig r pol n (sink, m, Some l) = (res, sink', m', l') \<Longrightarrow> l' \<noteq> None"
  by (cases pol) (auto simp: Let_def split: if_splits dest: retry_loop_keeps_some)

lemma awaits_deliver_batch:
  assumes "never_acks (se_sink E) e" "deliver_batch E cfg now outs st = (r, st')" "awaits e st"
  shows "awaits e st'"
proof -
  obtain l where l: "st_ledger st = Some l" and np: "e \<notin> set (st_pending_ids st)" using assms(3) by (auto simp: awaits_def)
  obtain w s1 where w: "sk_write_batch (se_sink E) outs (st_sink st) = (w, s1)" by force
  have ids: "w = Inr res \<Longrightarrow> e \<notin> set (br_pending res)" for res using assms(1) w by (auto simp: never_acks_def)
  show ?thesis
    using assms(2) w l np ids
    by (auto simp: deliver_batch_def awaits_def Let_def ack_ledger_def advance_watermark_def
        split: sum.splits prod.splits if_splits option.splits
        dest: handle_batch_failures_keeps_some retry_loop_keeps_some)
qed

lemma awaits_flush_cycle: "flush_cycle E cfg now st = (r, st') \<Longrightarrow> awaits e st \<Longrightarrow> awaits e st'"
  by (auto simp: flush_cycle_def awaits_def Let_def credit_pending_on_flush_def ack_ledger_def split: prod.splits sum.splits if_splits)

lemma awaits_sink_batch:
  assumes "never_acks (se_sink E) e" "sink_batch E cfg now outs st = (r, st')" "awaits e st"
  shows "awaits e st'"
proof -
  obtain r1 st1 where d: "deliver_batch E cfg now outs st = (r1, st1)" by force
  have "awaits e st1" by (rule awaits_deliver_batch [OF assms(1) d assms(3)])
  then show ?thesis
    using assms(2) d by (auto simp: sink_batch_def Let_def awaits_def split: sum.splits if_splits
        dest!: awaits_flush_cycle [where e = e])
qed

lemma awaits_sink_idle: "sink_idle E cfg now sw st = (r, st') \<Longrightarrow> awaits e st \<Longrightarrow> awaits e st'"
  by (auto simp: sink_idle_def Let_def awaits_def split: option.splits if_splits dest!: awaits_flush_cycle [where e = e])

text \<open>A running task has the event in its ledger once a batch with it was popped.\<close>

definition pops_identified :: "uuid \<Rightarrow> partition_id \<Rightarrow> i64 \<Rightarrow> (instant \<times> 'n pop) list \<Rightarrow> bool" where
  "pops_identified e p off pops \<longleftrightarrow> (\<forall>now outs. (now, PopBatch outs) \<in> set pops \<longrightarrow> identified e p off outs)"

definition pops_event :: "uuid \<Rightarrow> (instant \<times> 'n pop) list \<Rightarrow> bool" where
  "pops_event e pops \<longleftrightarrow>
     (\<exists>now outs ou. (now, PopBatch outs) \<in> set pops \<and> ou \<in> set outs \<and> out_source_event_id ou = Some e)"

lemma tracked_sink_loop:
  assumes "never_acks (se_sink E) e"
  shows "sink_loop E cfg pops st = (None, st') \<Longrightarrow> pops_identified e p off pops \<Longrightarrow> awaits e st \<Longrightarrow>
    tracked e p off st \<or> pops_event e pops \<Longrightarrow> tracked e p off st'"
proof (induction pops arbitrary: st)
  case (Cons np pops)
  obtain now pp where np: "np = (now, pp)" by force
  have ident: "pops_identified e p off pops" using Cons.prems(2) by (simp add: pops_identified_def)
  show ?case
  proof (cases pp)
    case (PopBatch outs)
    obtain st1 where b: "sink_batch E cfg now outs st = (Inr (), st1)" and rest: "sink_loop E cfg pops st1 = (None, st')"
      using Cons.prems(1) by (auto simp: np PopBatch split: prod.splits sum.splits)
    have io: "identified e p off outs" using Cons.prems(2) by (simp add: pops_identified_def np PopBatch)
    have "tracked e p off st1 \<or> pops_event e pops"
    proof (cases "tracked e p off st \<or> (\<exists>ou \<in> set outs. out_source_event_id ou = Some e)")
      case True
      then show ?thesis using tracked_sink_batch [OF assms io b] Cons.prems(3) by (auto simp: awaits_def)
    next
      case False
      then show ?thesis using Cons.prems(4) by (auto simp: pops_event_def np PopBatch)
    qed
    then show ?thesis by (rule Cons.IH [OF rest ident awaits_sink_batch [OF assms b Cons.prems(3)]])
  next
    case (PopIdle sw)
    obtain st1 where b: "sink_idle E cfg now sw st = (Inr (), st1)" and rest: "sink_loop E cfg pops st1 = (None, st')"
      using Cons.prems(1) by (auto simp: np PopIdle split: prod.splits sum.splits)
    have "tracked e p off st1 \<or> pops_event e pops"
      using Cons.prems(4) tracked_sink_idle [OF b] by (auto simp: pops_event_def np PopIdle)
    then show ?thesis by (rule Cons.IH [OF rest ident awaits_sink_idle [OF b Cons.prems(3)]])
  qed (use Cons.prems(1) in \<open>simp add: np split: prod.splits\<close>)
qed (simp add: pops_event_def)

section \<open>Recovery after a checkpoint\<close>

lemma plan_offsets:
  "rp_pull_seek_offsets (plan_from_last (Some (r\<lparr>ck_id := i\<rparr>))) = partition_offsets r"
  by (simp add: plan_from_last_def partition_offsets_def)

lemma checkpoint_of_offsets:
  "st_ledger st = Some l \<Longrightarrow> partition_offsets (checkpoint_of E now st) = checkpoint_offsets l"
  by (auto simp: checkpoint_of_def Let_def partition_offsets_def checkpoint_new_def with_per_sink_ack_seq_def comp_def
      split_beta split: option.splits)

lemma write_checkpoint_writer:
  "st_writer st = Some w \<Longrightarrow> cp_append (se_ckpt E) (checkpoint_of E now st) w = (res, r', w') \<Longrightarrow>
     st_writer (write_checkpoint E now st) = Some w'"
  by (simp add: write_checkpoint_def Let_def)

context checkpoint_persist
begin

lemma plan_after_checkpoint:
  assumes "se_ckpt E = P" "st_writer st = Some w" "inv w"
    and "cp_append P (checkpoint_of E now st) w = (Inr (), r', w')" "admits r'" "cp_read_last P w' = Inr x"
  shows "load_recovery_plan P (st_writer (write_checkpoint E now st)) =
    Some (plan_from_last (Some ((checkpoint_of E now st)\<lparr>ck_id := cp_next_id P w\<rparr>)))"
  using write_checkpoint_writer [OF assms(2), of E now] assms(1,4,6) read_after_append [OF assms(3-6)]
  by (simp add: load_recovery_plan_def)

end

text \<open>
  C3: an event the sink never acknowledges is replayed after a crash.  Take a running sink task with a
  ledger, over any checkpoint store that keeps the persistence contract, and an event it popped whose
  outputs all carry the partition and offset of their source.  If the sink reported the event neither
  delivered nor pending, whatever else happened (retries, flushes, idle ticks, a swapped sink), then the
  next checkpoint that is written makes a restarted pull source seek its partition to the event's offset
  or below.
\<close>

theorem unacked_event_replayed:
  assumes "checkpoint_persist (se_ckpt E) ok latest admits"
    and "run_sink_task E cfg t0 sink metrics (Some l0) writer tracker registry capacity pops = Some (None, st)"
    and "never_acks (se_sink E) e" "pops_event e pops" "pops_identified e p off pops"
    and "st_writer st = Some w" "ok w"
    and "cp_append (se_ckpt E) (checkpoint_of E now st) w = (Inr (), r', w')" "admits r'"
    and "cp_read_last (se_ckpt E) w' = Inr x"
  shows "\<exists>plan offs m. load_recovery_plan (se_ckpt E) (st_writer (write_checkpoint E now st)) = Some plan \<and>
    action_for plan Pull = SeekPartitions offs \<and> map_of offs p = Some m \<and> sint m \<le> sint off"
proof -
  obtain st0 where start: "sink_start E cfg t0 sink metrics (Some l0) writer tracker registry capacity = Some st0"
    and loop: "sink_loop E cfg pops st0 = (None, st)"
    using assms(2) by (auto simp: run_sink_task_def)
  have "awaits e st0" using start by (auto simp: sink_start_def awaits_def)
  then have "tracked e p off st" using tracked_sink_loop [OF assms(3) loop assms(5)] assms(4) by blast
  then obtain l where l: "st_ledger st = Some l" "holds_event e p off l" by (auto simp: tracked_def split: option.splits)
  obtain m where "map_of (checkpoint_offsets l) p = Some m" "sint m \<le> sint off"
    using holds_event_offset [OF l(2)] by blast
  then show ?thesis
    using checkpoint_persist.plan_after_checkpoint [OF assms(1) refl assms(6-10)]
    by (simp add: plan_offsets checkpoint_of_offsets [OF l(1)])
qed

definition sample_sink :: "unit sink_ops" where
  "sample_sink =
     \<lparr>sk_write_batch = (\<lambda>outs n. let ids = filter_map out_source_event_id outs
        in (Inr \<lparr>br_delivered = filter (\<lambda>i. i \<noteq> 7) ids, br_pending = [],
                  br_failed = map (\<lambda>i. (i, Timeout ''sink'')) (filter (\<lambda>i. i = 7) ids)\<rparr>, n)),
      sk_flush = (\<lambda>n. (Inr (), n))\<rparr>"

definition sample_f64 :: "nat f64_ops" where
  "sample_f64 = \<lparr>f_zero = 0, f_one = 1, f_101 = 1, f_099 = 1, f_of_u64 = unat, f_as_secs = (\<lambda>n. n), f_div = (div), f_mul = (*),
     f_lt = (<), f_eq = (=)\<rparr>"

definition sample_env :: "(unit, wal_store, nat) sink_env" where
  "sample_env = \<lparr>se_sink = sample_sink, se_ckpt = wal_ops sum_crc byte_ckpt_codec, se_f64 = sample_f64, se_serde = byte_serde,
     se_crc = sum_crc, se_wall = (\<lambda>_. 5)\<rparr>"

definition sample_cfg :: sink_cfg where
  "sample_cfg = \<lparr>sc_strategy = OrderedBatchStrategy, sc_flush_interval = 100, sc_max_pending = 10, sc_adaptive_flush = False,
     sc_adaptive_min_divisor = 10, sc_adaptive_max_multiplier = 5, sc_failure_policy = SkipToDlq, sc_max_retries = 3,
     sc_sink_name = ''sink'', sc_pipeline_name = ''pipe''\<rparr>"

definition sample_out :: "uuid \<Rightarrow> i64 \<Rightarrow> u64 \<Rightarrow> aeon_output" where
  "sample_out i off seq = (output_new ''d'' [1])\<lparr>out_source_event_id := Some i, out_source_partition := Some (PartitionId 3),
     out_source_offset := Some off, out_l2_seq := Some seq\<rparr>"

lemma sample_never_acks: "never_acks sample_sink 7"
  by (auto simp: never_acks_def sample_sink_def Let_def)

lemmas sink_eval = sample_env_def sample_cfg_def sample_sink_def sample_out_def output_new_def sink_batch_def deliver_batch_def
  Let_def filter_map_def track_outputs_def identity_of_def advance_watermark_def has_failures_def blocking_checkpoint_def
  ack_ledger_def mark_each_failed_def mark_acked_def mark_failed_def track_def ledger_new_def add_sent_def add_failed_def

theorem unacked_event_replayed_witness:
  "\<exists>w st plan m. writer_new sum_crc byte_ckpt_codec None True (Inr ()) [] = Inr w \<and>
     run_sink_task sample_env sample_cfg 0 () metrics_new (Some (ledger_new 3)) (Some w) None (None :: unit l2_registry option) None
       [(1, PopBatch [sample_out 7 40 0, sample_out 8 41 1])] = Some (None, st) \<and>
     load_recovery_plan (se_ckpt sample_env) (st_writer (write_checkpoint sample_env 2 st)) = Some plan \<and>
     map_of (rp_pull_seek_offsets plan) (PartitionId 3) = Some m \<and> sint m \<le> 40"
proof -
  define w where "w = \<lparr>ws_file = wal_header, ws_next = 0, ws_io = [], ws_readable = True\<rparr>"
  have w: "writer_new sum_crc byte_ckpt_codec None True (Inr ()) [] = Inr w" "wal_holds sum_crc byte_ckpt_codec (ws_file w) []"
    by (simp_all add: writer_new_def w_def wal_holds_new)
  obtain st where st: "run_sink_task sample_env sample_cfg 0 () metrics_new (Some (ledger_new 3)) (Some w) None
      (None :: unit l2_registry option) None [(1, PopBatch [sample_out 7 40 0, sample_out 8 41 1])] = Some (None, st)"
    and st2: "st_writer st = Some w" "checkpoint_of sample_env 2 st = checkpoint_new 5 0 [(PartitionId 3, 40)] [] 1 1"
    by (simp add: run_sink_task_def sink_start_def start_tuner_def sink_eval checkpoint_of_def checkpoint_offsets_def pending_ids_def)
  let ?r = "checkpoint_new 5 0 [(PartitionId 3, 40)] [] 1 1"
  have fit: "record_fits byte_ckpt_codec ?r"
    by (simp add: record_fits_def byte_ckpt_codec_def fits_u32_def enc_checkpoint_def checkpoint_new_def codec_eval)
  obtain w' where app: "wal_append sum_crc byte_ckpt_codec ?r w = (Inr (), ?r, w')" "ws_readable w'"
    by (simp add: wal_append_def next_io_def byte_ckpt_codec_def Let_def w_def checkpoint_new_def)
  have "wal_holds sum_crc byte_ckpt_codec (ws_file w') [?r]"
    using wal_append_holds [OF byte_ckpt_codec_roundtrips w(2) app(1) fit] by simp
  then have read: "cp_read_last (se_ckpt sample_env) w' = Inr (Some ?r)"
    by (simp add: sample_env_def wal_ops_def reader_read_last_def wal_contents_def app(2) wal_holds_read last_opt_def)
  have per: "checkpoint_persist (se_ckpt sample_env) (wal_clean sum_crc byte_ckpt_codec) (wal_latest sum_crc byte_ckpt_codec)
      (record_fits byte_ckpt_codec)"
    by (simp add: sample_env_def wal_persist byte_ckpt_codec_roundtrips)
  have never: "never_acks (se_sink sample_env) 7" by (simp add: sample_env_def sample_never_acks)
  have clean: "wal_clean sum_crc byte_ckpt_codec w" using w(2) by (auto simp: wal_clean_def)
  have written: "cp_append (se_ckpt sample_env) (checkpoint_of sample_env 2 st) w = (Inr (), ?r, w')"
    using app(1) unfolding st2(2) by (simp add: sample_env_def wal_ops_def)
  let ?outs = "[sample_out 7 40 0, sample_out 8 41 1]"
  have "sample_out 7 40 0 \<in> set ?outs \<and> out_source_event_id (sample_out 7 40 0) = Some 7" by (simp add: sample_out_def)
  then have pops: "pops_event 7 [(1, PopBatch ?outs)]" unfolding pops_event_def by (meson list.set_intros(1))
  have ident: "pops_identified 7 (PartitionId 3) 40 [(1, PopBatch ?outs)]"
    by (simp add: pops_identified_def identified_def identity_of_def sample_out_def)
  from unacked_event_replayed [OF per st never pops ident st2(1) clean written fit read]
  obtain plan offs m where "load_recovery_plan (se_ckpt sample_env) (st_writer (write_checkpoint sample_env 2 st)) = Some plan"
    "action_for plan Pull = SeekPartitions offs" "map_of offs (PartitionId 3) = Some m" "sint m \<le> sint (40 :: i64)" by blast
  then have "load_recovery_plan (se_ckpt sample_env) (st_writer (write_checkpoint sample_env 2 st)) = Some plan \<and>
     map_of (rp_pull_seek_offsets plan) (PartitionId 3) = Some m \<and> sint m \<le> 40" by simp
  then show ?thesis using w(1) st by blast
qed

section \<open>The acknowledged watermark\<close>

text \<open>One store swept with a watermark above its first segment.\<close>

lemma gc_two_segments:
  assumes "bs_segments store = [sg1, sg2]" "sg_max_seq sg1 = Some m" "m < w" "bs_gc_min_hold store = 0" "bs_io store = []"
  shows "gc_up_to_at w now store = (Inr 1, gc_drop (sg_start_seq sg1) store)"
  using assms by (simp add: gc_up_to_at_def gc_loop.simps take_io_def gc_drop_def Let_def)

lemma sweep_single:
  assumes "rg_stores reg = [((pipe, part), store)]" "gc_up_to_at w now store = (r, store')"
  shows "fst (fold (sweep_store E w now pipe) (registry_keys reg) (reg, cap)) = reg\<lparr>rg_stores := [((pipe, part), store')]\<rparr>"
proof -
  have keys: "registry_keys reg = [(pipe, part)]" using assms(1) by (simp add: registry_keys_def)
  have op: "registry_open (se_serde E) (se_crc E) pipe part reg = (Inr (), reg)" using assms(1) by (simp add: registry_open_def)
  show ?thesis by (simp add: keys sweep_store_def op assms Let_def)
qed

lemma min_across_single: "min_across_sinks [(n, w)] = Some w"
  by (simp add: min_across_sinks_def min_opt_def)

lemma eo2_gc_sweep_single:
  assumes "st_registry st = Some reg" "rg_stores reg = [((sc_pipeline_name cfg, part), store)]"
    and "st_tracker st = Some [(n, w)]" "w \<noteq> 0" "gc_up_to_at w now store = (r, store')"
  shows "st_registry (eo2_gc_sweep E cfg now st) = Some (reg\<lparr>rg_stores := [((sc_pipeline_name cfg, part), store')]\<rparr>) \<and>
    st_tracker (eo2_gc_sweep E cfg now st) = Some [(n, w)]"
proof -
  obtain reg' cap' where f: "fold (sweep_store E w now (sc_pipeline_name cfg)) (registry_keys reg) (reg, st_capacity st) = (reg', cap')"
    by force
  then have "reg' = reg\<lparr>rg_stores := [((sc_pipeline_name cfg, part), store')]\<rparr>"
    using sweep_single [OF assms(2,5), of E "st_capacity st"] by simp
  then show ?thesis using assms(1,3,4) f by (simp add: eo2_gc_sweep_def min_across_single)
qed

definition undelivered :: "uuid \<Rightarrow> delivery_ledger \<Rightarrow> bool" where
  "undelivered i l \<longleftrightarrow> i \<in> set (map fe_event_id (failed_entries l))"

lemma mark_failed_undelivered:
  assumes "map_of (dl_entries l) i = Some e" "le_event_id e = i"
  shows "undelivered i (snd (mark_failed now i reason l))"
proof -
  let ?e = "e\<lparr>le_state := Failed (tracked_at (le_state e)) now reason (next_attempts (le_state e))\<rparr>"
  have "map_of (dl_entries (snd (mark_failed now i reason l))) i = Some ?e"
    using assms(1) by (simp add: mark_failed_def Let_def update_conv')
  then have "(i, ?e) \<in> set (dl_entries (snd (mark_failed now i reason l)))" by (rule map_of_SomeD)
  moreover have "i \<in> fe_event_id ` set (failed_of ?e)" using assms(2) by (simp add: failed_of_def)
  ultimately show ?thesis unfolding undelivered_def failed_entries_def by force
qed

text \<open>A batch of two events of which the sink delivers only the second, under \<open>SkipToDlq\<close>.\<close>

lemma deliver_second_only:
  assumes "sc_failure_policy cfg = SkipToDlq" "st_ledger st = Some l"
    and "st_tracker st = Some [(sc_sink_name cfg, 0)]" "st_max_acked_seq st = 0"
    and "out_source_event_id oa = Some a" "out_source_event_id ob = Some b" "a \<noteq> b" "out_l2_seq ob = Some sb" "0 < sb"
    and "sk_write_batch (se_sink E) [oa, ob] (st_sink st) =
           (Inr \<lparr>br_delivered = [b], br_pending = [], br_failed = [(a, err)]\<rparr>, n')"
  shows "\<exists>st' l'. deliver_batch E cfg now [oa, ob] st = (Inr (), st') \<and> st_ledger st' = Some l' \<and> undelivered a l' \<and>
    st_tracker st' = Some [(sc_sink_name cfg, sb)] \<and> st_registry st' = st_registry st \<and>
    st_capacity st' = st_capacity st \<and> st_last_flush st' = st_last_flush st"
proof -
  define l1 where "l1 = snd (mark_acked b (track_outputs now [oa, ob] l))"
  have "\<exists>e. map_of (dl_entries l1) a = Some e \<and> le_event_id e = a"
    using assms(5-7) by (simp add: l1_def track_outputs_def track_def mark_acked_def update_conv' delete_conv')
  then have "undelivered a (snd (mark_failed now a (display_error err) l1))" using mark_failed_undelivered by blast
  moreover have "batch_max (l2_seqs [oa, ob]) [b] = sb"
    using assms(5-9) by (simp add: batch_max_def l2_seqs_def update_conv' split: option.splits)
  ultimately show ?thesis
    using assms by (simp add: deliver_batch_def Let_def has_failures_def advance_watermark_def ack_ledger_def
        mark_each_failed_def record_ack_def hm_upsert_def l1_def split_beta)
qed

lemma gc_drop_reads:
  assumes "l2_inv S crc store [log1, log2]" "bs_segments store = [sg1, sg2]" "x \<in> set log1"
  shows "\<exists>recs. iter_from S crc 0 (gc_drop (sg_start_seq sg1) store) = Inr recs \<and> fst x \<notin> set (map fst recs)"
proof -
  have "l2_inv S crc (gc_drop (sg_start_seq sg1) store) [log2]"
    using l2_inv_drop_first [OF assms(1,2)] assms(2) by (simp add: gc_drop_def)
  then have "iter_from S crc 0 (gc_drop (sg_start_seq sg1) store) = Inr log2"
    using l2_inv_iter [of S crc _ "[log2]" 0] by simp
  moreover have "sorted_wrt (<) (map fst (log1 @ log2))" using assms(1) by (simp add: l2_inv_def)
  then have "fst x \<notin> set (map fst log2)" using assms(3) by (fastforce simp: sorted_wrt_append)
  ultimately show ?thesis by blast
qed

text \<open>
  C33: the acknowledged watermark is the maximum delivered sequence number, not the contiguous one, and
  is shared by all partitions.  A sink fails one event of a batch and delivers a later one, of the same
  or of another partition.  In the same iteration the sweep removes the segment with the body of the
  failed event, although the ledger still lists the event as failed, and a checkpoint taken now makes a
  push source replay from the delivered sequence number on, past the failed event: it is lost.
\<close>

theorem watermark_drops_undelivered:
  assumes "is_blocking (sc_strategy cfg)" "sc_failure_policy cfg = SkipToDlq" "now - st_last_flush st < sc_flush_interval cfg"
    and "st_ledger st = Some l" "st_tracker st = Some [(sc_sink_name cfg, 0)]" "st_max_acked_seq st = 0" "st_capacity st \<noteq> None"
    and "out_source_event_id oa = Some a" "out_source_event_id ob = Some b" "a \<noteq> b"
    and "out_l2_seq oa = Some sa" "out_l2_seq ob = Some sb" "last_seq log1 = Some m" "m < sb"
    and "sk_write_batch (se_sink E) [oa, ob] (st_sink st) =
           (Inr \<lparr>br_delivered = [b], br_pending = [], br_failed = [(a, err)]\<rparr>, n')"
    and "st_registry st = Some reg" "rg_stores reg = [((sc_pipeline_name cfg, part), store)]"
    and "l2_inv S crc store [log1, log2]" "(sa, ev) \<in> set log1" "bs_gc_min_hold store = 0" "bs_io store = []"
  shows "\<exists>st' l' reg' store' recs. sink_batch E cfg now [oa, ob] st = (Inr (), st') \<and>
    st_ledger st' = Some l' \<and> undelivered a l' \<and>
    st_registry st' = Some reg' \<and> map_of (rg_stores reg') (sc_pipeline_name cfg, part) = Some store' \<and>
    iter_from S crc 0 store' = Inr recs \<and> sa \<notin> set (map fst recs) \<and>
    sa < rp_l2_replay_start_seq (plan_from_last (Some (checkpoint_of E now st')))"
proof -
  obtain sg1 sg2 where segs: "bs_segments store = [sg1, sg2]" "sg_max_seq sg1 = Some m"
    using assms(13,18) by (auto simp: l2_inv_def seg_ok_def list_all2_Cons2)
  have "0 < sb" using assms(14) by (simp add: word_less_nat_alt)
  then obtain st1 l1 where d: "deliver_batch E cfg now [oa, ob] st = (Inr (), st1)" and l1: "st_ledger st1 = Some l1" "undelivered a l1"
    and t1: "st_tracker st1 = Some [(sc_sink_name cfg, sb)]" "st_registry st1 = st_registry st" "st_capacity st1 = st_capacity st"
      "st_last_flush st1 = st_last_flush st"
    using deliver_second_only [OF assms(2,4-6,8-10,12) _ assms(15)] by blast
  define st2 where "st2 = eo2_gc_sweep E cfg now st1"
  let ?store = "gc_drop (sg_start_seq sg1) store"
  have swept: "st_registry st2 = Some (reg\<lparr>rg_stores := [((sc_pipeline_name cfg, part), ?store)]\<rparr>)"
    "st_tracker st2 = Some [(sc_sink_name cfg, sb)]"
    using eo2_gc_sweep_single [OF _ assms(17) t1(1) _ gc_two_segments [OF segs assms(14,20,21)], of E now] t1(2) assms(16) \<open>0 < sb\<close>
    by (simp_all add: st2_def)
  have "st_last_flush st2 = st_last_flush st"
    using t1(4) by (simp add: st2_def eo2_gc_sweep_def split: option.splits prod.splits)
  then have "sink_batch E cfg now [oa, ob] st = (Inr (), st2)"
    using d assms(1,3,7) t1(3) by (simp add: sink_batch_def Let_def st2_def [symmetric] blocking_checkpoint_def)
  moreover have "st_ledger st2 = Some l1" using l1(1) by (simp add: st2_def)
  moreover obtain recs where "iter_from S crc 0 ?store = Inr recs" "sa \<notin> set (map fst recs)"
    using gc_drop_reads [OF assms(18) segs(1) assms(19)] by auto
  moreover have "sorted_wrt (<) (map fst log1)" using assms(18) by (simp add: l2_inv_def sorted_wrt_append)
  then have "sa \<le> m" using sorted_last_seq [OF _ assms(13,19)] by simp
  then have "sa < rp_l2_replay_start_seq (plan_from_last (Some (checkpoint_of E now st2)))"
    using assms(14) swept(2) by (simp add: checkpoint_of_def Let_def with_per_sink_ack_seq_def plan_from_last_def min_opt_def split_beta)
  ultimately show ?thesis using l1(2) swept(1) by (intro exI [of _ st2] exI [of _ l1]) auto
qed

lemma sample_two_segments:
  "\<exists>store sg1 sg2. l2_append_all byte_serde sum_crc [sample_event, sample_event] sample_l2 = (Inr [0, 1], store) \<and>
     bs_segments store = [sg1, sg2] \<and> sg_max_seq sg1 = Some 0 \<and> sg_max_seq sg2 = Some 1 \<and> bs_gc_min_hold store = 0 \<and> bs_io store = []"
proof -
  obtain p where p: "seal_event byte_serde None sample_event = Inr p" "1 \<le> (28 + of_nat (length p) :: u64)"
    using sample_seal by blast
  show ?thesis
    by (simp add: sample_l2_def l2_append_def roll_segment_def need_new_segment_def segment_create_def take_io_def
        segment_append_def p effective_segment_bytes_def)
qed

lemma sample_two_logs:
  "\<exists>store log1 log2. l2_inv byte_serde sum_crc store [log1, log2] \<and> (0, strip_event sample_event) \<in> set log1 \<and>
     last_seq log1 = Some 0 \<and> bs_gc_min_hold store = 0 \<and> bs_io store = [] \<and> bs_kek store = (None :: unit kek option)"
proof -
  obtain store sg1 sg2 where run: "l2_append_all byte_serde sum_crc [sample_event, sample_event] sample_l2 = (Inr [0, 1], store)"
    and segs: "bs_segments store = [sg1, sg2]" "sg_max_seq sg1 = Some 0" "sg_max_seq sg2 = Some 1"
    and io: "bs_gc_min_hold store = 0" "bs_io store = []"
    using sample_two_segments by blast
  have "l2_inv byte_serde sum_crc sample_l2 []" "kek_ok (bs_kek sample_l2)" "bs_next_seq sample_l2 = of_nat 0"
    by (simp_all add: sample_l2_def l2_inv_def kek_ok_def)
  from l2_append_all_inv [OF byte_serde_roundtrips run this] obtain logs where logs: "l2_inv byte_serde sum_crc store logs"
    "concat logs = [(0, strip_event sample_event), (1, strip_event sample_event)]" "bs_kek store = None"
    by (auto simp: sample_l2_def)
  then obtain log1 log2 where l: "logs = [log1, log2]" "last_seq log1 = Some 0" "last_seq log2 = Some 1"
    using segs by (auto simp: l2_inv_def list_all2_Cons1 seg_ok_def)
  then have "log1 = [(0, strip_event sample_event)]"
    using logs(2) by (auto simp: last_seq_def append_eq_Cons_conv split: if_splits)
  then have "(0, strip_event sample_event) \<in> set log1" by simp
  with logs(1,3) l(1,2) io show ?thesis by metis
qed

theorem watermark_drops_undelivered_witness:
  "\<exists>st l' reg' store' recs st'. sink_start sample_env sample_cfg 0 () metrics_new (Some (ledger_new 3)) None (Some [])
        (st_registry st :: unit l2_registry option) (Some (capacity_new unlimited (node_new None))) = Some st \<and>
     sink_batch sample_env sample_cfg 1 [sample_out 7 40 0, sample_out 8 41 1] st = (Inr (), st') \<and>
     st_ledger st' = Some l' \<and> undelivered 7 l' \<and> st_registry st' = Some reg' \<and>
     map_of (rg_stores reg') (''pipe'', PartitionId 3) = Some store' \<and>
     iter_from byte_serde sum_crc 0 store' = Inr recs \<and> 0 \<notin> set (map fst recs) \<and>
     0 < rp_l2_replay_start_seq (plan_from_last (Some (checkpoint_of sample_env 1 st')))"
proof -
  obtain store log1 log2 where inv: "l2_inv byte_serde sum_crc store [log1, log2]" "(0, strip_event sample_event) \<in> set log1"
    and ls: "last_seq log1 = Some 0" and io: "bs_gc_min_hold store = 0" "bs_io store = []" "bs_kek store = (None :: unit kek option)"
    using sample_two_logs by blast
  define reg where "reg = (registry_new None ''tmp'' 1 [] :: unit l2_registry)\<lparr>rg_stores := [((''pipe'', PartitionId 3), store)]\<rparr>"
  obtain st where st: "sink_start sample_env sample_cfg 0 () metrics_new (Some (ledger_new 3)) None (Some []) (Some reg)
        (Some (capacity_new unlimited (node_new None))) = Some st"
    and f: "st_ledger st = Some (ledger_new 3)" "st_tracker st = Some [(sc_sink_name sample_cfg, 0)]" "st_max_acked_seq st = 0"
      "st_capacity st \<noteq> None" "st_registry st = Some reg" "1 - st_last_flush st < sc_flush_interval sample_cfg" "st_sink st = ()"
    by (simp add: sink_start_def start_tuner_def sample_cfg_def register_sink_def hm_upsert_def)
  have cfg: "is_blocking (sc_strategy sample_cfg)" "sc_failure_policy sample_cfg = SkipToDlq" by (simp_all add: sample_cfg_def)
  have outs: "out_source_event_id (sample_out 7 40 0) = Some 7" "out_source_event_id (sample_out 8 41 1) = Some 8" "(7 :: uuid) \<noteq> 8"
    "out_l2_seq (sample_out 7 40 0) = Some 0" "out_l2_seq (sample_out 8 41 1) = Some 1" by (simp_all add: sample_out_def)
  have wr: "sk_write_batch (se_sink sample_env) [sample_out 7 40 0, sample_out 8 41 1] (st_sink st) =
      (Inr \<lparr>br_delivered = [8], br_pending = [], br_failed = [(7, Timeout ''sink'')]\<rparr>, ())"
    by (simp add: sample_env_def sample_sink_def sample_out_def Let_def filter_map_def)
  have reg: "rg_stores reg = [((sc_pipeline_name sample_cfg, PartitionId 3), store)]" by (simp add: reg_def sample_cfg_def)
  have pipe: "sc_pipeline_name sample_cfg = ''pipe''" by (simp add: sample_cfg_def)
  have lt: "(0 :: u64) < 1" by simp
  from watermark_drops_undelivered [OF cfg f(6,1-4) outs ls lt wr f(5) reg inv io(1,2)]
  show ?thesis using st f(5) unfolding pipe by metis
qed

end
