(* ===== verification/L2_Transfer.thy ===== *)
theory L2_Transfer
  imports L2_Body
begin

text \<open>
  Streaming the L2 segments of a partition to another node: \<open>aeon-types/src/l2_transfer.rs\<close>,
  \<open>aeon-engine/src/l2_transfer.rs\<close>, the provider of \<open>aeon-engine/src/engine_providers.rs\<close> and the
  segment installer of \<open>aeon-engine/src/partition_install.rs\<close>.

  A partition directory is the map from start sequence to the bytes of the \<open>.l2b\<close> file, as in the body
  store.  Reads and directory operations succeed; the outcome of a chunk write is an argument.
\<close>

section \<open>Manifest and reader\<close>

record segment_entry =
  en_start_seq :: u64
  en_size_bytes :: u64
  en_crc32 :: u32

type_synonym segment_manifest = "segment_entry list"

definition total_bytes :: "segment_manifest \<Rightarrow> u64" where
  "total_bytes m = sum_list (map en_size_bytes m)"

record segment_chunk =
  ck_start_seq :: u64
  ck_offset :: u64
  ck_data :: bytes
  ck_is_last :: bool

definition default_chunk_bytes :: nat where
  "default_chunk_bytes = 1024 * 1024"

definition entry_of :: "(bytes \<Rightarrow> u32) \<Rightarrow> u64 \<times> bytes \<Rightarrow> segment_entry" where
  "entry_of crc f = \<lparr>en_start_seq = fst f, en_size_bytes = of_nat (length (snd f)), en_crc32 = crc (snd f)\<rparr>"

definition read_manifest :: "(bytes \<Rightarrow> u32) \<Rightarrow> (u64, bytes) hash_map \<Rightarrow> segment_manifest" where
  "read_manifest crc files = map (entry_of crc) (sort_key fst files)"

record segment_reader =
  rd_start_seq :: u64
  rd_file :: bytes
  rd_file_len :: u64
  rd_offset :: u64
  rd_chunk_bytes :: nat

definition reader_open :: "(u64, bytes) hash_map \<Rightarrow> u64 \<Rightarrow> nat \<Rightarrow> segment_reader res" where
  "reader_open files start chunk_bytes =
     (case hm_get files start of
        None \<Rightarrow> Inl (State ''l2-transfer: open'')
      | Some data \<Rightarrow> Inr \<lparr>rd_start_seq = start, rd_file = data, rd_file_len = of_nat (length data), rd_offset = 0,
                         rd_chunk_bytes = max chunk_bytes 1\<rparr>)"

definition next_chunk :: "segment_reader \<Rightarrow> segment_chunk option \<times> segment_reader" where
  "next_chunk rd =
     (if rd_offset rd \<ge> rd_file_len rd then (None, rd)
      else let remaining = unat (rd_file_len rd - rd_offset rd); n = min (rd_chunk_bytes rd) remaining;
               pos = unat (rd_offset rd)
           in (Some \<lparr>ck_start_seq = rd_start_seq rd, ck_offset = rd_offset rd, ck_data = subslice (rd_file rd) pos (pos + n),
                     ck_is_last = (rd_offset rd + of_nat n \<ge> rd_file_len rd)\<rparr>,
               rd\<lparr>rd_offset := rd_offset rd + of_nat n\<rparr>))"

text \<open>
  The chunks of one segment until the reader is exhausted, and of all segments of a manifest in order, with
  the success flag of the end frame: a segment that cannot be opened ends the stream.
\<close>

partial_function (option) reader_chunks :: "segment_reader \<Rightarrow> segment_chunk list option" where
  "reader_chunks rd =
     (case next_chunk rd of
        (None, _) \<Rightarrow> Some []
      | (Some c, rd) \<Rightarrow> Option.bind (reader_chunks rd) (\<lambda>cs. Some (c # cs)))"

fun serve_chunks :: "(u64, bytes) hash_map \<Rightarrow> nat \<Rightarrow> segment_entry list \<Rightarrow> (segment_chunk list \<times> bool) option" where
  "serve_chunks files n [] = Some ([], True)"
| "serve_chunks files n (e # es) =
     (case reader_open files (en_start_seq e) n of
        Inl err \<Rightarrow> Some ([], False)
      | Inr rd \<Rightarrow>
          Option.bind (reader_chunks rd) (\<lambda>cs.
          Option.bind (serve_chunks files n es) (\<lambda>(rest, ok). Some (cs @ rest, ok))))"

section \<open>Writer\<close>

record open_segment =
  os_expected_bytes :: u64
  os_bytes_received :: u64

record segment_writer =
  sw_manifest :: segment_manifest
  sw_open_segments :: "(u64, open_segment) hash_map"
  sw_finalized :: "(u64, u32) hash_map"

definition writer_open :: "segment_manifest \<Rightarrow> segment_writer" where
  "writer_open m = \<lparr>sw_manifest = m, sw_open_segments = [], sw_finalized = []\<rparr>"

definition find_entry :: "segment_manifest \<Rightarrow> u64 \<Rightarrow> segment_entry option" where
  "find_entry m start = List.find (\<lambda>e. en_start_seq e = start) m"

text \<open>A write at an offset; a gap before it is filled with zeros.\<close>

definition write_at :: "nat \<Rightarrow> bytes \<Rightarrow> bytes \<Rightarrow> bytes" where
  "write_at pos data f = take pos (f @ replicate (pos - length f) 0) @ data @ drop (pos + length data) f"

definition open_or_create :: "segment_entry \<Rightarrow> u64 \<Rightarrow> segment_writer \<times> (u64, bytes) hash_map
    \<Rightarrow> open_segment \<times> segment_writer \<times> (u64, bytes) hash_map" where
  "open_or_create entry start wd =
     (let (w, files) = wd
      in case hm_get (sw_open_segments w) start of
           Some seg \<Rightarrow> (seg, w, files)
         | None \<Rightarrow>
             let seg = \<lparr>os_expected_bytes = en_size_bytes entry, os_bytes_received = 0\<rparr>
             in (seg, w\<lparr>sw_open_segments := hm_insert start seg (sw_open_segments w)\<rparr>, hm_insert start [] files))"

definition finalize_chunk :: "(bytes \<Rightarrow> u32) \<Rightarrow> segment_entry \<Rightarrow> segment_chunk \<Rightarrow> open_segment \<Rightarrow> segment_writer \<times> (u64, bytes) hash_map
    \<Rightarrow> unit res \<times> segment_writer \<times> (u64, bytes) hash_map" where
  "finalize_chunk crc entry ck seg wd =
     (let (w, files) = wd; start = ck_start_seq ck
      in if os_bytes_received seg \<noteq> os_expected_bytes seg
         then (Inl (State ''l2-transfer: is_last but received fewer bytes''), w, files)
         else let actual_crc = crc (case hm_get files start of Some d \<Rightarrow> d | None \<Rightarrow> [])
              in if actual_crc \<noteq> en_crc32 entry then (Inl (State ''l2-transfer: CRC mismatch''), w, files)
                 else (Inr (), w\<lparr>sw_finalized := hm_insert start actual_crc (sw_finalized w),
                                 sw_open_segments := hm_remove start (sw_open_segments w)\<rparr>, files))"

definition apply_chunk :: "(bytes \<Rightarrow> u32) \<Rightarrow> l2_io \<Rightarrow> segment_chunk \<Rightarrow> segment_writer \<times> (u64, bytes) hash_map
    \<Rightarrow> unit res \<times> segment_writer \<times> (u64, bytes) hash_map" where
  "apply_chunk crc io ck wd =
     (let start = ck_start_seq ck; size = of_nat (length (ck_data ck))
      in case find_entry (sw_manifest (fst wd)) start of
           None \<Rightarrow> (Inl (State ''l2-transfer: chunk for unknown segment''), wd)
         | Some entry \<Rightarrow>
             if hm_get (sw_finalized (fst wd)) start \<noteq> None then (Inl (State ''l2-transfer: chunk after finalize''), wd)
             else
               let (seg, w, files) = open_or_create entry start wd;
                   old = (case hm_get files start of Some d \<Rightarrow> d | None \<Rightarrow> [])
               in if ck_offset ck + size > os_expected_bytes seg
                  then (Inl (State ''l2-transfer: chunk overflows segment''), w, files)
                  else case io of
                         IoFail n \<Rightarrow>
                           (Inl (State ''l2-transfer: write''), w,
                            hm_insert start (write_at (unat (ck_offset ck)) (take n (ck_data ck)) old) files)
                       | IoOk \<Rightarrow>
                           let files = hm_insert start (write_at (unat (ck_offset ck)) (ck_data ck) old) files;
                               seg = seg\<lparr>os_bytes_received := max (os_bytes_received seg) (ck_offset ck + size)\<rparr>;
                               w = w\<lparr>sw_open_segments := hm_insert start seg (sw_open_segments w)\<rparr>
                           in if ck_is_last ck then finalize_chunk crc entry ck seg (w, files)
                              else (Inr (), w, files))"

definition writer_finish :: "segment_writer \<Rightarrow> unit res" where
  "writer_finish w =
     (if list_all (\<lambda>e. hm_get (sw_finalized w) (en_start_seq e) \<noteq> None) (sw_manifest w)
      then Inr () else Inl (State ''l2-transfer: missing segment at finish''))"

definition finalized_count :: "segment_writer \<Rightarrow> nat" where
  "finalized_count w = length (sw_finalized w)"

definition bytes_received :: "segment_writer \<Rightarrow> u64" where
  "bytes_received w =
     sum_list (map en_size_bytes (List.map_filter (\<lambda>k. find_entry (sw_manifest w) k) (map fst (sw_finalized w))))"

section \<open>The installer\<close>

text \<open>
  Writers in flight, by pipeline and partition, and the partition directories under the root and pipeline
  of the installer.
\<close>

record l2_installer =
  li_writers :: "(string \<times> u16, segment_writer) hash_map"
  li_dirs :: "(u16, (u64, bytes) hash_map) hash_map"

definition dir_of :: "l2_installer \<Rightarrow> partition_id \<Rightarrow> (u64, bytes) hash_map" where
  "dir_of li p = (case hm_get (li_dirs li) (as_u16 p) of Some d \<Rightarrow> d | None \<Rightarrow> [])"

definition installer_begin :: "string \<Rightarrow> partition_id \<Rightarrow> segment_manifest \<Rightarrow> l2_installer \<Rightarrow> unit res \<times> l2_installer" where
  "installer_begin pipeline p m li =
     (let key = (pipeline, as_u16 p); li = li\<lparr>li_dirs := hm_insert (as_u16 p) (dir_of li p) (li_dirs li)\<rparr>
      in if hm_get (li_writers li) key \<noteq> None then (Inl (State ''l2-installer: begin called twice''), li)
         else (Inr (), li\<lparr>li_writers := hm_insert key (writer_open m) (li_writers li)\<rparr>))"

definition installer_apply :: "(bytes \<Rightarrow> u32) \<Rightarrow> l2_io \<Rightarrow> string \<Rightarrow> partition_id \<Rightarrow> segment_chunk \<Rightarrow> l2_installer \<Rightarrow> unit res \<times> l2_installer" where
  "installer_apply crc io pipeline p ck li =
     (case hm_get (li_writers li) (pipeline, as_u16 p) of
        None \<Rightarrow> (Inl (State ''l2-installer: apply_chunk without begin''), li)
      | Some w \<Rightarrow>
          (case apply_chunk crc io ck (w, dir_of li p) of
             (r, w, files) \<Rightarrow>
               (r, li\<lparr>li_writers := hm_insert (pipeline, as_u16 p) w (li_writers li),
                      li_dirs := hm_insert (as_u16 p) files (li_dirs li)\<rparr>)))"

definition installer_finish :: "string \<Rightarrow> partition_id \<Rightarrow> bool \<Rightarrow> l2_installer \<Rightarrow> unit res \<times> l2_installer" where
  "installer_finish pipeline p success li =
     (case hm_get (li_writers li) (pipeline, as_u16 p) of
        None \<Rightarrow> (Inl (State ''l2-installer: finish without begin''), li)
      | Some w \<Rightarrow>
          let li = li\<lparr>li_writers := hm_remove (pipeline, as_u16 p) (li_writers li)\<rparr>
          in if \<not> success then (Inr (), li\<lparr>li_dirs := hm_remove (as_u16 p) (li_dirs li)\<rparr>)
             else (writer_finish w, li))"

text \<open>
  \<open>request_partition_transfer\<close> with the installer's hooks: the manifest, the chunks that arrive, and how
  the stream ends, with an end frame or without.
\<close>

datatype stream_end = EndFrame bool | StreamLost

fun install_chunks :: "(bytes \<Rightarrow> u32) \<Rightarrow> string \<Rightarrow> partition_id \<Rightarrow> segment_chunk list \<Rightarrow> l2_installer \<Rightarrow> unit res \<times> l2_installer" where
  "install_chunks crc pipeline p [] li = (Inr (), li)"
| "install_chunks crc pipeline p (ck # cks) li =
     (case installer_apply crc IoOk pipeline p ck li of
        (Inl e, li) \<Rightarrow> (Inl e, li)
      | (Inr _, li) \<Rightarrow> install_chunks crc pipeline p cks li)"

definition receive_stream :: "(bytes \<Rightarrow> u32) \<Rightarrow> string \<Rightarrow> partition_id \<Rightarrow> segment_manifest \<Rightarrow> segment_chunk list \<Rightarrow> stream_end
    \<Rightarrow> l2_installer \<Rightarrow> unit res \<times> l2_installer" where
  "receive_stream crc pipeline p m cks ending li =
     (case installer_begin pipeline p m li of
        (Inl e, li) \<Rightarrow> (Inl e, li)
      | (Inr _, li) \<Rightarrow>
          (case install_chunks crc pipeline p cks li of
             (Inl e, li) \<Rightarrow> (Inl e, li)
           | (Inr _, li) \<Rightarrow>
               (case ending of
                  EndFrame success \<Rightarrow> installer_finish pipeline p success li
                | StreamLost \<Rightarrow> (Inl (Connection ''failed to read frame header'' True), li))))"

definition transfer_segments :: "(bytes \<Rightarrow> u32) \<Rightarrow> string \<Rightarrow> partition_id \<Rightarrow> (u64, bytes) hash_map \<Rightarrow> l2_installer
    \<Rightarrow> (unit res \<times> l2_installer) option" where
  "transfer_segments crc pipeline p files li =
     (let m = read_manifest crc files
      in map_option (\<lambda>(cks, ok). receive_stream crc pipeline p m cks (EndFrame ok) li)
           (serve_chunks files default_chunk_bytes m))"

section \<open>The chunks of a segment\<close>

function chunks_from :: "nat \<Rightarrow> u64 \<Rightarrow> bytes \<Rightarrow> nat \<Rightarrow> segment_chunk list" where
  "chunks_from n start data pos =
     (if pos \<ge> length data \<or> n = 0 then []
      else let k = min n (length data - pos)
           in \<lparr>ck_start_seq = start, ck_offset = of_nat pos, ck_data = subslice data pos (pos + k),
               ck_is_last = (pos + k \<ge> length data)\<rparr> # chunks_from n start data (pos + k))"
  by pat_completeness auto
termination by (relation "measure (\<lambda>(n, start, data, pos). length data - pos)") auto

declare chunks_from.simps [simp del]

lemma of_nat_u64_le: "a < 2 ^ 64 \<Longrightarrow> b < 2 ^ 64 \<Longrightarrow> (of_nat a :: u64) \<le> of_nat b \<longleftrightarrow> a \<le> b"
  by (simp add: word_le_nat_alt unat_of_nat)

lemma reader_chunks_from:
  "length data < 2 ^ 64 \<Longrightarrow> pos \<le> length data \<Longrightarrow> n > 0 \<Longrightarrow>
    reader_chunks \<lparr>rd_start_seq = start, rd_file = data, rd_file_len = of_nat (length data), rd_offset = of_nat pos,
      rd_chunk_bytes = n\<rparr> = Some (chunks_from n start data pos)"
proof (induction n start data pos rule: chunks_from.induct)
  case (1 n start data pos)
  let ?rd = "\<lambda>p. \<lparr>rd_start_seq = start, rd_file = data, rd_file_len = of_nat (length data), rd_offset = of_nat p, rd_chunk_bytes = n\<rparr>"
  show ?case
  proof (cases "pos \<ge> length data")
    case True
    then have "pos = length data" using 1(3) by simp
    then show ?thesis
      by (subst reader_chunks.simps, subst chunks_from.simps) (simp add: next_chunk_def)
  next
    case False
    let ?k = "min n (length data - pos)"
    have lt: "pos < 2 ^ 64" "pos + ?k < 2 ^ 64" using 1(2) False by auto
    have open_end: "\<not> (of_nat (length data) :: u64) \<le> of_nat pos"
      using False lt 1(2) of_nat_u64_le by auto
    have rem: "unat ((of_nat (length data) :: u64) - of_nat pos) = length data - pos"
    proof -
      have "(of_nat (length data) :: u64) - of_nat pos = of_nat (length data - pos)"
        using False by (intro of_nat_diff [symmetric]) simp
      moreover have "unat (of_nat (length data - pos) :: u64) = length data - pos"
        using 1(2) by (simp only: unat_of_nat) simp
      ultimately show ?thesis by simp
    qed
    have rest: "reader_chunks (?rd (pos + ?k)) = Some (chunks_from n start data (pos + ?k))"
      using 1(1) [of ?k] False 1(2,4) by simp
    let ?ck = "\<lparr>ck_start_seq = start, ck_offset = of_nat pos, ck_data = subslice data pos (pos + ?k),
      ck_is_last = (pos + ?k \<ge> length data)\<rparr>"
    have pos: "unat (of_nat pos :: u64) = pos" using lt by (simp add: unat_of_nat)
    have is_last: "(of_nat (length data) :: u64) \<le> of_nat (pos + ?k) \<longleftrightarrow> length data \<le> pos + ?k"
      using of_nat_u64_le [OF 1(2) lt(2)] .
    have "next_chunk (?rd pos) = (Some ?ck, ?rd (pos + ?k))"
      unfolding next_chunk_def Let_def using open_end rem pos is_last by simp
    then have "reader_chunks (?rd pos) = Some (?ck # chunks_from n start data (pos + ?k))"
      using rest by (simp add: reader_chunks.simps [of "?rd pos"])
    then show ?thesis
      using False 1(4) by (simp add: chunks_from.simps [of n start data pos] Let_def)
  qed
qed

lemma serve_chunks_all:
  assumes "\<forall>(s, d) \<in> set fs. hm_get files s = Some d \<and> length d < 2 ^ 64" "n > 0"
  shows "serve_chunks files n (map (entry_of crc) fs) = Some (concat (map (\<lambda>(s, d). chunks_from n s d 0) fs), True)"
  using assms(1)
proof (induction fs)
  case (Cons f fs)
  obtain s d where f: "f = (s, d)" by (cases f)
  have "reader_chunks \<lparr>rd_start_seq = s, rd_file = d, rd_file_len = of_nat (length d), rd_offset = 0, rd_chunk_bytes = n\<rparr> =
      Some (chunks_from n s d 0)"
    using reader_chunks_from [of d 0 n s] Cons.prems assms(2) f by simp
  moreover have "max n 1 = n" using assms(2) by simp
  ultimately show ?case using Cons f by (simp add: reader_open_def entry_of_def)
qed simp

section \<open>Receiving the chunks\<close>

fun apply_chunks :: "(bytes \<Rightarrow> u32) \<Rightarrow> segment_chunk list \<Rightarrow> segment_writer \<times> (u64, bytes) hash_map
    \<Rightarrow> unit res \<times> segment_writer \<times> (u64, bytes) hash_map" where
  "apply_chunks crc [] wd = (Inr (), wd)"
| "apply_chunks crc (ck # cks) wd =
     (case apply_chunk crc IoOk ck wd of
        (Inl e, wd) \<Rightarrow> (Inl e, wd)
      | (Inr _, wd) \<Rightarrow> apply_chunks crc cks wd)"

lemma apply_chunks_append:
  "apply_chunks crc xs wd = (Inr (), wd') \<Longrightarrow> apply_chunks crc (xs @ ys) wd = apply_chunks crc ys wd'"
proof (induction xs arbitrary: wd)
  case (Cons ck cks)
  obtain r wd1 where step: "apply_chunk crc IoOk ck wd = (r, wd1)" by (cases "apply_chunk crc IoOk ck wd")
  show ?case using Cons.prems Cons.IH [of wd1] by (cases r) (simp_all add: step)
qed simp

text \<open>The receiving side while it has the first \<open>pos\<close> bytes of a segment.\<close>

definition receiving :: "u64 \<Rightarrow> bytes \<Rightarrow> nat \<Rightarrow> segment_writer \<times> (u64, bytes) hash_map \<Rightarrow> bool" where
  "receiving s d pos wd \<longleftrightarrow>
     hm_get (sw_open_segments (fst wd)) s = Some \<lparr>os_expected_bytes = of_nat (length d), os_bytes_received = of_nat pos\<rparr> \<and>
     hm_get (snd wd) s = Some (take pos d)"

definition fresh :: "u64 \<Rightarrow> segment_writer \<times> (u64, bytes) hash_map \<Rightarrow> bool" where
  "fresh s wd \<longleftrightarrow> hm_get (sw_open_segments (fst wd)) s = None"

text \<open>The same elsewhere: manifest, finalized set, and all other segments.\<close>

definition same_elsewhere :: "u64 \<Rightarrow> segment_writer \<times> (u64, bytes) hash_map \<Rightarrow> segment_writer \<times> (u64, bytes) hash_map \<Rightarrow> bool" where
  "same_elsewhere s wd wd' \<longleftrightarrow>
     sw_manifest (fst wd') = sw_manifest (fst wd) \<and> (hm_invar (snd wd) \<longrightarrow> hm_invar (snd wd')) \<and>
     (\<forall>t. t \<noteq> s \<longrightarrow> hm_get (snd wd') t = hm_get (snd wd) t \<and>
        hm_get (sw_finalized (fst wd')) t = hm_get (sw_finalized (fst wd)) t \<and>
        hm_get (sw_open_segments (fst wd')) t = hm_get (sw_open_segments (fst wd)) t)"

lemma write_at_end: "pos \<le> length d \<Longrightarrow> pos + k \<le> length d \<Longrightarrow> write_at pos (subslice d pos (pos + k)) (take pos d) = take (pos + k) d"
  by (simp add: write_at_def subslice_def take_add min_def)

lemma open_or_create_receiving:
  assumes "receiving s d pos wd \<or> fresh s wd \<and> pos = 0"
  shows "\<exists>w files. open_or_create (entry_of crc (s, d)) s wd =
      (\<lparr>os_expected_bytes = of_nat (length d), os_bytes_received = of_nat pos\<rparr>, w, files) \<and>
    receiving s d pos (w, files) \<and> same_elsewhere s wd (w, files) \<and> sw_finalized w = sw_finalized (fst wd)"
proof (cases wd)
  case (Pair w files)
  with assms show ?thesis
    by (auto simp: receiving_def fresh_def open_or_create_def same_elsewhere_def entry_of_def map_simps Let_def
        intro: inv_intros)
qed

lemma apply_chunk_step:
  assumes "receiving s d pos wd \<or> fresh s wd \<and> pos = 0" "find_entry (sw_manifest (fst wd)) s = Some (entry_of crc (s, d))"
    and "hm_get (sw_finalized (fst wd)) s = None" "k > 0" "pos + k \<le> length d" "length d < 2 ^ 64"
  shows "\<exists>wd'. apply_chunk crc IoOk \<lparr>ck_start_seq = s, ck_offset = of_nat pos, ck_data = subslice d pos (pos + k),
        ck_is_last = (pos + k \<ge> length d)\<rparr> wd = (Inr (), wd') \<and> same_elsewhere s wd wd' \<and>
      (if pos + k < length d then receiving s d (pos + k) wd' \<and> hm_get (sw_finalized (fst wd')) s = None
       else hm_get (snd wd') s = Some d \<and> hm_get (sw_finalized (fst wd')) s = Some (crc d) \<and> fresh s wd')"
proof -
  obtain w files where oc: "open_or_create (entry_of crc (s, d)) s wd =
      (\<lparr>os_expected_bytes = of_nat (length d), os_bytes_received = of_nat pos\<rparr>, w, files)"
    "receiving s d pos (w, files)" "same_elsewhere s wd (w, files)" "sw_finalized w = sw_finalized (fst wd)"
    using open_or_create_receiving [OF assms(1)] by blast
  have size: "of_nat (length (subslice d pos (pos + k))) = (of_nat k :: u64)"
    using assms(5) by simp
  have bound: "\<not> (of_nat (length d) :: u64) < of_nat pos + of_nat k"
    using assms(5,6) of_nat_u64_le [of "pos + k" "length d"] by (simp add: not_less)
  have recv: "max (of_nat pos) (of_nat pos + of_nat k :: u64) = of_nat (pos + k)"
    using assms(5,6) of_nat_u64_le [of pos "pos + k"] by (simp add: max_def)
  have written: "write_at pos (subslice d pos (pos + k)) (take pos d) = take (pos + k) d"
    using assms(5) write_at_end by simp
  have pos: "unat (of_nat pos :: u64) = pos" using assms(5,6) by (simp add: unat_of_nat)
  have content: "hm_get files s = Some (take pos d)" using oc(2) by (simp add: receiving_def)
  let ?seg = "\<lparr>os_expected_bytes = of_nat (length d), os_bytes_received = of_nat (pos + k) :: u64\<rparr>"
  let ?ck = "\<lparr>ck_start_seq = s, ck_offset = of_nat pos, ck_data = subslice d pos (pos + k), ck_is_last = (pos + k \<ge> length d)\<rparr>"
  define w' where "w' = w\<lparr>sw_open_segments := hm_insert s ?seg (sw_open_segments w)\<rparr>"
  define files' where "files' = hm_insert s (take (pos + k) d) files"
  have same: "same_elsewhere s wd (w', files')" and open': "hm_get (sw_open_segments w') s = Some ?seg"
    and fin': "sw_finalized w' = sw_finalized (fst wd)" and content': "hm_get files' s = Some (take (pos + k) d)"
    using oc(3,4) by (auto simp: same_elsewhere_def w'_def files'_def map_simps intro: inv_intros)
  have step: "apply_chunk crc IoOk ?ck wd =
      (if pos + k \<ge> length d then finalize_chunk crc (entry_of crc (s, d)) ?ck ?seg (w', files') else (Inr (), w', files'))"
    using assms(2,3) oc(1) size bound recv written pos content
    by (simp add: apply_chunk_def Let_def w'_def files'_def)
  show ?thesis
  proof (cases "pos + k < length d")
    case True
    then show ?thesis using step same open' fin' content' assms(3) by (simp add: receiving_def)
  next
    case False
    then have len: "pos + k = length d" using assms(5) by simp
    define w'' where "w'' = w'\<lparr>sw_finalized := hm_insert s (crc d) (sw_finalized w'),
      sw_open_segments := hm_remove s (sw_open_segments w')\<rparr>"
    have "apply_chunk crc IoOk ?ck wd = (Inr (), w'', files')"
      using step len content' by (simp add: finalize_chunk_def Let_def w''_def entry_of_def)
    moreover have "same_elsewhere s wd (w'', files')"
      using same by (auto simp: same_elsewhere_def w''_def map_simps)
    ultimately show ?thesis using len content' by (simp add: w''_def fresh_def map_simps)
  qed
qed

lemma same_elsewhere_trans: "same_elsewhere s a b \<Longrightarrow> same_elsewhere s b c \<Longrightarrow> same_elsewhere s a c"
  by (auto simp: same_elsewhere_def)

lemma apply_segment:
  "receiving s d pos wd \<or> fresh s wd \<and> pos = 0 \<Longrightarrow>
    find_entry (sw_manifest (fst wd)) s = Some (entry_of crc (s, d)) \<Longrightarrow> hm_get (sw_finalized (fst wd)) s = None \<Longrightarrow>
    pos < length d \<Longrightarrow> length d < 2 ^ 64 \<Longrightarrow> n > 0 \<Longrightarrow>
    \<exists>wd'. apply_chunks crc (chunks_from n s d pos) wd = (Inr (), wd') \<and> same_elsewhere s wd wd' \<and>
      hm_get (snd wd') s = Some d \<and> hm_get (sw_finalized (fst wd')) s = Some (crc d) \<and> fresh s wd'"
proof (induction n s d pos arbitrary: wd rule: chunks_from.induct)
  case (1 n s d pos)
  let ?k = "min n (length d - pos)"
  let ?ck = "\<lparr>ck_start_seq = s, ck_offset = of_nat pos, ck_data = subslice d pos (pos + ?k), ck_is_last = (pos + ?k \<ge> length d)\<rparr>"
  have chunks: "chunks_from n s d pos = ?ck # chunks_from n s d (pos + ?k)"
    using 1(5,7) by (simp add: chunks_from.simps [of n s d pos] Let_def)
  have k: "?k > 0" "pos + ?k \<le> length d" using 1(5,7) by auto
  obtain wd1 where wd1: "apply_chunk crc IoOk ?ck wd = (Inr (), wd1)" "same_elsewhere s wd wd1"
    "if pos + ?k < length d then receiving s d (pos + ?k) wd1 \<and> hm_get (sw_finalized (fst wd1)) s = None
     else hm_get (snd wd1) s = Some d \<and> hm_get (sw_finalized (fst wd1)) s = Some (crc d) \<and> fresh s wd1"
    using apply_chunk_step [OF 1(2-4) k 1(6)] by blast
  show ?case
  proof (cases "pos + ?k < length d")
    case True
    have manifest: "find_entry (sw_manifest (fst wd1)) s = Some (entry_of crc (s, d))"
      using wd1(2) 1(3) by (simp add: same_elsewhere_def)
    have recv: "receiving s d (pos + ?k) wd1" "hm_get (sw_finalized (fst wd1)) s = None"
      using wd1(3) by (simp_all only: True if_True)
    obtain wd' where "apply_chunks crc (chunks_from n s d (pos + ?k)) wd1 = (Inr (), wd')" "same_elsewhere s wd1 wd'"
      "hm_get (snd wd') s = Some d" "hm_get (sw_finalized (fst wd')) s = Some (crc d)" "fresh s wd'"
      using 1(1) [OF _ refl disjI1 [OF recv(1)] manifest recv(2) True 1(6,7)] 1(5,7) by auto
    then show ?thesis using chunks wd1(1,2) same_elsewhere_trans by fastforce
  next
    case False
    moreover have "length d \<le> q \<Longrightarrow> chunks_from n s d q = []" for q by (simp add: chunks_from.simps [of n s d q])
    ultimately have "chunks_from n s d (pos + ?k) = []" by (simp only: not_less)
    then show ?thesis using chunks wd1 False by auto
  qed
qed

lemma find_entry_distinct:
  "distinct (map fst fs) \<Longrightarrow> (s, d) \<in> set fs \<Longrightarrow> find_entry (map (entry_of crc) fs) s = Some (entry_of crc (s, d))"
  by (induction fs) (auto simp: find_entry_def entry_of_def, force+)

lemma apply_segments:
  "distinct (map fst fs) \<Longrightarrow> \<forall>(s, d) \<in> set fs. d \<noteq> [] \<and> length d < 2 ^ 64 \<Longrightarrow>
    \<forall>(s, d) \<in> set fs. fresh s wd \<and> hm_get (sw_finalized (fst wd)) s = None \<and>
      find_entry (sw_manifest (fst wd)) s = Some (entry_of crc (s, d)) \<Longrightarrow> n > 0 \<Longrightarrow>
    \<exists>wd'. apply_chunks crc (concat (map (\<lambda>(s, d). chunks_from n s d 0) fs)) wd = (Inr (), wd') \<and>
      sw_manifest (fst wd') = sw_manifest (fst wd) \<and> (hm_invar (snd wd) \<longrightarrow> hm_invar (snd wd')) \<and>
      (\<forall>(s, d) \<in> set fs. hm_get (snd wd') s = Some d \<and> hm_get (sw_finalized (fst wd')) s \<noteq> None) \<and>
      (\<forall>t. t \<notin> fst ` set fs \<longrightarrow> hm_get (snd wd') t = hm_get (snd wd) t \<and>
         hm_get (sw_finalized (fst wd')) t = hm_get (sw_finalized (fst wd)) t)"
proof (induction fs arbitrary: wd)
  case (Cons f fs)
  obtain s d where f: "f = (s, d)" by (cases f)
  obtain wd1 where wd1: "apply_chunks crc (chunks_from n s d 0) wd = (Inr (), wd1)" "same_elsewhere s wd wd1"
    "hm_get (snd wd1) s = Some d" "hm_get (sw_finalized (fst wd1)) s = Some (crc d)"
    using apply_segment [of s d 0 wd crc n] Cons.prems f by fastforce
  have s: "s \<notin> fst ` set fs" using Cons.prems(1) f by simp
  have pre: "\<forall>(t, e) \<in> set fs. fresh t wd1 \<and> hm_get (sw_finalized (fst wd1)) t = None \<and>
      find_entry (sw_manifest (fst wd1)) t = Some (entry_of crc (t, e))"
  proof safe
    fix t e assume te: "(t, e) \<in> set fs"
    then have "t \<noteq> s" using s by force
    then show "fresh t wd1" "hm_get (sw_finalized (fst wd1)) t = None"
      "find_entry (sw_manifest (fst wd1)) t = Some (entry_of crc (t, e))"
      using wd1(2) Cons.prems(3) te by (auto simp: same_elsewhere_def fresh_def)
  qed
  obtain wd' where wd': "apply_chunks crc (concat (map (\<lambda>(s, d). chunks_from n s d 0) fs)) wd1 = (Inr (), wd')"
    "sw_manifest (fst wd') = sw_manifest (fst wd1)" "hm_invar (snd wd1) \<longrightarrow> hm_invar (snd wd')"
    "\<forall>(s, d) \<in> set fs. hm_get (snd wd') s = Some d \<and> hm_get (sw_finalized (fst wd')) s \<noteq> None"
    "\<forall>t. t \<notin> fst ` set fs \<longrightarrow> hm_get (snd wd') t = hm_get (snd wd1) t \<and>
       hm_get (sw_finalized (fst wd')) t = hm_get (sw_finalized (fst wd1)) t"
    using Cons.IH [OF _ _ pre Cons.prems(4)] Cons.prems(1,2) by auto
  have "apply_chunks crc (concat (map (\<lambda>(s, d). chunks_from n s d 0) (f # fs))) wd = (Inr (), wd')"
    using apply_chunks_append [OF wd1(1)] wd'(1) f by simp
  moreover have "sw_manifest (fst wd') = sw_manifest (fst wd)" "hm_invar (snd wd) \<longrightarrow> hm_invar (snd wd')"
    using wd'(2,3) wd1(2) by (auto simp: same_elsewhere_def)
  moreover have "\<forall>(s, d) \<in> set (f # fs). hm_get (snd wd') s = Some d \<and> hm_get (sw_finalized (fst wd')) s \<noteq> None"
    using wd'(4,5) s wd1(3,4) f by simp
  moreover have "\<forall>t. t \<notin> fst ` set (f # fs) \<longrightarrow> hm_get (snd wd') t = hm_get (snd wd) t \<and>
       hm_get (sw_finalized (fst wd')) t = hm_get (sw_finalized (fst wd)) t"
    using wd'(5) wd1(2) f by (simp add: same_elsewhere_def)
  ultimately show ?case by blast
qed simp

lemma install_chunks_writer:
  "hm_get (li_writers li) (pipeline, as_u16 p) = Some w \<Longrightarrow>
    apply_chunks crc cks (w, dir_of li p) = (r, w', files) \<Longrightarrow> cks \<noteq> [] \<or> hm_get (li_dirs li) (as_u16 p) \<noteq> None \<Longrightarrow>
    \<exists>li'. install_chunks crc pipeline p cks li = (r, li') \<and> hm_get (li_writers li') (pipeline, as_u16 p) = Some w' \<and>
      dir_of li' p = files"
proof (induction cks arbitrary: li w)
  case (Cons ck cks)
  obtain r1 w1 f1 where step: "apply_chunk crc IoOk ck (w, dir_of li p) = (r1, w1, f1)"
    by (cases "apply_chunk crc IoOk ck (w, dir_of li p)")
  let ?li = "li\<lparr>li_writers := hm_insert (pipeline, as_u16 p) w1 (li_writers li), li_dirs := hm_insert (as_u16 p) f1 (li_dirs li)\<rparr>"
  have inst: "installer_apply crc IoOk pipeline p ck li = (r1, ?li)"
    using Cons.prems(1) step by (simp add: installer_apply_def)
  have dir: "dir_of ?li p = f1" "hm_get (li_writers ?li) (pipeline, as_u16 p) = Some w1" "hm_get (li_dirs ?li) (as_u16 p) \<noteq> None"
    by (simp_all add: dir_of_def map_simps)
  show ?case
  proof (cases r1)
    case (Inl e)
    then show ?thesis using Cons.prems(2) step inst dir by auto
  next
    case (Inr u)
    then show ?thesis using Cons.IH [OF dir(2)] Cons.prems(2) step inst dir by simp
  qed
qed auto

section \<open>Opening what was received\<close>

lemma open_segments_cong:
  "hm_get files = hm_get files' \<Longrightarrow> open_segments S crc files metas kek starts n = open_segments S crc files' metas kek starts n"
  by (induction starts arbitrary: n) simp_all

lemma iter_segments_cong:
  "hm_get (bs_files st) = hm_get (bs_files st') \<Longrightarrow> bs_metas st = bs_metas st' \<Longrightarrow> bs_kek st = bs_kek st' \<Longrightarrow>
    iter_segments S crc st from_seq sgs = iter_segments S crc st' from_seq sgs"
  by (induction sgs) simp_all

lemma l2_open_cong:
  assumes "hm_get files = hm_get files'" "hm_invar files" "hm_invar files'"
    and "l2_open S crc files metas sb kek hold io = Inr st"
  shows "\<exists>st'. l2_open S crc files' metas sb kek hold io = Inr st' \<and> bs_next_seq st' = bs_next_seq st \<and>
    (\<forall>from_seq. iter_from S crc from_seq st' = iter_from S crc from_seq st)"
proof -
  have "set (map fst files) = set (map fst files')"
    using arg_cong [OF assms(1), of dom] by (simp add: dom_map_of_conv_image_fst)
  then have "sort (map fst files) = sort (map fst files')"
    using assms(2,3) by (intro sorted_distinct_set_unique) auto
  then show ?thesis
    using assms(4) open_segments_cong [OF assms(1), of S crc metas kek]
    by (auto simp: l2_open_def rbind_Inr_conv iter_from_def assms(1) intro!: iter_segments_cong)
qed

lemma hm_get_in: "hm_invar m \<Longrightarrow> hm_get m k = Some v \<longleftrightarrow> (k, v) \<in> set m"
  by (auto dest: map_of_SomeD)

text \<open>Streaming a directory of non-empty segments into an empty one copies it.\<close>

lemma transfer_copies_segments:
  assumes "hm_invar files" "\<forall>(s, d) \<in> set files. d \<noteq> [] \<and> length d < 2 ^ 64"
    and "hm_get (li_writers li) (pipeline, as_u16 p) = None" "dir_of li p = []"
  shows "\<exists>li'. transfer_segments crc pipeline p files li = Some (Inr (), li') \<and>
    hm_get (dir_of li' p) = hm_get files \<and> hm_invar (dir_of li' p) \<and>
    hm_get (li_writers li') (pipeline, as_u16 p) = None"
proof -
  let ?fs = "sort_key fst files" and ?m = "read_manifest crc files"
  let ?cks = "concat (map (\<lambda>(s, d). chunks_from default_chunk_bytes s d 0) ?fs)"
  define li1 where "li1 = li\<lparr>li_dirs := hm_insert (as_u16 p) [] (li_dirs li),
    li_writers := hm_insert (pipeline, as_u16 p) (writer_open ?m) (li_writers li)\<rparr>"
  have n: "default_chunk_bytes > 0" by (simp add: default_chunk_bytes_def)
  have fs: "set ?fs = set files" "distinct (map fst ?fs)"
    using assms(1) by (auto simp: distinct_map inj_on_def)
  have served: "serve_chunks files default_chunk_bytes ?m = Some (?cks, True)"
    unfolding read_manifest_def using assms(1,2) fs(1) by (intro serve_chunks_all n) auto
  have started: "installer_begin pipeline p ?m li = (Inr (), li1)"
    using assms(3,4) by (simp add: installer_begin_def li1_def Let_def)
  have dir1: "dir_of li1 p = []" and w1: "hm_get (li_writers li1) (pipeline, as_u16 p) = Some (writer_open ?m)"
    by (simp_all add: li1_def dir_of_def map_simps)
  have pre: "\<forall>(s, d) \<in> set ?fs. fresh s (writer_open ?m, []) \<and> hm_get (sw_finalized (writer_open ?m)) s = None \<and>
      find_entry (sw_manifest (writer_open ?m)) s = Some (entry_of crc (s, d))"
    using find_entry_distinct [OF fs(2)] by (auto simp: fresh_def writer_open_def read_manifest_def)
  obtain w' f' where wd': "apply_chunks crc ?cks (writer_open ?m, []) = (Inr (), w', f')"
    "sw_manifest w' = ?m" "hm_invar f'"
    "\<forall>(s, d) \<in> set ?fs. hm_get f' s = Some d \<and> hm_get (sw_finalized w') s \<noteq> None"
    "\<forall>t. t \<notin> fst ` set ?fs \<longrightarrow> hm_get f' t = None"
    using apply_segments [OF fs(2) _ _ n, of "(writer_open ?m, [])" crc] assms(2) pre fs(1)
    by (auto simp: writer_open_def)
  obtain li2 where li2: "install_chunks crc pipeline p ?cks li1 = (Inr (), li2)"
    "hm_get (li_writers li2) (pipeline, as_u16 p) = Some w'" "dir_of li2 p = f'"
    using install_chunks_writer [OF w1, of crc ?cks] wd'(1) dir1 by (auto simp: li1_def map_simps)
  have "writer_finish w' = Inr ()"
    using wd'(2,4) by (auto simp: writer_finish_def list_all_iff read_manifest_def entry_of_def)
  then have "transfer_segments crc pipeline p files li =
      Some (Inr (), li2\<lparr>li_writers := hm_remove (pipeline, as_u16 p) (li_writers li2)\<rparr>)"
    using served started li2 by (simp add: transfer_segments_def receive_stream_def installer_finish_def Let_def)
  moreover have "hm_get f' = hm_get files"
  proof
    fix t
    show "hm_get f' t = hm_get files t"
    proof (cases "t \<in> fst ` set files")
      case True
      then obtain d where "(t, d) \<in> set files" by auto
      then have "hm_get f' t = Some d" "hm_get files t = Some d"
        using wd'(4) fs(1) hm_get_in [OF assms(1)] by auto
      then show ?thesis by simp
    next
      case False
      then show ?thesis using wd'(5) fs(1) by (metis map_of_eq_None_iff)
    qed
  qed
  ultimately show ?thesis using li2(3) wd'(3) by (auto simp: dir_of_def map_simps)
qed


definition empty_installer :: l2_installer where
  "empty_installer = \<lparr>li_writers = [], li_dirs = []\<rparr>"

lemma empty_installer_empty: "dir_of empty_installer p = []" "hm_get (li_writers empty_installer) k = None"
  by (simp_all add: empty_installer_def dir_of_def)


section \<open>Sealed segments\<close>

lemma segment_records_undecodable:
  assumes "data = pre @ l2_frame crc seq p @ post" "fits_u32 p" "decode_payload S cipher p = Inl e"
  shows "segment_records S crc cipher data (length pre) = [Inl e]"
proof -
  have "data = pre @ take (16 + length p) (l2_frame crc seq p) @ post" using assms(1) by simp
  note f = l2_fields [OF this]
  let ?h = "u64_to_le seq @ u32_to_le (crc (u32_to_le (of_nat (length p)) @ p)) @ u32_to_le (of_nat (length p))"
  have "data = (pre @ ?h) @ p @ post" by (simp add: assms(1) l2_frame_def Let_def)
  then have "subslice data (length pre + 16) (length pre + 16 + length p) = p"
    using slice_at [of "length pre + 16" "pre @ ?h"] by simp
  then show ?thesis
    using f assms by (subst segment_records.simps) (auto simp: Let_def unat_len_u32 add.assoc)
qed

lemma open_segments_fails:
  "s \<in> set starts \<Longrightarrow> hm_get files s = Some d \<Longrightarrow> isl (segment_open S crc s d (hm_get metas s) kek) \<Longrightarrow>
    isl (open_segments S crc files metas kek starts n)"
proof (induction starts arbitrary: n)
  case (Cons t ts)
  show ?case
  proof (cases "s = t")
    case True
    then show ?thesis using Cons.prems by (auto simp: isl_def)
  next
    case False
    then have rest: "isl (open_segments S crc files metas kek ts k)" for k using Cons by simp
    show ?thesis
      using rest by (cases "hm_get files t"; cases "segment_open S crc t (the (hm_get files t)) (hm_get metas t) kek")
        (auto simp: isl_def, (metis rbind_simps(1))+)
  qed
qed simp

text \<open>
  The stream carries the segment files and not their encryption sidecars.  After the transfer of a
  segment whose first record is sealed the installer reports success, and the body store of the partition
  cannot be opened on the new node, with or without the key-encryption key.
\<close>

theorem sealed_segments_unreadable_after_transfer:
  assumes "hm_invar files" "\<forall>(s, d) \<in> set files. d \<noteq> [] \<and> length d < 2 ^ 64"
    and "hm_get (li_writers li) (pipeline, as_u16 p) = None" "dir_of li p = []"
    and "hm_get files s = Some (segment_header @ l2_frame crc seq sealed @ more_records)" "fits_u32 sealed"
    and "decode_event S MsgPack sealed = Inl e"
  shows "\<exists>li'. transfer_segments crc pipeline p files li = Some (Inr (), li') \<and>
    isl (l2_open S crc (dir_of li' p) [] sb kek hold io)"
proof -
  obtain li' where li': "transfer_segments crc pipeline p files li = Some (Inr (), li')"
    "hm_get (dir_of li' p) = hm_get files"
    using transfer_copies_segments [OF assms(1-4), of crc] by blast
  let ?d = "segment_header @ l2_frame crc seq sealed @ more_records"
  have "segment_records S crc None ?d 12 = [Inl (State ''l2-body: decode event'')]"
    using segment_records_undecodable [of ?d segment_header crc seq sealed more_records S None, OF refl assms(6)] assms(7)
    by (simp add: decode_payload_def open_payload_def)
  then have "isl (segment_open S crc s ?d None kek)"
    by (auto simp: segment_open_def iter_records_def load_cipher_for_def isl_def split: option.splits)
  moreover have "s \<in> set (sort (map fst (dir_of li' p)))"
    using li'(2) assms(5) by (metis domI dom_map_of_conv_image_fst list.set_map set_sort)
  ultimately have "isl (open_segments S crc (dir_of li' p) [] kek (sort (map fst (dir_of li' p))) 0)"
    using open_segments_fails [of s _ "dir_of li' p" ?d S crc "[]" kek] li'(2) assms(5) by simp
  then show ?thesis using li'(1) by (auto simp: l2_open_def isl_def)
qed

text \<open>A cipher that appends a byte, with a key that wraps nothing.\<close>

definition sample_cipher :: at_rest where
  "sample_cipher = \<lparr>ar_seal = \<lambda>x. Inr (x @ [0]), ar_open = \<lambda>x. Inr (butlast x)\<rparr>"

definition sample_kek :: "unit kek" where
  "sample_kek = \<lparr>kk_generate = \<lambda>_. Inr ((), sample_cipher), kk_unwrap = \<lambda>_. Inr sample_cipher\<rparr>"

definition sealed_body :: bytes where
  "sealed_body = enc_wire_event (wire_of_event sample_event) @ [0]"

definition sealed_file :: bytes where
  "sealed_file = segment_header @ l2_frame sum_crc 0 sealed_body"

lemma sealed_body_facts:
  "length sealed_body < 200" "decode_event byte_serde MsgPack sealed_body = Inl (Serialization ''invalid encoding'')"
  "decode_payload byte_serde (Some sample_cipher) sealed_body = Inr (strip_event sample_event)"
proof -
  show "length sealed_body < 200"
    by (simp add: sealed_body_def sample_event_def event_new_def wire_of_event_def enc_wire_event_def codec_eval)
  show "decode_event byte_serde MsgPack sealed_body = Inl (Serialization ''invalid encoding'')"
    by (simp add: decode_event_def byte_serde_def sealed_body_def parse_all_def wire_event_codec.dec_enc serde_err_def)
  show "decode_payload byte_serde (Some sample_cipher) sealed_body = Inr (strip_event sample_event)"
    by (simp add: decode_payload_def open_payload_def sample_cipher_def sealed_body_def decode_event_def byte_serde_def
        parse_all_def wire_event_codec.dec_enc_exact event_of_wire_of_event)
qed

theorem sealed_segments_unreadable_after_transfer_witness:
  "rbind (l2_open byte_serde sum_crc [(0, sealed_file)] [(0, ())] 0 (Some sample_kek) 0 []) (iter_from byte_serde sum_crc 0) =
     Inr [(0, strip_event sample_event)] \<and>
   (\<exists>li'. transfer_segments sum_crc ''p'' (PartitionId 0) [(0, sealed_file)] empty_installer = Some (Inr (), li') \<and>
     isl (l2_open byte_serde sum_crc (dir_of li' (PartitionId 0)) [] 0 (Some sample_kek) 0 []))"
proof -
  note body = sealed_body_facts
  have fits: "fits_u32 sealed_body" using body(1) by (simp add: fits_u32_def)
  have slices: "subslice sealed_file 0 8 = segment_magic" "subslice sealed_file 8 10 = u16_to_le segment_version"
    by (simp_all add: sealed_file_def segment_header_def segment_magic_def subslice_def)
  have len: "length sealed_file = 28 + length sealed_body" by (simp add: sealed_file_def)
  have "segment_records byte_serde sum_crc (Some sample_cipher) sealed_file 12 =
      Inr (0, strip_event sample_event) # segment_records byte_serde sum_crc (Some sample_cipher) sealed_file (length sealed_file)"
    using segment_records_frame [of sealed_file segment_header sum_crc 0 sealed_body "[]"] body(3) fits
    by (simp add: sealed_file_def payload_ok_def)
  moreover have "segment_records byte_serde sum_crc (Some sample_cipher) sealed_file (length sealed_file) = []"
    by (subst segment_records.simps) simp
  ultimately have recs: "segment_records byte_serde sum_crc (Some sample_cipher) sealed_file 12 = [Inr (0, strip_event sample_event)]"
    by simp
  have "rbind (l2_open byte_serde sum_crc [(0, sealed_file)] [(0, ())] 0 (Some sample_kek) 0 []) (iter_from byte_serde sum_crc 0) =
      Inr [(0, strip_event sample_event)]"
    by (simp add: l2_open_def segment_open_def iter_records_def load_cipher_for_def sample_kek_def slices recs len
        last_seq_def iter_from_def)
  moreover have "\<exists>li'. transfer_segments sum_crc ''p'' (PartitionId 0) [(0, sealed_file)] empty_installer = Some (Inr (), li') \<and>
     isl (l2_open byte_serde sum_crc (dir_of li' (PartitionId 0)) [] 0 (Some sample_kek) 0 [])"
  proof (rule sealed_segments_unreadable_after_transfer)
    show "\<forall>(s, d) \<in> set [(0, sealed_file)]. d \<noteq> [] \<and> length d < 2 ^ 64"
      using len body(1) by (cases sealed_file) auto
    show "hm_get [(0, sealed_file)] 0 = Some (segment_header @ l2_frame sum_crc 0 sealed_body @ [])"
      by (simp add: sealed_file_def)
  qed (simp_all add: empty_installer_empty fits body(2))
  ultimately show ?thesis by blast
qed

section \<open>A failed stream\<close>

fun receive_many :: "(bytes \<Rightarrow> u32) \<Rightarrow> string \<Rightarrow> partition_id \<Rightarrow> (segment_manifest \<times> segment_chunk list \<times> stream_end) list \<Rightarrow> l2_installer
    \<Rightarrow> unit res list" where
  "receive_many crc pipeline p [] li = []"
| "receive_many crc pipeline p ((m, cks, ending) # attempts) li =
     (case receive_stream crc pipeline p m cks ending li of (r, li) \<Rightarrow> r # receive_many crc pipeline p attempts li)"

lemma install_chunks_keeps_writer:
  "hm_get (li_writers li) (pipeline, as_u16 p) \<noteq> None \<Longrightarrow> install_chunks crc pipeline p cks li = (r, li') \<Longrightarrow>
    hm_get (li_writers li') (pipeline, as_u16 p) \<noteq> None"
proof (induction cks arbitrary: li)
  case (Cons ck cks)
  obtain r1 li1 where step: "installer_apply crc IoOk pipeline p ck li = (r1, li1)" by (cases "installer_apply crc IoOk pipeline p ck li")
  then have "hm_get (li_writers li1) (pipeline, as_u16 p) \<noteq> None"
    using Cons.prems(1) by (auto simp: installer_apply_def map_simps split: prod.splits option.splits)
  then show ?case using Cons.IH [of li1] Cons.prems(2) step by (cases r1) auto
qed simp

text \<open>
  A stream that fails on a chunk, or is lost before its end frame, leaves the writer of the partition
  registered, because only the end frame removes it.  Every later transfer of the partition to this node, whatever it carries, is refused
  as begun twice.
\<close>

theorem failed_stream_blocks_retries:
  assumes "installer_begin pipeline p m li = (Inr (), li0)" "install_chunks crc pipeline p cks li0 = (r, li1)"
    and "isl r \<or> ending = StreamLost"
  shows "(\<exists>e. receive_stream crc pipeline p m cks ending li = (Inl e, li1)) \<and>
    (\<forall>r \<in> set (receive_many crc pipeline p attempts li1). r = Inl (State ''l2-installer: begin called twice''))"
proof -
  have "hm_get (li_writers li0) (pipeline, as_u16 p) \<noteq> None"
    using assms(1) by (auto simp: installer_begin_def Let_def map_simps split: if_splits)
  then have stuck: "hm_get (li_writers li1) (pipeline, as_u16 p) \<noteq> None"
    using install_chunks_keeps_writer assms(2) by blast
  have "\<forall>r \<in> set (receive_many crc pipeline p attempts li'). r = Inl (State ''l2-installer: begin called twice'')"
    if "hm_get (li_writers li') (pipeline, as_u16 p) \<noteq> None" for li'
    using that
  proof (induction attempts arbitrary: li')
    case (Cons a as)
    obtain m' cks' en where a: "a = (m', cks', en)" by (cases a)
    let ?li = "li'\<lparr>li_dirs := hm_insert (as_u16 p) (dir_of li' p) (li_dirs li')\<rparr>"
    have "receive_stream crc pipeline p m' cks' en li' = (Inl (State ''l2-installer: begin called twice''), ?li)"
      using Cons.prems by (simp add: receive_stream_def installer_begin_def Let_def)
    then show ?case using Cons.IH [of ?li] Cons.prems by (simp add: a)
  qed simp
  then show ?thesis using assms stuck by (cases r) (auto simp: receive_stream_def)
qed

theorem failed_stream_blocks_retries_witness:
  "let ck = \<lparr>ck_start_seq = 1, ck_offset = 0, ck_data = [], ck_is_last = True\<rparr>;
       li1 = snd (receive_stream sum_crc ''p'' (PartitionId 0) [] [ck] (EndFrame True) empty_installer)
   in fst (receive_stream sum_crc ''p'' (PartitionId 0) [] [ck] (EndFrame True) empty_installer) \<noteq> Inr () \<and>
      receive_many sum_crc ''p'' (PartitionId 0) [([], [], EndFrame True)] li1 = [Inl (State ''l2-installer: begin called twice'')]"
proof -
  let ?ck = "\<lparr>ck_start_seq = 1, ck_offset = 0, ck_data = [], ck_is_last = True\<rparr>"
  obtain li0 where li0: "installer_begin ''p'' (PartitionId 0) [] empty_installer = (Inr (), li0)"
    "hm_get (li_writers li0) (''p'', 0) = Some (writer_open [])"
    by (simp add: installer_begin_def empty_installer_def Let_def)
  obtain li1 where li1: "install_chunks sum_crc ''p'' (PartitionId 0) [?ck] li0 =
      (Inl (State ''l2-transfer: chunk for unknown segment''), li1)"
    using li0(2) by (simp add: installer_apply_def apply_chunk_def find_entry_def writer_open_def Let_def)
  have "isl (Inl (State ''l2-transfer: chunk for unknown segment'') :: unit res)" by simp
  note T = failed_stream_blocks_retries [OF li0(1) li1 disjI1 [OF this], of "EndFrame True" "[([], [], EndFrame True)]"]
  obtain r where r: "receive_many sum_crc ''p'' (PartitionId 0) [([], [], EndFrame True)] li1 = [r]"
    by (cases "receive_stream sum_crc ''p'' (PartitionId 0) [] [] (EndFrame True) li1") simp
  have "r = Inl (State ''l2-installer: begin called twice'')" using T unfolding r by simp
  then show ?thesis using T unfolding r by (auto simp: Let_def r simp del: receive_many.simps)
qed

end
