(* ===== verification/Merkle.thy ===== *)
theory Merkle
  imports Aeon_Types
begin

text \<open>
  SHA-512 helpers and the batch Merkle tree: \<open>aeon-crypto/src/hash.rs\<close> and \<open>aeon-crypto/src/merkle.rs\<close>.

  The digest function of the \<open>sha2\<close> crate is a parameter \<open>D\<close> from the concatenated updates to the digest
  bytes; \<open>digest64 D\<close> states that it returns 64 bytes.  A tree is its list of levels, leaves first.  The
  loop that builds the levels is a partial function, so that its termination is a theorem.
\<close>

type_synonym digest = "bytes \<Rightarrow> bytes"

datatype hash512 = Hash512 (hash_bytes: bytes)

definition zero_hash :: hash512 where
  "zero_hash = Hash512 (replicate 64 0)"

definition visit_bytes :: "bytes \<Rightarrow> hash512 option" where
  "visit_bytes v = (if length v \<noteq> 64 then None else Some (Hash512 v))"

definition sha512 :: "digest \<Rightarrow> bytes \<Rightarrow> hash512" where
  "sha512 D data = Hash512 (D data)"

definition sha512_pair :: "digest \<Rightarrow> bytes \<Rightarrow> bytes \<Rightarrow> hash512" where
  "sha512_pair D left right = Hash512 (D (left @ right))"

definition sha512_poh :: "digest \<Rightarrow> hash512 \<Rightarrow> hash512 \<Rightarrow> i64 \<Rightarrow> hash512" where
  "sha512_poh D previous merkle_root timestamp_nanos =
     Hash512 (D (hash_bytes previous @ hash_bytes merkle_root @ u64_to_le timestamp_nanos))"

definition digest64 :: "digest \<Rightarrow> bool" where
  "digest64 D \<longleftrightarrow> (\<forall>x. length (D x) = 64)"

section \<open>Inclusion proofs\<close>

datatype proof_side = SideLeft | SideRight

record proof_step =
  ps_hash :: hash512
  ps_side :: proof_side

record merkle_proof =
  mp_leaf_hash :: hash512
  mp_path :: "proof_step list"
  mp_root :: hash512
  mp_leaf_index :: nat

definition fold_step :: "digest \<Rightarrow> proof_step \<Rightarrow> hash512 \<Rightarrow> hash512" where
  "fold_step D step current =
     (case ps_side step of
        SideLeft \<Rightarrow> sha512_pair D (hash_bytes (ps_hash step)) (hash_bytes current)
      | SideRight \<Rightarrow> sha512_pair D (hash_bytes current) (hash_bytes (ps_hash step)))"

definition proof_verify :: "digest \<Rightarrow> merkle_proof \<Rightarrow> bool" where
  "proof_verify D p \<longleftrightarrow> fold (fold_step D) (mp_path p) (mp_leaf_hash p) = mp_root p"

section \<open>The tree\<close>

type_synonym merkle_tree = "hash512 list list"

definition pad_level :: "hash512 list \<Rightarrow> hash512 list" where
  "pad_level level = (if length level mod 2 \<noteq> 0 then level @ [last level] else level)"

fun pair_level :: "digest \<Rightarrow> hash512 list \<Rightarrow> hash512 list" where
  "pair_level D (a # b # rest) = sha512_pair D (hash_bytes a) (hash_bytes b) # pair_level D rest"
| "pair_level D _ = []"

partial_function (option) build_levels :: "digest \<Rightarrow> merkle_tree \<Rightarrow> hash512 list \<Rightarrow> merkle_tree option" where
  "build_levels D levels current_level =
     (if length current_level = 1 then Some (levels @ [current_level])
      else build_levels D (levels @ [pad_level current_level]) (pair_level D (pad_level current_level)))"

text \<open>The outer option is the loop's termination, the inner one the result of the function.\<close>

definition from_leaves :: "digest \<Rightarrow> hash512 list \<Rightarrow> merkle_tree option option" where
  "from_leaves D leaves = (if leaves = [] then Some None else map_option Some (build_levels D [] leaves))"

definition from_data :: "digest \<Rightarrow> bytes list \<Rightarrow> merkle_tree option option" where
  "from_data D items = (if items = [] then Some None else from_leaves D (map (sha512 D) items))"

definition tree_root :: "merkle_tree \<Rightarrow> hash512" where
  "tree_root levels =
     (if levels = [] then zero_hash else case last levels of [] \<Rightarrow> zero_hash | h # _ \<Rightarrow> h)"

definition leaf_count :: "merkle_tree \<Rightarrow> nat" where
  "leaf_count levels = (case levels of [] \<Rightarrow> 0 | l # _ \<Rightarrow> length l)"

definition tree_height :: "merkle_tree \<Rightarrow> nat" where
  "tree_height levels = length levels"

definition level_step :: "hash512 list \<Rightarrow> nat \<Rightarrow> proof_step list" where
  "level_step level idx =
     (let sibling_idx = (if idx mod 2 = 0 then idx + 1 else idx - 1)
      in if sibling_idx < length level
         then [\<lparr>ps_hash = level ! sibling_idx, ps_side = (if idx mod 2 = 0 then SideRight else SideLeft)\<rparr>]
         else [])"

fun proof_path :: "merkle_tree \<Rightarrow> nat \<Rightarrow> proof_step list" where
  "proof_path [] idx = []"
| "proof_path (level # levels) idx = level_step level idx @ proof_path levels (idx div 2)"

definition tree_proof :: "merkle_tree \<Rightarrow> nat \<Rightarrow> merkle_proof option" where
  "tree_proof levels index =
     (case levels of
        [] \<Rightarrow> None
      | leaves # _ \<Rightarrow>
          if index \<ge> length leaves then None
          else Some \<lparr>mp_leaf_hash = leaves ! index, mp_path = proof_path (butlast levels) index,
                     mp_root = tree_root levels, mp_leaf_index = index\<rparr>)"

section \<open>Building the levels\<close>

text \<open>The specification of the levels over given leaves.\<close>

inductive levels_of :: "digest \<Rightarrow> hash512 list \<Rightarrow> merkle_tree \<Rightarrow> bool" for D where
  single: "levels_of D [h] [[h]]"
| pairs: "length cur > 1 \<Longrightarrow> levels_of D (pair_level D (pad_level cur)) ls \<Longrightarrow> levels_of D cur (pad_level cur # ls)"

inductive_cases levels_of_singleE: "levels_of D [h] ls"
inductive_cases levels_ofE: "levels_of D cur ls"

lemma length_pair_level [simp]: "length (pair_level D xs) = length xs div 2"
  by (induction D xs rule: pair_level.induct) auto

lemma length_pad_level: "length (pad_level xs) = 2 * ((length xs + 1) div 2)"
  by (cases "even (length xs)") (auto simp: pad_level_def elim!: evenE oddE)

lemma pad_level_prefix: "i < length xs \<Longrightarrow> pad_level xs ! i = xs ! i"
  by (simp add: pad_level_def nth_append)

lemma pair_level_nth:
  "i < length xs div 2 \<Longrightarrow>
    pair_level D xs ! i = sha512_pair D (hash_bytes (xs ! (2 * i))) (hash_bytes (xs ! (2 * i + 1)))"
proof (induction D xs arbitrary: i rule: pair_level.induct)
  case (1 D a b rest)
  then show ?case by (cases i) auto
qed auto

lemma build_levels_spec:
  "xs \<noteq> [] \<Longrightarrow> \<exists>ls. build_levels D levels xs = Some (levels @ ls) \<and> levels_of D xs ls"
proof (induction "length xs" arbitrary: xs levels rule: less_induct)
  case less
  show ?case
  proof (cases "length xs = 1")
    case True
    then obtain h where "xs = [h]" by (auto simp: length_Suc_conv)
    then show ?thesis by (simp add: build_levels.simps single)
  next
    case False
    with less.prems have big: "length xs > 1" by (cases xs) auto
    let ?next = "pair_level D (pad_level xs)"
    have len: "length ?next = (length xs + 1) div 2" by (simp add: length_pad_level)
    have "?next \<noteq> []" "length ?next < length xs" using big len by (auto simp flip: length_greater_0_conv)
    then obtain ls where "build_levels D (levels @ [pad_level xs]) ?next = Some ((levels @ [pad_level xs]) @ ls)"
      "levels_of D ?next ls"
      using less.hyps by blast
    then show ?thesis using False big by (simp add: build_levels.simps [of D levels xs] pairs)
  qed
qed

lemma levels_of_shape:
  "levels_of D xs ls \<Longrightarrow> ls \<noteq> [] \<and> length (hd ls) \<ge> length xs \<and> (\<forall>i < length xs. hd ls ! i = xs ! i) \<and> (\<exists>h. last ls = [h])"
  by (induction rule: levels_of.induct) (auto simp: pad_level_prefix, simp add: pad_level_def)

lemmas levels_of_nonempty = levels_of_shape [THEN conjunct1]

lemma levels_of_root: "levels_of D xs ls \<Longrightarrow> tree_root ls = hd (last ls)"
  using levels_of_shape [of D xs ls] by (auto simp: tree_root_def)

lemma from_data_spec:
  "items \<noteq> [] \<Longrightarrow> \<exists>ls. from_data D items = Some (Some ls) \<and> levels_of D (map (sha512 D) items) ls"
  using build_levels_spec [of "map (sha512 D) items" D "[]"] by (auto simp: from_data_def from_leaves_def)

section \<open>Proofs are complete\<close>

lemma fold_level_step:
  assumes "even (length l)" "idx < length l"
  shows "fold (fold_step D) (level_step l idx) (l ! idx) = pair_level D l ! (idx div 2)"
proof (cases "even idx")
  case True
  then have "idx + 1 < length l" using assms by (auto elim!: evenE)
  then show ?thesis using True assms
    by (auto simp: level_step_def fold_step_def pair_level_nth elim!: evenE)
next
  case False
  then obtain k where "idx = 2 * k + 1" by (auto elim: oddE)
  then show ?thesis using assms by (auto simp: level_step_def fold_step_def pair_level_nth)
qed

lemma proof_path_root:
  "levels_of D xs ls \<Longrightarrow> idx < length (hd ls) \<Longrightarrow>
    fold (fold_step D) (proof_path (butlast ls) idx) (hd ls ! idx) = hd (last ls)"
proof (induction arbitrary: idx rule: levels_of.induct)
  case (pairs cur ls)
  note shape = levels_of_shape [OF pairs.hyps(2)]
  have even: "even (length (pad_level cur))" by (simp add: length_pad_level)
  have lt: "idx div 2 < length (pair_level D (pad_level cur))" using pairs.prems even by auto
  then have "hd ls ! (idx div 2) = pair_level D (pad_level cur) ! (idx div 2)" "idx div 2 < length (hd ls)"
    using shape by auto
  then show ?case
    using pairs.IH [of "idx div 2"] pairs.prems shape fold_level_step [OF even, of idx D] by simp
qed simp

text \<open>
  C11: for a non-empty batch the tree is built, and the inclusion proof of every payload verifies against
  the root and carries the hash of that payload.
\<close>

theorem merkle_proofs_verify:
  assumes "items \<noteq> []"
  shows "\<exists>t. from_data D items = Some (Some t) \<and>
    (\<forall>i < length items. \<exists>p. tree_proof t i = Some p \<and> proof_verify D p \<and> mp_root p = tree_root t \<and>
       mp_leaf_index p = i \<and> mp_leaf_hash p = sha512 D (items ! i))"
proof -
  obtain t where t: "from_data D items = Some (Some t)" and lv: "levels_of D (map (sha512 D) items) t"
    using from_data_spec [OF assms] by blast
  note shape = levels_of_shape [OF lv]
  have "\<exists>p. tree_proof t i = Some p \<and> proof_verify D p \<and> mp_root p = tree_root t \<and> mp_leaf_index p = i \<and>
      mp_leaf_hash p = sha512 D (items ! i)" if i: "i < length items" for i
  proof -
    obtain leaves up where ls: "t = leaves # up" using shape by (cases t) auto
    have "i < length leaves" "leaves ! i = sha512 D (items ! i)" using shape i ls by auto
    then show ?thesis
      using proof_path_root [OF lv, of i] levels_of_root [OF lv] unfolding ls
      by (auto simp: tree_proof_def proof_verify_def)
  qed
  then show ?thesis using t by blast
qed

text \<open>A digest that keeps the first 64 bytes, for evaluation.\<close>

definition prefix_digest :: digest where
  "prefix_digest x = take 64 (x @ replicate 64 0)"

lemma prefix_digest64: "digest64 prefix_digest"
  by (auto simp: digest64_def prefix_digest_def)

theorem merkle_proofs_verify_witness:
  "\<exists>t p. from_data prefix_digest [[1], [2], [3]] = Some (Some t) \<and> tree_proof t 2 = Some p \<and>
    proof_verify prefix_digest p \<and> mp_leaf_hash p = sha512 prefix_digest [3]"
proof -
  obtain t where t: "from_data prefix_digest [[1], [2], [3]] = Some (Some t)"
    and all: "\<forall>i < length [[1], [2], [3::u8]]. \<exists>p. tree_proof t i = Some p \<and> proof_verify prefix_digest p \<and>
      mp_root p = tree_root t \<and> mp_leaf_index p = i \<and> mp_leaf_hash p = sha512 prefix_digest ([[1], [2], [3]] ! i)"
    using merkle_proofs_verify [of "[[1], [2], [3]]" prefix_digest] by blast
  show ?thesis using t all [THEN spec, of 2] by auto
qed

section \<open>The root binds the batch\<close>

text \<open>The byte strings hashed while a tree is built, apart from the payloads.\<close>

fun pair_inputs :: "hash512 list \<Rightarrow> bytes list" where
  "pair_inputs (a # b # rest) = (hash_bytes a @ hash_bytes b) # pair_inputs rest"
| "pair_inputs _ = []"

definition tree_inputs :: "merkle_tree \<Rightarrow> bytes list" where
  "tree_inputs levels = concat (map pair_inputs (butlast levels))"

definition hashed :: "digest \<Rightarrow> bytes list \<Rightarrow> bytes list" where
  "hashed D items = items @ (case from_data D items of Some (Some t) \<Rightarrow> tree_inputs t | _ \<Rightarrow> [])"

definition batch_root :: "digest \<Rightarrow> bytes list \<Rightarrow> hash512" where
  "batch_root D items = (case from_data D items of Some (Some t) \<Rightarrow> tree_root t | _ \<Rightarrow> zero_hash)"

definition all64 :: "hash512 list \<Rightarrow> bool" where
  "all64 hs \<longleftrightarrow> (\<forall>h \<in> set hs. length (hash_bytes h) = 64)"

lemma all64_pair_level: "digest64 D \<Longrightarrow> all64 (pair_level D xs)"
  by (induction D xs rule: pair_level.induct) (auto simp: all64_def sha512_pair_def digest64_def)

lemma all64_pad_level: "all64 xs \<Longrightarrow> xs \<noteq> [] \<Longrightarrow> all64 (pad_level xs)"
  by (auto simp: all64_def pad_level_def)

lemma all64_sha512: "digest64 D \<Longrightarrow> all64 (map (sha512 D) items)"
  by (auto simp: all64_def sha512_def digest64_def)

lemma pad_level_inject:
  assumes "length xs = length ys" "pad_level xs = pad_level ys"
  shows "xs = ys"
  using assms by (auto simp: pad_level_def split: if_splits)

lemma pair_level_inject:
  "pair_level D l = pair_level D m \<Longrightarrow> length l = length m \<Longrightarrow> even (length l) \<Longrightarrow> all64 l \<Longrightarrow> all64 m \<Longrightarrow>
    inj_on D (set (pair_inputs l) \<union> set (pair_inputs m)) \<Longrightarrow> l = m"
proof (induction D l arbitrary: m rule: pair_level.induct)
  case (1 D a b rest)
  then obtain a' b' rest' where m: "m = a' # b' # rest'"
    by (cases m rule: pair_inputs.cases) auto
  have eq: "D (hash_bytes a @ hash_bytes b) = D (hash_bytes a' @ hash_bytes b')"
    and rest: "pair_level D rest = pair_level D rest'"
    using "1.prems"(1) m by (auto simp: sha512_pair_def)
  have "hash_bytes a @ hash_bytes b = hash_bytes a' @ hash_bytes b'"
    by (rule inj_onD [OF "1.prems"(6) eq]) (simp_all add: m)
  then have "a = a' \<and> b = b'"
    using "1.prems"(4,5) m by (auto simp: all64_def intro: hash512.expand)
  moreover have "rest = rest'"
    using "1.IH" [OF rest] "1.prems" m by (auto simp: all64_def intro: inj_on_subset)
  ultimately show ?case using m by simp
qed auto

lemma levels_of_bind:
  "levels_of D xs ls \<Longrightarrow> levels_of D ys ms \<Longrightarrow> length xs = length ys \<Longrightarrow> digest64 D \<Longrightarrow> all64 xs \<Longrightarrow> all64 ys \<Longrightarrow>
    inj_on D (set (tree_inputs ls) \<union> set (tree_inputs ms)) \<Longrightarrow> hd (last ls) = hd (last ms) \<Longrightarrow> xs = ys"
proof (induction arbitrary: ys ms rule: levels_of.induct)
  case (single h)
  from single.prems obtain h' where "ys = [h']" by (cases ys) auto
  then show ?case using single.prems by (auto elim: levels_of_singleE)
next
  case (pairs cur ls)
  from pairs.prems(1) pairs.hyps(1) pairs.prems(2)
  obtain ms' where ms: "ms = pad_level ys # ms'" "levels_of D (pair_level D (pad_level ys)) ms'" "length ys > 1"
    by (cases rule: levels_of.cases) auto
  have nonempty: "ls \<noteq> []" "ms' \<noteq> []" using levels_of_nonempty pairs.hyps(2) ms(2) by blast+
  let ?U = "set (tree_inputs (pad_level cur # ls)) \<union> set (tree_inputs ms)"
  have inputs: "set (pair_inputs (pad_level cur)) \<union> set (pair_inputs (pad_level ys)) \<subseteq> ?U"
    "set (tree_inputs ls) \<union> set (tree_inputs ms') \<subseteq> ?U"
    using ms(1) nonempty by (auto simp: tree_inputs_def)
  have "pair_level D (pad_level cur) = pair_level D (pad_level ys)"
  proof (rule pairs.IH [OF ms(2)])
    show "length (pair_level D (pad_level cur)) = length (pair_level D (pad_level ys))"
      using pairs.prems(2) by (simp add: length_pad_level)
    show "inj_on D (set (tree_inputs ls) \<union> set (tree_inputs ms'))"
      using inj_on_subset [OF pairs.prems(6) inputs(2)] .
    show "hd (last ls) = hd (last ms')" using pairs.prems(7) ms(1) nonempty by simp
  qed (use pairs.prems(3) all64_pair_level in auto)
  then have "pad_level cur = pad_level ys"
  proof (rule pair_level_inject)
    show "length (pad_level cur) = length (pad_level ys)" "even (length (pad_level cur))"
      using pairs.prems(2) by (simp_all add: length_pad_level)
    show "all64 (pad_level cur)" "all64 (pad_level ys)"
      using pairs.prems(4,5) pairs.hyps(1) ms(3) by (auto intro!: all64_pad_level)
    show "inj_on D (set (pair_inputs (pad_level cur)) \<union> set (pair_inputs (pad_level ys)))"
      using inj_on_subset [OF pairs.prems(6) inputs(1)] .
  qed
  then show ?case using pad_level_inject pairs.prems(2) by blast
qed

text \<open>Two batches of the same size with the same root are equal, or exhibit a collision of the digest.\<close>

lemma batch_root_binds:
  assumes "batch_root D xs = batch_root D ys" "length xs = length ys" "digest64 D"
    and inj: "inj_on D (set (hashed D xs) \<union> set (hashed D ys))"
  shows "xs = ys"
proof (cases "xs = []")
  case False
  then obtain ls where ls: "from_data D xs = Some (Some ls)" "levels_of D (map (sha512 D) xs) ls"
    using from_data_spec by blast
  have "ys \<noteq> []" using False assms(2) by auto
  then obtain ms where ms: "from_data D ys = Some (Some ms)" "levels_of D (map (sha512 D) ys) ms"
    using from_data_spec by blast
  have "map (sha512 D) xs = map (sha512 D) ys"
  proof (rule levels_of_bind [OF ls(2) ms(2)])
    show "inj_on D (set (tree_inputs ls) \<union> set (tree_inputs ms))"
      by (rule inj_on_subset [OF inj]) (auto simp: hashed_def ls ms)
    show "hd (last ls) = hd (last ms)"
      using assms(1) by (simp add: batch_root_def ls ms levels_of_root [OF ls(2)] levels_of_root [OF ms(2)])
  qed (use assms in \<open>auto intro: all64_sha512\<close>)
  moreover have "inj_on (sha512 D) (set xs \<union> set ys)"
    using inj by (auto simp: inj_on_def sha512_def hashed_def)
  ultimately show ?thesis using map_inj_on by (metis Un_commute)
qed (use assms in auto)

section \<open>Padding loses the size\<close>

lemma levels_of_fun: "levels_of D xs ls \<Longrightarrow> levels_of D xs ms \<Longrightarrow> ls = ms"
proof (induction arbitrary: ms rule: levels_of.induct)
  case (single h)
  then show ?case by (auto elim: levels_of_singleE)
next
  case (pairs cur ls)
  from pairs.prems pairs.hyps(1) show ?case
    by (cases rule: levels_of.cases) (auto dest: pairs.IH)
qed

lemma padded_batch_same_tree:
  assumes "odd (length xs)" "length xs > 1"
  shows "from_data D (xs @ [last xs]) = from_data D xs"
proof -
  let ?f = "map (sha512 D)"
  have ne: "xs \<noteq> []" "xs @ [last xs] \<noteq> []" using assms by auto
  obtain ls where ls: "from_data D xs = Some (Some ls)" "levels_of D (?f xs) ls"
    using from_data_spec [OF ne(1)] by blast
  obtain ms where ms: "from_data D (xs @ [last xs]) = Some (Some ms)" "levels_of D (?f (xs @ [last xs])) ms"
    using from_data_spec [OF ne(2)] by blast
  have pad: "pad_level (?f (xs @ [last xs])) = pad_level (?f xs)"
    using assms ne by (simp add: pad_level_def last_map odd_iff_mod_2_eq_one)
  from ls(2) assms(2) obtain ls' where "ls = pad_level (?f xs) # ls'" "levels_of D (pair_level D (pad_level (?f xs))) ls'"
    by (cases rule: levels_of.cases) auto
  moreover from ms(2) assms(2) obtain ms' where "ms = pad_level (?f (xs @ [last xs])) # ms'"
    "levels_of D (pair_level D (pad_level (?f (xs @ [last xs])))) ms'"
    by (cases rule: levels_of.cases) auto
  ultimately show ?thesis using levels_of_fun pad ls(1) ms(1) by metis
qed

lemma leaf_count_counts_padding:
  assumes "from_data D items = Some (Some t)" "odd (length items)" "length items > 1"
  shows "leaf_count t = length items + 1"
proof -
  obtain ls where "from_data D items = Some (Some ls)" "levels_of D (map (sha512 D) items) ls"
    using from_data_spec [of items D] assms(3) by fastforce
  then have "levels_of D (map (sha512 D) items) t" using assms(1) by simp
  then show ?thesis using assms(2,3)
    by (cases rule: levels_of.cases) (auto simp: leaf_count_def pad_level_def odd_iff_mod_2_eq_one)
qed

end
