(* ===== verification/Mmr.thy ===== *)
theory Mmr
  imports Merkle
begin

text \<open>
  The Merkle mountain range of \<open>aeon-crypto/src/mmr.rs\<close>: the flat node vector, appending with its merges,
  the peak positions and the bagged root.

  Positions are natural numbers and the leaf count is the \<open>u64\<close> of the source.  An index out of range or a
  subtraction below zero is \<open>None\<close>, the panic of the source.  The specification is a forest of perfect
  trees, one for each bit of the leaf count, in post-order.
\<close>

section \<open>Bit counting\<close>

fun bit_length :: "nat \<Rightarrow> nat" where
  "bit_length n = (if n = 0 then 0 else 1 + bit_length (n div 2))"

declare bit_length.simps [simp del]

fun trailing_zeros_nat :: "nat \<Rightarrow> nat" where
  "trailing_zeros_nat n = (if n = 0 \<or> odd n then 0 else 1 + trailing_zeros_nat (n div 2))"

declare trailing_zeros_nat.simps [simp del]

fun count_ones_nat :: "nat \<Rightarrow> nat" where
  "count_ones_nat n = (if n = 0 then 0 else n mod 2 + count_ones_nat (n div 2))"

declare count_ones_nat.simps [simp del]

definition trailing_zeros :: "u64 \<Rightarrow> nat" where
  "trailing_zeros w = (if w = 0 then 64 else trailing_zeros_nat (unat w))"

definition leading_zeros :: "u64 \<Rightarrow> nat" where
  "leading_zeros w = 64 - bit_length (unat w)"

definition count_ones :: "u64 \<Rightarrow> nat" where
  "count_ones w = count_ones_nat (unat w)"

section \<open>The node vector\<close>

record mmr =
  mmr_nodes :: "hash512 list"
  mmr_leaf_count :: u64

definition mmr_new :: mmr where
  "mmr_new = \<lparr>mmr_nodes = [], mmr_leaf_count = 0\<rparr>"

fun mmr_merge :: "digest \<Rightarrow> nat \<Rightarrow> nat \<Rightarrow> hash512 list \<Rightarrow> nat \<Rightarrow> hash512 list option" where
  "mmr_merge D h 0 nodes right_pos = Some nodes"
| "mmr_merge D h (Suc merges) nodes right_pos =
     (let subtree_size = 2 ^ (h + 1) - 1
      in if right_pos < subtree_size then None
         else let left_pos = right_pos - subtree_size;
                  parent = sha512_pair D (hash_bytes (nodes ! left_pos)) (hash_bytes (nodes ! right_pos));
                  nodes = nodes @ [parent]
              in mmr_merge D (h + 1) merges nodes (length nodes - 1))"

definition mmr_append :: "digest \<Rightarrow> hash512 \<Rightarrow> mmr \<Rightarrow> (nat \<times> mmr) option" where
  "mmr_append D leaf m =
     (let leaf_pos = length (mmr_nodes m); nodes = mmr_nodes m @ [leaf]; n = mmr_leaf_count m + 1
      in case mmr_merge D 0 (trailing_zeros n) nodes leaf_pos of
           None \<Rightarrow> None
         | Some nodes \<Rightarrow> Some (leaf_pos, \<lparr>mmr_nodes = nodes, mmr_leaf_count = n\<rparr>))"

fun peaks_loop :: "nat \<Rightarrow> nat \<Rightarrow> nat \<Rightarrow> nat list" where
  "peaks_loop height remaining offset =
     (let tree_leaves = 2 ^ height; tree_nodes = 2 * tree_leaves - 1;
          rest = (\<lambda>r off. case height of 0 \<Rightarrow> [] | Suc h \<Rightarrow> peaks_loop h r off)
      in if remaining \<ge> tree_leaves
         then (offset + tree_nodes - 1) # rest (remaining - tree_leaves) (offset + tree_nodes)
         else rest remaining offset)"

declare peaks_loop.simps [simp del]

definition peaks :: "mmr \<Rightarrow> nat list" where
  "peaks m = (if mmr_leaf_count m = 0 then []
              else peaks_loop (63 - leading_zeros (mmr_leaf_count m)) (unat (mmr_leaf_count m)) 0)"

definition mmr_root :: "digest \<Rightarrow> mmr \<Rightarrow> hash512 option" where
  "mmr_root D m =
     (let ps = peaks m; ns = mmr_nodes m
      in if ps = [] then Some zero_hash
         else if \<exists>p \<in> set ps. p \<ge> length ns then None
         else Some (fold (\<lambda>p h. sha512_pair D (hash_bytes (ns ! p)) (hash_bytes h)) (tl (rev ps)) (ns ! last ps)))"

section \<open>Forests of perfect trees\<close>

datatype mtree = MLeaf hash512 | MNode mtree mtree

fun tree_hash :: "digest \<Rightarrow> mtree \<Rightarrow> hash512" where
  "tree_hash D (MLeaf h) = h"
| "tree_hash D (MNode l r) = sha512_pair D (hash_bytes (tree_hash D l)) (hash_bytes (tree_hash D r))"

fun postorder :: "digest \<Rightarrow> mtree \<Rightarrow> hash512 list" where
  "postorder D (MLeaf h) = [h]"
| "postorder D (MNode l r) = postorder D l @ postorder D r @ [tree_hash D (MNode l r)]"

fun leaves :: "mtree \<Rightarrow> hash512 list" where
  "leaves (MLeaf h) = [h]"
| "leaves (MNode l r) = leaves l @ leaves r"

fun perfect :: "nat \<Rightarrow> mtree \<Rightarrow> bool" where
  "perfect h (MLeaf _) \<longleftrightarrow> h = 0"
| "perfect h (MNode l r) \<longleftrightarrow> (case h of 0 \<Rightarrow> False | Suc k \<Rightarrow> perfect k l \<and> perfect k r)"

text \<open>\<open>forest h n ts\<close>: the trees, smallest first, are perfect and have the heights \<open>h + i\<close> of the bits \<open>i\<close> of \<open>n\<close>.\<close>

inductive forest :: "nat \<Rightarrow> nat \<Rightarrow> mtree list \<Rightarrow> bool" where
  forest_empty: "forest h 0 []"
| forest_even: "n > 0 \<Longrightarrow> forest (Suc h) n ts \<Longrightarrow> forest h (2 * n) ts"
| forest_odd: "perfect h t \<Longrightarrow> forest (Suc h) n ts \<Longrightarrow> forest h (2 * n + 1) (t # ts)"

text \<open>Adding a tree of the smallest height carries through the trees of equal height.\<close>

fun add_tree :: "nat \<Rightarrow> mtree \<Rightarrow> mtree list \<Rightarrow> mtree list" where
  "add_tree n t ts =
     (if even n then t # ts
      else case ts of [] \<Rightarrow> [t] | u # us \<Rightarrow> add_tree (n div 2) (MNode u t) us)"

declare add_tree.simps [simp del]

definition flatten :: "digest \<Rightarrow> mtree list \<Rightarrow> hash512 list" where
  "flatten D ts = concat (map (postorder D) (rev ts))"

definition forest_leaves :: "mtree list \<Rightarrow> hash512 list" where
  "forest_leaves ts = concat (map leaves (rev ts))"

definition mmr_repr :: "digest \<Rightarrow> mmr \<Rightarrow> mtree list \<Rightarrow> bool" where
  "mmr_repr D m ts \<longleftrightarrow> forest 0 (unat (mmr_leaf_count m)) ts \<and> mmr_nodes m = flatten D ts"

lemma flatten_simps [simp]: "flatten D [] = []" "flatten D (t # ts) = flatten D ts @ postorder D t"
  by (simp_all add: flatten_def)

lemma postorder_last: "postorder D t \<noteq> [] \<and> last (postorder D t) = tree_hash D t"
  by (cases t) auto

lemma add_tree_even: "even n \<Longrightarrow> add_tree n t ts = t # ts"
  by (simp add: add_tree.simps [of n])

lemma add_tree_odd: "odd n \<Longrightarrow> add_tree n t (u # us) = add_tree (n div 2) (MNode u t) us"
  by (simp add: add_tree.simps [of n])

lemma perfect_size: "perfect h t \<Longrightarrow> Suc (length (postorder D t)) = 2 * 2 ^ h"
proof (induction t arbitrary: h)
  case (MNode l r)
  then obtain k where "h = Suc k" "perfect k l" "perfect k r" by (auto split: nat.splits)
  then show ?case using MNode.IH [of k] by simp
qed simp

lemma forest_zero: "forest h 0 ts \<longleftrightarrow> ts = []"
  by (auto elim: forest.cases intro: forest_empty)

lemma forest_double: "forest h (2 * n) ts \<longleftrightarrow> forest (Suc h) n ts"
proof (cases "n = 0")
  case False
  then show ?thesis by (auto intro: forest_even) (erule forest.cases, auto, presburger)
qed (simp add: forest_zero)

lemma forest_double_Suc: "forest h (2 * n + 1) ts \<longleftrightarrow> (\<exists>t us. ts = t # us \<and> perfect h t \<and> forest (Suc h) n us)"
proof
  assume "forest h (2 * n + 1) ts"
  then show "\<exists>t us. ts = t # us \<and> perfect h t \<and> forest (Suc h) n us"
    by (rule forest.cases) (auto, presburger)
qed (auto intro: forest_odd [simplified])

lemma forest_halves [consumes 1, case_names even odd]:
  assumes "forest h n ts"
  obtains k where "n = 2 * k" "forest (Suc h) k ts"
        | k t us where "n = 2 * k + 1" "ts = t # us" "perfect h t" "forest (Suc h) k us"
proof (cases "even n")
  case True
  then obtain k where "n = 2 * k" by blast
  then show ?thesis using that(1) assms forest_double by blast
next
  case False
  then obtain k where "n = 2 * k + 1" by (auto elim: oddE)
  then show ?thesis using that(2) assms forest_double_Suc by blast
qed

lemma forest_add_tree:
  "forest h n ts \<Longrightarrow> perfect h t \<Longrightarrow>
    forest h (n + 1) (add_tree n t ts) \<and> forest_leaves (add_tree n t ts) = forest_leaves ts @ leaves t"
proof (induction n arbitrary: h t ts rule: less_induct)
  case (less n)
  from less.prems(1) show ?case
  proof (cases rule: forest_halves)
    case (even k)
    then show ?thesis using less.prems(2) forest_double_Suc [of h k "t # ts"]
      by (simp add: add_tree_even forest_leaves_def)
  next
    case (odd k u us)
    have "forest (Suc h) (k + 1) (add_tree k (MNode u t) us) \<and>
        forest_leaves (add_tree k (MNode u t) us) = forest_leaves us @ leaves (MNode u t)"
      using less.IH [of k "Suc h" us "MNode u t"] odd less.prems(2) by simp
    then show ?thesis
      using odd forest_double [of h "k + 1"] by (simp add: add_tree_odd forest_leaves_def)
  qed
qed

lemma trailing_zeros_Suc:
  "trailing_zeros_nat (2 * k + 1) = 0" "trailing_zeros_nat (2 * k + 2) = Suc (trailing_zeros_nat (k + 1))"
  by (subst trailing_zeros_nat.simps, simp)+

lemma nth_last_append: "xs \<noteq> [] \<Longrightarrow> (xs @ ys) ! (length xs - 1) = last xs"
  by (simp add: nth_append last_conv_nth)

lemma merge_carries:
  "forest h n ts \<Longrightarrow> perfect h t \<Longrightarrow>
    mmr_merge D h (trailing_zeros_nat (n + 1)) (flatten D ts @ postorder D t) (length (flatten D ts @ postorder D t) - 1) =
      Some (flatten D (add_tree n t ts))"
proof (induction n arbitrary: h t ts rule: less_induct)
  case (less n)
  from less.prems(1) show ?case
  proof (cases rule: forest_halves)
    case (even k)
    then show ?thesis by (simp add: add_tree_even trailing_zeros_Suc(1) [simplified])
  next
    case (odd k u us)
    let ?nodes = "flatten D ts @ postorder D t"
    let ?size = "2 ^ (h + 1) - 1 :: nat"
    have size: "length (postorder D t) = ?size" "length (postorder D u) = ?size"
      using perfect_size [OF less.prems(2), of D] perfect_size [OF odd(3), of D] by simp_all
    have nodes: "?nodes = flatten D us @ postorder D u @ postorder D t" using odd by simp
    note post = postorder_last [of D u] postorder_last [of D t]
    have left: "?nodes ! (length ?nodes - 1 - ?size) = tree_hash D u"
    proof -
      have "length ?nodes - 1 - ?size = length (flatten D us @ postorder D u) - 1"
        unfolding nodes size(1) [symmetric] by simp
      then have "?nodes ! (length ?nodes - 1 - ?size) = last (flatten D us @ postorder D u)"
        using post(1) nth_last_append [of "flatten D us @ postorder D u" "postorder D t"] by (simp add: nodes)
      then show ?thesis using post(1) by simp
    qed
    have right: "?nodes ! (length ?nodes - 1) = tree_hash D t"
      using post(2) nth_last_append [of ?nodes "[]"] by simp
    have big: "\<not> length ?nodes - 1 < ?size" using post(1) by (simp add: nodes size)
    have step: "mmr_merge D h (trailing_zeros_nat (n + 1)) ?nodes (length ?nodes - 1) =
        mmr_merge D (Suc h) (trailing_zeros_nat (k + 1)) (?nodes @ [tree_hash D (MNode u t)]) (length ?nodes)"
      using odd(1) left right big by (simp add: trailing_zeros_Suc(2) [simplified] Let_def del: power_Suc)
    have "mmr_merge D (Suc h) (trailing_zeros_nat (k + 1)) (flatten D us @ postorder D (MNode u t))
        (length (flatten D us @ postorder D (MNode u t)) - 1) = Some (flatten D (add_tree k (MNode u t) us))"
      using less.IH [of k "Suc h" us "MNode u t"] odd less.prems(2) by simp
    then show ?thesis using odd step by (simp add: add_tree_odd add.assoc)
  qed
qed

lemma trailing_zeros_unat: "w \<noteq> 0 \<Longrightarrow> trailing_zeros w = trailing_zeros_nat (unat w)"
  by (simp add: trailing_zeros_def)

lemma mmr_append_repr:
  assumes "mmr_repr D m ts" "unat (mmr_leaf_count m) + 1 < 2 ^ 64"
  shows "\<exists>m'. mmr_append D leaf m = Some (length (mmr_nodes m), m') \<and>
    mmr_leaf_count m' = mmr_leaf_count m + 1 \<and> mmr_repr D m' (add_tree (unat (mmr_leaf_count m)) (MLeaf leaf) ts)"
proof -
  let ?n = "unat (mmr_leaf_count m)"
  have count: "unat (mmr_leaf_count m + 1) = ?n + 1"
    using assms(2) by (simp add: unat_plus_simple word_le_nat_alt unat_word_ariths)
  then have tz: "trailing_zeros (mmr_leaf_count m + 1) = trailing_zeros_nat (?n + 1)"
    by (subst trailing_zeros_unat) auto
  have forest: "forest 0 ?n ts" and nodes: "mmr_nodes m = flatten D ts" using assms(1) by (auto simp: mmr_repr_def)
  have "mmr_merge D 0 (trailing_zeros_nat (?n + 1)) (mmr_nodes m @ [leaf]) (length (mmr_nodes m)) =
      Some (flatten D (add_tree ?n (MLeaf leaf) ts))"
    using merge_carries [OF forest, of "MLeaf leaf" D] by (simp add: nodes)
  then show ?thesis
    using forest_add_tree [OF forest, of "MLeaf leaf"]
    by (simp add: mmr_append_def tz Let_def mmr_repr_def count [simplified])
qed

section \<open>Peaks and the bagged root\<close>

fun peak_positions :: "digest \<Rightarrow> nat \<Rightarrow> mtree list \<Rightarrow> nat list" where
  "peak_positions D off [] = []"
| "peak_positions D off (t # ts) =
     (off + length (postorder D t) - 1) # peak_positions D (off + length (postorder D t)) ts"

fun bag :: "digest \<Rightarrow> hash512 list \<Rightarrow> hash512" where
  "bag D [] = zero_hash"
| "bag D [h] = h"
| "bag D (h # hs) = sha512_pair D (hash_bytes h) (hash_bytes (bag D hs))"

lemma forest_top:
  "forest h n ts \<Longrightarrow> 2 ^ H \<le> n \<Longrightarrow> n < 2 ^ (H + 1) \<Longrightarrow>
    \<exists>us t. ts = us @ [t] \<and> perfect (h + H) t \<and> forest h (n - 2 ^ H) us"
proof (induction H arbitrary: h n ts)
  case 0
  from "0.prems"(1) show ?case
    using "0.prems"(2,3) by (cases rule: forest_halves) (auto simp: forest_zero)
next
  case (Suc H)
  from Suc.prems(1) show ?case
  proof (cases rule: forest_halves)
    case (even k)
    then obtain us t where "ts = us @ [t]" "perfect (Suc h + H) t" "forest (Suc h) (k - 2 ^ H) us"
      using Suc.IH [of "Suc h" k ts] Suc.prems by auto
    then show ?thesis using even forest_double [of h "k - 2 ^ H" us] by (auto simp: diff_mult_distrib2)
  next
    case (odd k u us')
    then obtain us t where *: "us' = us @ [t]" "perfect (Suc h + H) t" "forest (Suc h) (k - 2 ^ H) us"
      using Suc.IH [of "Suc h" k us'] Suc.prems by fastforce
    have "2 * (k - 2 ^ H) + 1 = n - 2 ^ Suc H" using odd(1) Suc.prems by simp
    then show ?thesis
      using * odd forest_double_Suc [of h "k - 2 ^ H" "u # us"] by (intro exI [of _ "u # us"] exI [of _ t]) simp
  qed
qed

lemma peaks_loop_forest:
  "forest 0 n ts \<Longrightarrow> n < 2 ^ (H + 1) \<Longrightarrow> peaks_loop H n off = peak_positions D off (rev ts)"
proof (induction H arbitrary: n ts off)
  case 0
  then have "n = 0 \<or> n = 1" by auto
  then show ?case
  proof
    assume n: "n = 1"
    then obtain t where "ts = [t]" "perfect 0 t" using forest_top [of 0 n ts 0] 0 by (auto simp: forest_zero)
    then show ?thesis using n perfect_size [of 0 t D] by (simp add: peaks_loop.simps)
  qed (use 0 in \<open>simp add: forest_zero peaks_loop.simps\<close>)
next
  case (Suc H)
  show ?case
  proof (cases "2 ^ Suc H \<le> n")
    case True
    then obtain us t where ts: "ts = us @ [t]" "perfect (Suc H) t" "forest 0 (n - 2 ^ Suc H) us"
      using forest_top [OF Suc.prems(1) True] Suc.prems(2) by auto
    have size: "length (postorder D t) = 2 * 2 ^ Suc H - 1" using perfect_size [OF ts(2), of D] by simp
    have "peaks_loop H (n - 2 ^ Suc H) (off + (2 * 2 ^ Suc H - 1)) =
        peak_positions D (off + (2 * 2 ^ Suc H - 1)) (rev us)"
      using Suc.IH [OF ts(3)] Suc.prems(2) by simp
    then show ?thesis
      using True ts(1) by (subst peaks_loop.simps) (simp add: size Let_def del: power_Suc)
  next
    case False
    then show ?thesis using Suc.IH [OF Suc.prems(1)] by (subst peaks_loop.simps) (simp add: Let_def del: power_Suc)
  qed
qed

lemma bit_length_bound: "n < 2 ^ bit_length n"
  by (induction n rule: bit_length.induct) (subst bit_length.simps, auto)

lemma bit_length_le: "n < 2 ^ k \<Longrightarrow> bit_length n \<le> k"
proof (induction k arbitrary: n)
  case (Suc k)
  then show ?case using Suc.IH [of "n div 2"] by (subst bit_length.simps) auto
qed (simp add: bit_length.simps)

lemma top_height:
  assumes "w \<noteq> 0"
  shows "unat w < 2 ^ (63 - leading_zeros w + 1)"
proof -
  have "unat w > 0" using assms by (simp add: unat_gt_0)
  moreover have "bit_length (unat w) \<le> 64" using unat_u64_less [of w] by (intro bit_length_le) simp
  ultimately have "63 - leading_zeros w + 1 = bit_length (unat w)"
    using bit_length.simps [of "unat w"] by (simp add: leading_zeros_def)
  then show ?thesis using bit_length_bound by simp
qed

lemma peaks_repr:
  assumes "mmr_repr D m ts"
  shows "peaks m = peak_positions D 0 (rev ts)"
proof (cases "mmr_leaf_count m = 0")
  case True
  then show ?thesis using assms by (simp add: peaks_def mmr_repr_def forest_zero)
next
  case False
  let ?n = "unat (mmr_leaf_count m)"
  have "?n < 2 ^ (63 - leading_zeros (mmr_leaf_count m) + 1)" by (rule top_height [OF False])
  then show ?thesis
    using peaks_loop_forest [of ?n ts _ 0 D] assms False by (simp add: peaks_def mmr_repr_def)
qed

lemma peak_positions_hash:
  "map ((!) (pre @ concat (map (postorder D) fs))) (peak_positions D (length pre) fs) = map (tree_hash D) fs \<and>
    (\<forall>p \<in> set (peak_positions D (length pre) fs). p < length pre + length (concat (map (postorder D) fs)))"
proof (induction fs arbitrary: pre)
  case (Cons t fs)
  have "(pre @ postorder D t @ concat (map (postorder D) fs)) ! (length pre + length (postorder D t) - 1) = tree_hash D t"
    using nth_last_append [of "pre @ postorder D t" "concat (map (postorder D) fs)"] postorder_last [of D t] by simp
  then show ?case
    using Cons.IH [of "pre @ postorder D t"] postorder_last [of D t]
    by (cases "postorder D t") (auto simp: add.assoc)
qed simp

lemma fold_bag: "hs \<noteq> [] \<Longrightarrow> fold (\<lambda>g h. sha512_pair D (hash_bytes g) (hash_bytes h)) (tl (rev hs)) (last hs) = bag D hs"
  by (induction D hs rule: bag.induct) auto

lemma mmr_root_repr:
  assumes "mmr_repr D m ts"
  shows "mmr_root D m = Some (bag D (map (tree_hash D) (rev ts)))"
proof (cases "ts = []")
  case True
  then show ?thesis using peaks_repr [OF assms] by (simp add: mmr_root_def)
next
  case False
  let ?ps = "peak_positions D 0 (rev ts)" and ?f = "\<lambda>g h. sha512_pair D (hash_bytes g) (hash_bytes h)"
  have ps: "peaks m = ?ps" by (rule peaks_repr [OF assms])
  have nodes: "mmr_nodes m = concat (map (postorder D) (rev ts))" using assms by (simp add: mmr_repr_def flatten_def)
  have hash: "map ((!) (mmr_nodes m)) ?ps = map (tree_hash D) (rev ts)" and "\<forall>p \<in> set ?ps. p < length (mmr_nodes m)"
    using peak_positions_hash [of "[]" D "rev ts"] by (simp_all add: nodes)
  moreover have ne: "?ps \<noteq> []" using hash False by auto
  moreover have "fold (\<lambda>p h. ?f (mmr_nodes m ! p) h) (tl (rev ?ps)) (mmr_nodes m ! last ?ps) =
      fold ?f (tl (rev (map ((!) (mmr_nodes m)) ?ps))) (last (map ((!) (mmr_nodes m)) ?ps))"
    using ne by (simp add: fold_map last_map rev_map map_tl comp_def flip: map_tl)
  ultimately show ?thesis
    using fold_bag [of "map (tree_hash D) (rev ts)" D] False
    by (auto simp: mmr_root_def ps Let_def hash)
qed

text \<open>Appending a sequence of leaves.\<close>

fun mmr_extend :: "digest \<Rightarrow> hash512 list \<Rightarrow> mmr \<Rightarrow> mmr option" where
  "mmr_extend D [] m = Some m"
| "mmr_extend D (h # hs) m = Option.bind (mmr_append D h m) (\<lambda>(_, m). mmr_extend D hs m)"

lemma mmr_extend_repr:
  "mmr_repr D m ts \<Longrightarrow> unat (mmr_leaf_count m) + length hs < 2 ^ 64 \<Longrightarrow>
    \<exists>m' ts'. mmr_extend D hs m = Some m' \<and> mmr_repr D m' ts' \<and> forest_leaves ts' = forest_leaves ts @ hs \<and>
      unat (mmr_leaf_count m') = unat (mmr_leaf_count m) + length hs"
proof (induction hs arbitrary: m ts)
  case (Cons h hs)
  let ?n = "unat (mmr_leaf_count m)"
  let ?ts = "add_tree ?n (MLeaf h) ts"
  obtain m1 where m1: "mmr_append D h m = Some (length (mmr_nodes m), m1)" "mmr_leaf_count m1 = mmr_leaf_count m + 1"
    "mmr_repr D m1 ?ts"
    using mmr_append_repr [OF Cons.prems(1)] Cons.prems(2) by auto
  have count: "unat (mmr_leaf_count m1) = ?n + 1"
    using Cons.prems(2) m1(2) by (simp add: unat_word_ariths)
  have leaves: "forest_leaves ?ts = forest_leaves ts @ [h]"
    using forest_add_tree [of 0 ?n ts "MLeaf h"] Cons.prems(1) by (simp add: mmr_repr_def)
  show ?case using Cons.IH [OF m1(3)] Cons.prems(2) count leaves m1(1) by fastforce
qed fastforce

text \<open>
  C10: appending leaves to an empty range never panics, and the node vector is the post-order of a forest
  of perfect Merkle trees over these leaves in order, one tree for each bit of their number; the range
  reports their number, and its root bags the roots of the trees from the largest to the smallest.
\<close>

theorem mmr_refines_forest:
  assumes "length hs < 2 ^ 64"
  shows "\<exists>m ts. mmr_extend D hs mmr_new = Some m \<and> forest 0 (length hs) ts \<and> forest_leaves ts = hs \<and>
    mmr_nodes m = flatten D ts \<and> unat (mmr_leaf_count m) = length hs \<and>
    mmr_root D m = Some (bag D (map (tree_hash D) (rev ts)))"
proof -
  have "mmr_repr D mmr_new []" by (simp add: mmr_repr_def mmr_new_def forest_zero)
  then obtain m ts where "mmr_extend D hs mmr_new = Some m" "mmr_repr D m ts" "forest_leaves ts = hs"
    "unat (mmr_leaf_count m) = length hs"
    using mmr_extend_repr [of D mmr_new "[]" hs] assms by (auto simp: mmr_new_def forest_leaves_def)
  then show ?thesis using mmr_root_repr [of D m ts] by (auto simp: mmr_repr_def)
qed

theorem mmr_refines_forest_witness:
  "\<exists>m ts. mmr_extend prefix_digest [zero_hash, zero_hash, zero_hash] mmr_new = Some m \<and> forest 0 3 ts \<and>
    forest_leaves ts = [zero_hash, zero_hash, zero_hash] \<and> mmr_nodes m = flatten prefix_digest ts"
  using mmr_refines_forest [of "[zero_hash, zero_hash, zero_hash]" prefix_digest]
  by (auto simp: numeral_3_eq_3 simp del: mmr_extend.simps)

section \<open>The peak count\<close>

lemma peaks_loop_count: "n < 2 ^ (H + 1) \<Longrightarrow> length (peaks_loop H n off) = count_ones_nat n"
proof -
  assume n: "n < 2 ^ (H + 1)"
  have "\<exists>ts. forest h k ts \<and> length ts = count_ones_nat k" for h k
  proof (induction k arbitrary: h rule: count_ones_nat.induct)
    case (1 k)
    show ?case
    proof (cases "k = 0")
      case False
      then obtain ts where ts: "forest (Suc h) (k div 2) ts" "length ts = count_ones_nat (k div 2)"
        using 1 by blast
      obtain t where t: "perfect h t"
      proof -
        have "\<exists>t. perfect h t" by (induction h) (auto intro: exI [of _ "MLeaf _"] exI [of _ "MNode _ _"])
        then show ?thesis using that by blast
      qed
      show ?thesis
      proof (cases "even k")
        case True
        then show ?thesis using False ts forest_double [of h "k div 2"] count_ones_nat.simps [of k] by auto
      next
        case odd: False
        then have "k = 2 * (k div 2) + 1" by presburger
        then have "forest h k (t # ts)" using forest_double_Suc [of h "k div 2" "t # ts"] ts t by metis
        then show ?thesis using False odd ts count_ones_nat.simps [of k] by (intro exI [of _ "t # ts"]) (simp add: odd_iff_mod_2_eq_one)
      qed
    qed (auto simp: forest_zero count_ones_nat.simps)
  qed
  then obtain ts where "forest 0 n ts" "length ts = count_ones_nat n" by blast
  moreover have "length (peak_positions D off fs) = length fs" for D off fs
    by (induction fs arbitrary: off) auto
  ultimately show ?thesis using peaks_loop_forest [OF \<open>forest 0 n ts\<close> n, of off undefined] by simp
qed

text \<open>The number of peaks is a function of the leaf count alone, whatever the nodes are.\<close>

lemma peaks_count: "length (peaks m) = count_ones (mmr_leaf_count m)"
proof (cases "mmr_leaf_count m = 0")
  case False
  let ?n = "unat (mmr_leaf_count m)"
  show ?thesis
    using False peaks_loop_count [OF top_height [OF False]] by (simp add: peaks_def count_ones_def)
qed (simp add: peaks_def count_ones_def count_ones_nat.simps)

end
