(* ===== verification/Poh_Chain.thy ===== *)
theory Poh_Chain
  imports Mmr Aeon_Maps
begin

text \<open>
  Proof of History: the per-partition hash chain of \<open>aeon-crypto/src/poh.rs\<close>, the signed roots of
  \<open>aeon-crypto/src/signing.rs\<close>, and the installation of a transferred chain in
  \<open>aeon-engine/src/partition_install.rs\<close>.

  The digest and the Ed25519 operations of \<open>ed25519_dalek\<close> are parameters, as is the bincode decoder of
  the transferred state.  A panic of the mountain range (and a loop that does not end) is \<open>None\<close>.
\<close>

section \<open>Signed roots\<close>

record 'k ed25519 =
  ed_sign :: "'k \<Rightarrow> bytes \<Rightarrow> bytes"
  ed_public :: "'k \<Rightarrow> bytes"
  ed_public_ok :: "bytes \<Rightarrow> bool"
  ed_check :: "bytes \<Rightarrow> bytes \<Rightarrow> bytes \<Rightarrow> bool"

record signed_root =
  sr_root :: hash512
  sr_signature :: bytes
  sr_signer_public_key :: bytes
  sr_signed_at :: i64

definition sign_root :: "'k ed25519 \<Rightarrow> 'k \<Rightarrow> hash512 \<Rightarrow> i64 \<Rightarrow> signed_root" where
  "sign_root S k root ts =
     \<lparr>sr_root = root, sr_signature = ed_sign S k (hash_bytes root), sr_signer_public_key = ed_public S k, sr_signed_at = ts\<rparr>"

definition signed_root_verify :: "'k ed25519 \<Rightarrow> signed_root \<Rightarrow> bool res" where
  "signed_root_verify S sr =
     (if ed_public_ok S (sr_signer_public_key sr)
      then Inr (ed_check S (sr_signer_public_key sr) (hash_bytes (sr_root sr)) (sr_signature sr))
      else Inl (Crypto ''invalid Ed25519 public key''))"

definition verify_with_key :: "'k ed25519 \<Rightarrow> bytes \<Rightarrow> signed_root \<Rightarrow> bool" where
  "verify_with_key S expected sr =
     (if expected \<noteq> sr_signer_public_key sr then False
      else ed_check S expected (hash_bytes (sr_root sr)) (sr_signature sr))"

section \<open>Entries and the chain\<close>

record poh_entry =
  pe_sequence :: u64
  pe_hash :: hash512
  pe_merkle_root :: hash512
  pe_timestamp_nanos :: i64
  pe_batch_size :: u32
  pe_signed_root :: "signed_root option"

definition verify_chain :: "digest \<Rightarrow> hash512 \<Rightarrow> poh_entry \<Rightarrow> bool" where
  "verify_chain D previous e \<longleftrightarrow> pe_hash e = sha512_poh D previous (pe_merkle_root e) (pe_timestamp_nanos e)"

definition verify_signature :: "'k ed25519 \<Rightarrow> poh_entry \<Rightarrow> bool res" where
  "verify_signature S e = (case pe_signed_root e of Some sr \<Rightarrow> signed_root_verify S sr | None \<Rightarrow> Inr True)"

record poh_chain =
  pc_partition :: partition_id
  pc_genesis_hash :: hash512
  pc_current_hash :: hash512
  pc_sequence :: u64
  pc_mmr :: mmr
  pc_recent_entries :: "poh_entry list"
  pc_max_recent :: nat

definition compute_genesis :: "digest \<Rightarrow> partition_id \<Rightarrow> hash512" where
  "compute_genesis D p = sha512 D (map of_char ''aeon-poh-genesis'' @ u16_to_le (as_u16 p))"

definition resume :: "digest \<Rightarrow> partition_id \<Rightarrow> hash512 \<Rightarrow> u64 \<Rightarrow> mmr \<Rightarrow> nat \<Rightarrow> poh_chain" where
  "resume D p last_hash sequence m max_recent =
     \<lparr>pc_partition = p, pc_genesis_hash = compute_genesis D p, pc_current_hash = last_hash, pc_sequence = sequence,
      pc_mmr = m, pc_recent_entries = [], pc_max_recent = max_recent\<rparr>"

definition poh_new :: "digest \<Rightarrow> partition_id \<Rightarrow> nat \<Rightarrow> poh_chain" where
  "poh_new D p max_recent =
     \<lparr>pc_partition = p, pc_genesis_hash = compute_genesis D p, pc_current_hash = compute_genesis D p, pc_sequence = 0,
      pc_mmr = mmr_new, pc_recent_entries = [], pc_max_recent = max_recent\<rparr>"

definition push_recent :: "nat \<Rightarrow> poh_entry \<Rightarrow> poh_entry list \<Rightarrow> poh_entry list" where
  "push_recent max_recent e es = (let es = es @ [e] in if length es > max_recent then tl es else es)"

definition append_root :: "digest \<Rightarrow> 'k ed25519 \<Rightarrow> hash512 \<Rightarrow> i64 \<Rightarrow> u32 \<Rightarrow> 'k option \<Rightarrow> poh_chain \<Rightarrow> (poh_entry \<times> poh_chain) option" where
  "append_root D S merkle_root ts batch_size key c =
     (let poh_hash = sha512_poh D (pc_current_hash c) merkle_root ts;
          entry = \<lparr>pe_sequence = pc_sequence c, pe_hash = poh_hash, pe_merkle_root = merkle_root, pe_timestamp_nanos = ts,
                   pe_batch_size = batch_size, pe_signed_root = map_option (\<lambda>k. sign_root S k merkle_root ts) key\<rparr>
      in case mmr_append D merkle_root (pc_mmr c) of
           None \<Rightarrow> None
         | Some (_, m) \<Rightarrow>
             Some (entry, c\<lparr>pc_current_hash := poh_hash, pc_sequence := pc_sequence c + 1, pc_mmr := m,
                            pc_recent_entries := push_recent (pc_max_recent c) entry (pc_recent_entries c)\<rparr>))"

definition append_batch :: "digest \<Rightarrow> 'k ed25519 \<Rightarrow> bytes list \<Rightarrow> i64 \<Rightarrow> 'k option \<Rightarrow> poh_chain \<Rightarrow> (poh_entry option \<times> poh_chain) option" where
  "append_batch D S payloads ts key c =
     (if payloads = [] then Some (None, c)
      else case from_data D payloads of
             None \<Rightarrow> None
           | Some None \<Rightarrow> Some (None, c)
           | Some (Some tree) \<Rightarrow>
               (let merkle_root = tree_root tree; poh_hash = sha512_poh D (pc_current_hash c) merkle_root ts;
                    entry = \<lparr>pe_sequence = pc_sequence c, pe_hash = poh_hash, pe_merkle_root = merkle_root,
                             pe_timestamp_nanos = ts, pe_batch_size = of_nat (length payloads),
                             pe_signed_root = map_option (\<lambda>k. sign_root S k merkle_root ts) key\<rparr>
                in case mmr_append D merkle_root (pc_mmr c) of
                     None \<Rightarrow> None
                   | Some (_, m) \<Rightarrow>
                       Some (Some entry, c\<lparr>pc_current_hash := poh_hash, pc_sequence := pc_sequence c + 1, pc_mmr := m,
                          pc_recent_entries := push_recent (pc_max_recent c) entry (pc_recent_entries c)\<rparr>)))"

fun first_broken :: "digest \<Rightarrow> nat \<Rightarrow> hash512 \<Rightarrow> poh_entry list \<Rightarrow> nat option" where
  "first_broken D i prev_hash [] = None"
| "first_broken D i prev_hash (e # es) =
     (if \<not> verify_chain D prev_hash e then Some i else first_broken D (i + 1) (pe_hash e) es)"

definition verify_recent_pairwise :: "digest \<Rightarrow> poh_chain \<Rightarrow> nat option" where
  "verify_recent_pairwise D c =
     (case pc_recent_entries c of [] \<Rightarrow> None | e # es \<Rightarrow> first_broken D 1 (pe_hash e) es)"

definition verify_recent :: "digest \<Rightarrow> poh_chain \<Rightarrow> nat option" where
  "verify_recent D c =
     (case pc_recent_entries c of
        [] \<Rightarrow> None
      | e # es \<Rightarrow> if pe_sequence e = 0 then first_broken D 0 (pc_genesis_hash c) (e # es) else verify_recent_pairwise D c)"

section \<open>Transfer of a chain\<close>

record poh_chain_state =
  ps_partition :: partition_id
  ps_current_hash :: hash512
  ps_sequence :: u64
  ps_mmr :: mmr

definition export_state :: "poh_chain \<Rightarrow> poh_chain_state" where
  "export_state c =
     \<lparr>ps_partition = pc_partition c, ps_current_hash = pc_current_hash c, ps_sequence = pc_sequence c, ps_mmr = pc_mmr c\<rparr>"

definition from_state :: "digest \<Rightarrow> poh_chain_state \<Rightarrow> nat \<Rightarrow> poh_chain" where
  "from_state D st max_recent =
     \<lparr>pc_partition = ps_partition st, pc_genesis_hash = compute_genesis D (ps_partition st),
      pc_current_hash = ps_current_hash st, pc_sequence = ps_sequence st, pc_mmr = ps_mmr st,
      pc_recent_entries = [], pc_max_recent = max_recent\<rparr>"

datatype poh_verify_mode = Verify | VerifyWithKey | TrustExtend

datatype poh_verify_error =
    PartitionMismatch partition_id partition_id
  | SequenceHashInconsistent u64 bool
  | MmrAheadOfSequence u64 u64
  | MmrPeaksInconsistent u64 nat

definition verify_state :: "digest \<Rightarrow> poh_chain_state \<Rightarrow> partition_id \<Rightarrow> poh_verify_error + unit" where
  "verify_state D st expected =
     (if ps_partition st \<noteq> expected then Inl (PartitionMismatch expected (ps_partition st))
      else let at_genesis = (ps_current_hash st = compute_genesis D (ps_partition st))
           in if ps_sequence st = 0 \<and> \<not> at_genesis \<or> ps_sequence st \<noteq> 0 \<and> at_genesis
              then Inl (SequenceHashInconsistent (ps_sequence st) at_genesis)
              else if mmr_leaf_count (ps_mmr st) > ps_sequence st
              then Inl (MmrAheadOfSequence (mmr_leaf_count (ps_mmr st)) (ps_sequence st))
              else if length (peaks (ps_mmr st)) \<noteq> count_ones (mmr_leaf_count (ps_mmr st))
              then Inl (MmrPeaksInconsistent (mmr_leaf_count (ps_mmr st)) (length (peaks (ps_mmr st))))
              else Inr ())"

type_synonym chain_registry = "(string \<times> u16, poh_chain) hash_map"

definition take_chain :: "string \<Rightarrow> partition_id \<Rightarrow> chain_registry \<Rightarrow> poh_chain option \<times> chain_registry" where
  "take_chain pipeline p reg = (hm_get reg (pipeline, as_u16 p), hm_remove (pipeline, as_u16 p) reg)"

definition insert_chain :: "string \<Rightarrow> partition_id \<Rightarrow> poh_chain \<Rightarrow> chain_registry \<Rightarrow> chain_registry" where
  "insert_chain pipeline p c reg = hm_insert (pipeline, as_u16 p) c reg"

definition install_chain :: "digest \<Rightarrow> (bytes \<Rightarrow> string + poh_chain_state) \<Rightarrow> poh_verify_mode \<Rightarrow> nat \<Rightarrow> string \<Rightarrow> partition_id
    \<Rightarrow> bytes \<Rightarrow> chain_registry \<Rightarrow> unit res \<times> chain_registry" where
  "install_chain D dec mode max_recent pipeline p state_bytes reg =
     (if state_bytes = [] then (Inr (), reg)
      else case dec state_bytes of
             Inl _ \<Rightarrow> (Inl (State ''poh-installer: decode PohChainState''), reg)
           | Inr st \<Rightarrow>
               if mode \<noteq> TrustExtend \<and> isl (verify_state D st p)
               then (Inl (State ''poh-installer: verify_state''), reg)
               else (Inr (), insert_chain pipeline p (from_state D st max_recent) reg))"

text \<open>The chain a starting pipeline uses: an installed one, which is consumed, or a fresh one.\<close>

definition create_poh_chain :: "digest \<Rightarrow> string \<Rightarrow> partition_id \<Rightarrow> partition_id \<Rightarrow> nat \<Rightarrow> chain_registry \<Rightarrow> poh_chain \<times> chain_registry" where
  "create_poh_chain D pipeline p poh_partition max_recent reg =
     (case take_chain pipeline p reg of
        (Some c, reg) \<Rightarrow> (c, reg)
      | (None, reg) \<Rightarrow> (poh_new D poh_partition max_recent, reg))"

section \<open>Checkpoints of the chain heads\<close>

record poh_checkpoint =
  pk_partition_heads :: "(partition_id \<times> hash512 \<times> u64) list"
  pk_aggregate_hash :: hash512
  pk_timestamp_nanos :: i64

definition aggregate :: "digest \<Rightarrow> (partition_id \<times> hash512 \<times> u64) list \<Rightarrow> hash512" where
  "aggregate D heads =
     (if heads = [] then zero_hash else sha512 D (concat (map (\<lambda>(_, h, _). hash_bytes h) heads)))"

definition checkpoint_build :: "digest \<Rightarrow> (partition_id \<times> hash512 \<times> u64) list \<Rightarrow> i64 \<Rightarrow> poh_checkpoint" where
  "checkpoint_build D heads ts =
     (let by_partition = sort_key fst heads
      in \<lparr>pk_partition_heads = by_partition, pk_aggregate_hash = aggregate D by_partition, pk_timestamp_nanos = ts\<rparr>)"

definition checkpoint_verify :: "digest \<Rightarrow> poh_checkpoint \<Rightarrow> bool" where
  "checkpoint_verify D k \<longleftrightarrow> pk_aggregate_hash k = aggregate D (sort_key fst (pk_partition_heads k))"

section \<open>Appending a sequence of batches\<close>

type_synonym batches = "(bytes list \<times> i64) list"

fun poh_run :: "digest \<Rightarrow> 'k ed25519 \<Rightarrow> 'k option \<Rightarrow> batches \<Rightarrow> poh_chain \<Rightarrow> poh_chain option" where
  "poh_run D S key [] c = Some c"
| "poh_run D S key ((payloads, ts) # bs) c =
     Option.bind (append_batch D S payloads ts key c) (\<lambda>(_, c). poh_run D S key bs c)"

definition nonempty_batches :: "batches \<Rightarrow> bool" where
  "nonempty_batches bs \<longleftrightarrow> (\<forall>(payloads, ts) \<in> set bs. payloads \<noteq> [])"

lemma append_batch_root:
  "payloads \<noteq> [] \<Longrightarrow> append_batch D S payloads ts key c =
    map_option (\<lambda>(e, c). (Some e, c)) (append_root D S (batch_root D payloads) ts (of_nat (length payloads)) key c)"
  using from_data_spec [of payloads D]
  by (auto simp: append_batch_def append_root_def batch_root_def Let_def split: option.splits)

lemma append_root_eq:
  assumes "mmr_append D root (pc_mmr c) = Some (i, m)"
  shows "\<exists>e. append_root D S root ts n key c = Some (e, c\<lparr>pc_current_hash := sha512_poh D (pc_current_hash c) root ts,
      pc_sequence := pc_sequence c + 1, pc_mmr := m,
      pc_recent_entries := push_recent (pc_max_recent c) e (pc_recent_entries c)\<rparr>) \<and>
    pe_sequence e = pc_sequence c \<and> pe_hash e = sha512_poh D (pc_current_hash c) root ts \<and>
    verify_chain D (pc_current_hash c) e"
  using assms by (simp add: append_root_def verify_chain_def Let_def)

fun head_after :: "digest \<Rightarrow> hash512 \<Rightarrow> batches \<Rightarrow> hash512" where
  "head_after D h [] = h"
| "head_after D h ((payloads, ts) # bs) = head_after D (sha512_poh D h (batch_root D payloads) ts) bs"

lemma append_root_head:
  "append_root D S root ts n key c = Some (e, c') \<Longrightarrow>
    pc_current_hash c' = sha512_poh D (pc_current_hash c) root ts \<and> pc_sequence c' = pc_sequence c + 1 \<and>
    mmr_append D root (pc_mmr c) \<noteq> None \<and> pc_mmr c' = snd (the (mmr_append D root (pc_mmr c)))"
  by (auto simp: append_root_def Let_def split: option.splits)

lemma poh_run_head:
  "poh_run D S key bs c = Some c' \<Longrightarrow> nonempty_batches bs \<Longrightarrow>
    pc_current_hash c' = head_after D (pc_current_hash c) bs"
proof (induction bs arbitrary: c)
  case (Cons b bs)
  obtain payloads ts where b: "b = (payloads, ts)" by (cases b)
  from Cons.prems b obtain e c1 where
    "append_root D S (batch_root D payloads) ts (of_nat (length payloads)) key c = Some (e, c1)" "poh_run D S key bs c1 = Some c'"
    by (auto simp: append_batch_root nonempty_batches_def bind_eq_Some_conv)
  then show ?case using Cons.IH [of c1] Cons.prems(2) b append_root_head by (fastforce simp: nonempty_batches_def)
qed simp

section \<open>The head binds the batches\<close>

fun chain_inputs :: "digest \<Rightarrow> hash512 \<Rightarrow> batches \<Rightarrow> bytes list" where
  "chain_inputs D h [] = []"
| "chain_inputs D h ((payloads, ts) # bs) =
     (hash_bytes h @ hash_bytes (batch_root D payloads) @ u64_to_le ts) # hashed D payloads @
     chain_inputs D (sha512_poh D h (batch_root D payloads) ts) bs"

lemma levels_of_root64: "levels_of D xs ls \<Longrightarrow> all64 xs \<Longrightarrow> digest64 D \<Longrightarrow> length (hash_bytes (hd (last ls))) = 64"
  by (induction rule: levels_of.induct) (auto simp: all64_pair_level levels_of_nonempty, simp add: all64_def)

lemma batch_root64: "digest64 D \<Longrightarrow> length (hash_bytes (batch_root D payloads)) = 64"
proof (cases "payloads = []")
  case False
  assume "digest64 D"
  moreover obtain ls where "from_data D payloads = Some (Some ls)" "levels_of D (map (sha512 D) payloads) ls"
    using from_data_spec [OF False] by blast
  ultimately show ?thesis
    using levels_of_root64 [of D] all64_sha512 by (simp add: batch_root_def levels_of_root)
qed (simp add: batch_root_def from_data_def zero_hash_def)

lemma head_after_binds:
  "head_after D h xs = head_after D h' ys \<Longrightarrow> map (length \<circ> fst) xs = map (length \<circ> fst) ys \<Longrightarrow> digest64 D \<Longrightarrow>
    length (hash_bytes h) = 64 \<Longrightarrow> length (hash_bytes h') = 64 \<Longrightarrow>
    inj_on D (set (chain_inputs D h xs) \<union> set (chain_inputs D h' ys)) \<Longrightarrow> h = h' \<and> xs = ys"
proof (induction xs arbitrary: h h' ys)
  case (Cons x xs)
  obtain ps ts where x: "x = (ps, ts)" by (cases x)
  from Cons.prems(2) x obtain qs us ys' where ys: "ys = (qs, us) # ys'" "length ps = length qs"
    "map (length \<circ> fst) xs = map (length \<circ> fst) ys'"
    by (cases ys) (auto simp: comp_def)
  let ?r = "batch_root D ps" and ?q = "batch_root D qs"
  let ?h = "sha512_poh D h ?r ts" and ?h' = "sha512_poh D h' ?q us"
  let ?U = "set (chain_inputs D h (x # xs)) \<union> set (chain_inputs D h' ys)"
  have len: "length (hash_bytes ?h) = 64" "length (hash_bytes ?h') = 64"
    using Cons.prems(3) by (auto simp: sha512_poh_def digest64_def)
  have "?h = ?h' \<and> xs = ys'"
  proof (rule Cons.IH [OF _ ys(3) Cons.prems(3) len])
    show "head_after D ?h xs = head_after D ?h' ys'" using Cons.prems(1) x ys by simp
    show "inj_on D (set (chain_inputs D ?h xs) \<union> set (chain_inputs D ?h' ys'))"
      by (rule inj_on_subset [OF Cons.prems(6)]) (auto simp: x ys)
  qed
  then have heads: "D (hash_bytes h @ hash_bytes ?r @ u64_to_le ts) = D (hash_bytes h' @ hash_bytes ?q @ u64_to_le us)"
    and rest: "xs = ys'" by (auto simp: sha512_poh_def)
  have "hash_bytes h @ hash_bytes ?r @ u64_to_le ts = hash_bytes h' @ hash_bytes ?q @ u64_to_le us"
    by (rule inj_onD [OF Cons.prems(6) heads]) (simp_all add: x ys)
  then have eq: "h = h'" "?r = ?q" "u64_to_le ts = u64_to_le us"
    using Cons.prems(4,5) batch_root64 [OF Cons.prems(3)] by (auto intro: hash512.expand)
  have "ps = qs"
  proof (rule batch_root_binds [OF eq(2) ys(2) Cons.prems(3)])
    show "inj_on D (set (hashed D ps) \<union> set (hashed D qs))"
      by (rule inj_on_subset [OF Cons.prems(6)]) (auto simp: x ys)
  qed
  moreover have "ts = us" using arg_cong [OF eq(3), of u64_from_le] by simp
  ultimately show ?case using eq(1) rest x ys by simp
qed simp

text \<open>
  C12: two chains of a partition that have the same head after the same number of non-empty batches of the
  same sizes were given the same payloads at the same timestamps, unless two of the byte strings hashed on
  the way collide: no payload, order or timestamp of the history can change without changing the head.
\<close>

theorem poh_head_binds_history:
  assumes "poh_run D S key xs (poh_new D p n) = Some c" "poh_run D S key' ys (poh_new D p n') = Some c'"
    and "pc_current_hash c = pc_current_hash c'"
    and "map (length \<circ> fst) xs = map (length \<circ> fst) ys" "nonempty_batches xs"
    and "digest64 D"
    and "inj_on D (set (chain_inputs D (compute_genesis D p) xs) \<union> set (chain_inputs D (compute_genesis D p) ys))"
  shows "xs = ys"
proof -
  have "nonempty_batches ys"
  proof -
    have "\<forall>k \<in> set (map (length \<circ> fst) xs). k \<noteq> 0" using assms(5) by (auto simp: nonempty_batches_def)
    then have "\<forall>k \<in> set (map (length \<circ> fst) ys). k \<noteq> 0" using assms(4) by simp
    then show ?thesis by (auto simp: nonempty_batches_def)
  qed
  then have "head_after D (compute_genesis D p) xs = head_after D (compute_genesis D p) ys"
    using poh_run_head [OF assms(1,5)] poh_run_head [OF assms(2)] assms(3) by (simp add: poh_new_def)
  then show ?thesis
    using head_after_binds [OF _ assms(4,6)] assms(6,7) by (auto simp: compute_genesis_def sha512_def digest64_def)
qed

text \<open>A digest of the length and of the bytes after the first 64, for evaluation.\<close>

definition tail_digest :: digest where
  "tail_digest x = of_nat (length x) # take 63 (drop 64 x @ x @ replicate 63 0)"

lemma tail_digest64: "digest64 tail_digest"
  by (auto simp: digest64_def tail_digest_def)

definition sample_signer :: "unit ed25519" where
  "sample_signer = \<lparr>ed_sign = \<lambda>_ m. m, ed_public = \<lambda>_. [], ed_public_ok = \<lambda>_. True, ed_check = \<lambda>_ m s. m = s\<rparr>"

lemma from_data_single: "from_data D [x] = Some (Some [[sha512 D x]])"
  by (simp add: from_data_def from_leaves_def build_levels.simps)

lemma single_batch [simp]: "batch_root D [x] = sha512 D x" "hashed D [x] = [x]"
  by (simp_all add: batch_root_def hashed_def from_data_single tree_root_def tree_inputs_def)

lemma single_run:
  "\<exists>c. poh_run D S key [([x], ts)] (poh_new D p n) = Some c \<and>
    pc_current_hash c = sha512_poh D (compute_genesis D p) (sha512 D x) ts"
  by (simp add: append_batch_root append_root_def poh_new_def mmr_append_def mmr_new_def trailing_zeros_def
      trailing_zeros_nat.simps Let_def)

lemma tail_digest_poh:
  "length h = 64 \<Longrightarrow> length r = 64 \<Longrightarrow> length t = 8 \<Longrightarrow> tail_digest (h @ r @ t) = 136 # take 63 r"
  by (simp add: tail_digest_def)

theorem poh_head_binds_history_witness:
  "\<exists>c c'. poh_run tail_digest sample_signer None [([[1]], 5)] (poh_new tail_digest (PartitionId 0) 4) = Some c \<and>
     poh_run tail_digest sample_signer None [([[2]], 5)] (poh_new tail_digest (PartitionId 0) 4) = Some c' \<and>
     pc_current_hash c \<noteq> pc_current_hash c'"
proof -
  let ?g = "compute_genesis tail_digest (PartitionId 0)"
  obtain c where c: "poh_run tail_digest sample_signer None [([[1]], 5)] (poh_new tail_digest (PartitionId 0) 4) = Some c"
    using single_run by blast
  obtain c' where c': "poh_run tail_digest sample_signer None [([[2]], 5)] (poh_new tail_digest (PartitionId 0) 4) = Some c'"
    using single_run by blast
  have len: "length (hash_bytes ?g) = 64" "length (tail_digest x) = 64" for x
    using tail_digest64 by (auto simp: compute_genesis_def sha512_def digest64_def)
  have one: "tail_digest [b] = 1 # b # replicate 62 0" for b
    by (simp add: tail_digest_def numeral_eq_Suc)
  have poh: "tail_digest (hash_bytes ?g @ 1 # b # replicate 62 0 @ u64_to_le 5) = 136 # 1 # b # replicate 61 0" for b
    using tail_digest_poh [of "hash_bytes ?g" "1 # b # replicate 62 0" "u64_to_le 5"] by (simp add: len take_Cons')
  have "inj_on tail_digest (set (chain_inputs tail_digest ?g [([[1]], 5)]) \<union> set (chain_inputs tail_digest ?g [([[2]], 5)]))"
    by (simp add: sha512_def poh one inj_on_def)
  then have "pc_current_hash c \<noteq> pc_current_hash c'"
    using poh_head_binds_history [OF c c'] tail_digest64 by (auto simp: nonempty_batches_def)
  then show ?thesis using c c' by blast
qed

section \<open>Padding is invisible to the chain\<close>



section \<open>Structural verification of a transferred state\<close>

text \<open>
  The check of the peak count in \<open>verify_state\<close> compares two functions of the leaf count and never
  fires, and the nodes are not looked at: a state whose mountain range has lost nodes is accepted in every
  mode, and the first batch appended to the installed chain panics.
\<close>

theorem verify_state_misses_lost_nodes:
  assumes "ps_partition st = p" "ps_sequence st = 1" "ps_current_hash st \<noteq> compute_genesis D p"
    and "ps_mmr st = \<lparr>mmr_nodes = [], mmr_leaf_count = 1\<rparr>" "payloads \<noteq> []"
  shows "verify_state D st p = Inr () \<and> append_batch D S payloads ts key (from_state D st n) = None"
proof -
  have "length (peaks (ps_mmr st)) = count_ones (mmr_leaf_count (ps_mmr st))" by (rule peaks_count)
  then have "verify_state D st p = Inr ()" using assms by (simp add: verify_state_def)
  moreover have "trailing_zeros 2 = 1"
    by (simp add: trailing_zeros_def trailing_zeros_nat.simps [of 2] trailing_zeros_nat.simps [of "Suc 0"])
  then have "mmr_append D root (ps_mmr st) = None" for root
    using assms(4) by (simp add: mmr_append_def Let_def)
  ultimately show ?thesis
    using assms(5) by (simp add: append_batch_root append_root_def from_state_def Let_def)
qed

theorem verify_state_misses_lost_nodes_witness:
  "\<exists>st. verify_state prefix_digest st (PartitionId 0) = Inr () \<and>
     append_batch prefix_digest sample_signer [[1]] 0 None (from_state prefix_digest st 4) = None"
proof -
  define st where "st = \<lparr>ps_partition = PartitionId 0, ps_current_hash = zero_hash, ps_sequence = 1,
    ps_mmr = \<lparr>mmr_nodes = [], mmr_leaf_count = 1\<rparr>\<rparr>"
  have "hash_bytes zero_hash ! 0 \<noteq> hash_bytes (compute_genesis prefix_digest (PartitionId 0)) ! 0"
    by (simp add: zero_hash_def compute_genesis_def sha512_def prefix_digest_def)
  then have "zero_hash \<noteq> compute_genesis prefix_digest (PartitionId 0)" by auto
  then show ?thesis
    using verify_state_misses_lost_nodes [of st "PartitionId 0" prefix_digest "[[1]]" sample_signer 0 None 4]
    by (auto simp: st_def)
qed

section \<open>Handover\<close>

fun linked :: "digest \<Rightarrow> hash512 \<Rightarrow> poh_entry list \<Rightarrow> hash512 \<Rightarrow> bool" where
  "linked D prev [] cur \<longleftrightarrow> prev = cur"
| "linked D prev (e # es) cur \<longleftrightarrow> verify_chain D prev e \<and> linked D (pe_hash e) es cur"

text \<open>
  The mountain range has one leaf per entry, and the recent entries are the linked end of the chain,
  numbered up to the head; if they reach back to the start they begin at the genesis hash.
\<close>

definition recent_inv :: "digest \<Rightarrow> poh_chain \<Rightarrow> bool" where
  "recent_inv D c \<longleftrightarrow>
     (\<exists>prev. linked D prev (pc_recent_entries c) (pc_current_hash c) \<and>
        (unat (pc_sequence c) = length (pc_recent_entries c) \<longrightarrow> prev = pc_genesis_hash c)) \<and>
     length (pc_recent_entries c) \<le> unat (pc_sequence c) \<and>
     (\<forall>i < length (pc_recent_entries c).
        unat (pe_sequence (pc_recent_entries c ! i)) + length (pc_recent_entries c) = unat (pc_sequence c) + i)"

definition chain_inv :: "digest \<Rightarrow> poh_chain \<Rightarrow> bool" where
  "chain_inv D c \<longleftrightarrow> (\<exists>ts. mmr_repr D (pc_mmr c) ts) \<and> mmr_leaf_count (pc_mmr c) = pc_sequence c \<and> recent_inv D c"

lemma linked_snoc: "linked D prev es cur \<Longrightarrow> verify_chain D cur e \<Longrightarrow> linked D prev (es @ [e]) (pe_hash e)"
  by (induction es arbitrary: prev) auto

lemma linked_sound: "linked D prev es cur \<Longrightarrow> first_broken D i prev es = None"
  by (induction es arbitrary: prev i) auto

lemma verify_recent_ok:
  assumes "recent_inv D c"
  shows "verify_recent D c = None"
proof (cases "pc_recent_entries c")
  case (Cons e es)
  obtain prev where prev: "linked D prev (e # es) (pc_current_hash c)"
    "unat (pc_sequence c) = length (e # es) \<longrightarrow> prev = pc_genesis_hash c"
    and seq: "unat (pe_sequence e) + length (e # es) = unat (pc_sequence c)"
    using assms Cons by (fastforce simp: recent_inv_def)
  show ?thesis
  proof (cases "pe_sequence e = 0")
    case True
    then have "prev = pc_genesis_hash c" using prev(2) seq by simp
    then show ?thesis using linked_sound [OF prev(1), of 0] True Cons by (simp add: verify_recent_def)
  next
    case False
    then show ?thesis
      using linked_sound [of D "pe_hash e" es "pc_current_hash c" 1] prev(1) Cons by (simp add: verify_recent_def verify_recent_pairwise_def)
  qed
qed (simp add: verify_recent_def)

lemma recent_inv_push:
  assumes "recent_inv D c" "verify_chain D (pc_current_hash c) e" "pe_sequence e = pc_sequence c"
    and "unat (pc_sequence c) + 1 < 2 ^ 64"
  shows "recent_inv D (c\<lparr>pc_current_hash := pe_hash e, pc_sequence := pc_sequence c + 1, pc_mmr := m,
      pc_recent_entries := push_recent (pc_max_recent c) e (pc_recent_entries c)\<rparr>)"
proof -
  let ?es = "pc_recent_entries c"
  obtain prev where prev: "linked D prev ?es (pc_current_hash c)"
    "unat (pc_sequence c) = length ?es \<longrightarrow> prev = pc_genesis_hash c"
    and len: "length ?es \<le> unat (pc_sequence c)"
    and seqs: "\<forall>i < length ?es. unat (pe_sequence (?es ! i)) + length ?es = unat (pc_sequence c) + i"
    using assms(1) by (auto simp: recent_inv_def)
  have count: "unat (pc_sequence c + 1) = unat (pc_sequence c) + 1"
    using assms(4) by (simp add: unat_word_ariths)
  have link: "linked D prev (?es @ [e]) (pe_hash e)" by (rule linked_snoc [OF prev(1) assms(2)])
  have nums: "\<forall>i < length (?es @ [e]). unat (pe_sequence ((?es @ [e]) ! i)) + length (?es @ [e]) = unat (pc_sequence c) + 1 + i"
    using seqs assms(3) by (auto simp: nth_append)
  show ?thesis
  proof (cases "length (?es @ [e]) > pc_max_recent c")
    case True
    obtain x xs where xs: "?es @ [e] = x # xs" by (cases "?es @ [e]") auto
    have "linked D (pe_hash x) xs (pe_hash e)" using link xs by simp
    moreover have "length xs \<le> unat (pc_sequence c)" using len xs by (metis length_append_singleton length_Cons Suc_inject)
    moreover have "\<forall>i < length xs. unat (pe_sequence (xs ! i)) + length xs = unat (pc_sequence c) + 1 + i"
      using nums [unfolded xs] by (metis Suc_less_eq add_Suc_right length_Cons nth_Cons_Suc nat.inject)
    ultimately show ?thesis using True xs by (auto simp: recent_inv_def push_recent_def Let_def count)
  next
    case False
    then show ?thesis
      using link nums len prev(2) by (auto simp: recent_inv_def push_recent_def Let_def count)
  qed
qed

lemma append_root_inv:
  assumes "chain_inv D c" "unat (pc_sequence c) + 1 < 2 ^ 64"
  shows "\<exists>e c'. append_root D S root ts n key c = Some (e, c') \<and> chain_inv D c' \<and> pc_sequence c' = pc_sequence c + 1"
proof -
  obtain f where f: "mmr_repr D (pc_mmr c) f" and count: "mmr_leaf_count (pc_mmr c) = pc_sequence c" and recent: "recent_inv D c"
    using assms(1) by (auto simp: chain_inv_def)
  obtain m where m: "mmr_append D root (pc_mmr c) = Some (length (mmr_nodes (pc_mmr c)), m)"
    "mmr_leaf_count m = pc_sequence c + 1" "\<exists>f. mmr_repr D m f"
    using mmr_append_repr [OF f, of root] assms(2) by (auto simp: count)
  obtain e where e: "append_root D S root ts n key c = Some (e, c\<lparr>pc_current_hash := pe_hash e,
      pc_sequence := pc_sequence c + 1, pc_mmr := m,
      pc_recent_entries := push_recent (pc_max_recent c) e (pc_recent_entries c)\<rparr>)"
    "pe_sequence e = pc_sequence c" "verify_chain D (pc_current_hash c) e"
    using append_root_eq [OF m(1), of S ts n key] by auto
  then show ?thesis using recent_inv_push [OF recent e(3,2) assms(2), of m] m by (auto simp: chain_inv_def)
qed

lemma poh_run_inv:
  "chain_inv D c \<Longrightarrow> unat (pc_sequence c) + length bs < 2 ^ 64 \<Longrightarrow> nonempty_batches bs \<Longrightarrow>
    \<exists>c'. poh_run D S key bs c = Some c' \<and> chain_inv D c' \<and> unat (pc_sequence c') = unat (pc_sequence c) + length bs"
proof (induction bs arbitrary: c)
  case (Cons b bs)
  obtain payloads ts where b: "b = (payloads, ts)" by (cases b)
  obtain e c1 where c1: "append_root D S (batch_root D payloads) ts (of_nat (length payloads)) key c = Some (e, c1)"
    "chain_inv D c1" "pc_sequence c1 = pc_sequence c + 1"
    using append_root_inv [OF Cons.prems(1)] Cons.prems(2) by fastforce
  have "unat (pc_sequence c1) = unat (pc_sequence c) + 1"
    using Cons.prems(2) c1(3) by (simp add: unat_word_ariths)
  then show ?case
    using Cons.IH [OF c1(2)] Cons.prems(2,3) b c1(1) by (auto simp: append_batch_root nonempty_batches_def)
qed simp

lemma poh_run_export:
  "poh_run D S key bs c = Some c' \<Longrightarrow> poh_run D S key' bs d = Some d' \<Longrightarrow> nonempty_batches bs \<Longrightarrow>
    export_state c = export_state d \<Longrightarrow> export_state c' = export_state d'"
proof (induction bs arbitrary: c d)
  case (Cons b bs)
  obtain payloads ts where b: "b = (payloads, ts)" by (cases b)
  obtain e c1 where c1: "append_root D S (batch_root D payloads) ts (of_nat (length payloads)) key c = Some (e, c1)"
    "poh_run D S key bs c1 = Some c'"
    using Cons.prems(1,3) b by (auto simp: append_batch_root nonempty_batches_def bind_eq_Some_conv)
  obtain f d1 where d1: "append_root D S (batch_root D payloads) ts (of_nat (length payloads)) key' d = Some (f, d1)"
    "poh_run D S key' bs d1 = Some d'"
    using Cons.prems(2,3) b by (auto simp: append_batch_root nonempty_batches_def bind_eq_Some_conv)
  have "export_state c1 = export_state d1"
    using c1(1) d1(1) Cons.prems(4) by (auto simp: append_root_def export_state_def Let_def split: option.splits)
  then show ?case using Cons.IH [OF c1(2) d1(2)] Cons.prems(3) by (simp add: nonempty_batches_def)
qed simp

lemma poh_run_partition: "poh_run D S key bs c = Some c' \<Longrightarrow> pc_partition c' = pc_partition c"
proof (induction bs arbitrary: c)
  case (Cons b bs)
  obtain payloads ts where b: "b = (payloads, ts)" by (cases b)
  then obtain r c1 where "append_batch D S payloads ts key c = Some (r, c1)" "poh_run D S key bs c1 = Some c'"
    using Cons.prems by (auto simp: bind_eq_Some_conv)
  moreover from this(1) have "pc_partition c1 = pc_partition c"
    by (auto simp: append_batch_def Let_def split: if_splits option.splits)
  ultimately show ?case using Cons.IH by simp
qed simp

lemma chain_inv_new: "chain_inv D (poh_new D p n)"
  by (auto simp: chain_inv_def poh_new_def mmr_repr_def mmr_new_def forest_zero recent_inv_def)

lemma chain_inv_from_state:
  "chain_inv D c \<Longrightarrow> pc_sequence c \<noteq> 0 \<Longrightarrow> chain_inv D (from_state D (export_state c) m)"
  by (insert unat_gt_0 [of "pc_sequence c"]) (auto simp: chain_inv_def from_state_def export_state_def recent_inv_def)

text \<open>
  C23: a chain of non-empty batches handed to another node is accepted by its installer in every mode, the
  pipeline that starts there takes it, and from then on both nodes extend it alike: the same batches give
  the same head, sequence number and mountain range, and the recent entries verify on both sides.
\<close>

theorem handover_continues_chain:
  assumes "poh_run D S key xs (poh_new D p n) = Some c" "nonempty_batches (xs @ ys)" "xs \<noteq> []"
    and "length xs + length ys < 2 ^ 64" "pc_current_hash c \<noteq> compute_genesis D p"
    and "dec bytes = Inr (export_state c)" "bytes \<noteq> []"
  shows "\<exists>reg' c' c1 c2. install_chain D dec mode m pipeline p bytes reg = (Inr (), reg') \<and>
    fst (create_poh_chain D pipeline p q k reg') = c' \<and> poh_run D S key ys c = Some c1 \<and>
    poh_run D S key' ys c' = Some c2 \<and> export_state c2 = export_state c1 \<and>
    unat (pc_sequence c2) = length xs + length ys \<and> verify_recent D c1 = None \<and> verify_recent D c2 = None"
proof -
  let ?c' = "from_state D (export_state c) m" and ?reg = "insert_chain pipeline p (from_state D (export_state c) m) reg"
  have ne: "nonempty_batches xs" "nonempty_batches ys" using assms(2) by (auto simp: nonempty_batches_def)
  have inv: "chain_inv D c" and seq: "unat (pc_sequence c) = length xs"
    using poh_run_inv [OF chain_inv_new, of D p n xs S key] assms(1,4) ne by (auto simp: poh_new_def)
  have part: "pc_partition c = p" "mmr_leaf_count (pc_mmr c) = pc_sequence c"
    using poh_run_partition [OF assms(1)] inv by (simp_all add: poh_new_def chain_inv_def)
  have nz: "pc_sequence c \<noteq> 0" using seq assms(3) by auto
  have "verify_state D (export_state c) p = Inr ()"
    using assms(5) part nz peaks_count [of "pc_mmr c"] by (simp add: verify_state_def export_state_def)
  then have install: "install_chain D dec mode m pipeline p bytes reg = (Inr (), ?reg)"
    using assms(6,7) by (simp add: install_chain_def)
  have created: "fst (create_poh_chain D pipeline p q k ?reg) = ?c'"
    by (simp add: create_poh_chain_def take_chain_def insert_chain_def map_simps)
  obtain c1 where c1: "poh_run D S key ys c = Some c1" "chain_inv D c1"
    using poh_run_inv [OF inv _ ne(2), of S key] seq assms(4) by auto
  have "pc_sequence ?c' = pc_sequence c" by (simp add: from_state_def export_state_def)
  then obtain c2 where c2: "poh_run D S key' ys ?c' = Some c2" "chain_inv D c2" "unat (pc_sequence c2) = length xs + length ys"
    using poh_run_inv [OF chain_inv_from_state [OF inv nz, of m] _ ne(2), of S key'] seq assms(4) by auto
  have "export_state ?c' = export_state c" by (simp add: export_state_def from_state_def)
  then have "export_state c2 = export_state c1" using poh_run_export [OF c2(1) c1(1) ne(2)] by simp
  then show ?thesis
    using install created c1 c2 verify_recent_ok by (auto simp: chain_inv_def)
qed

theorem handover_continues_chain_witness:
  "\<exists>c reg' c1 c2. poh_run tail_digest sample_signer None [([[1]], 5)] (poh_new tail_digest (PartitionId 0) 4) = Some c \<and>
     install_chain tail_digest (\<lambda>_. Inr (export_state c)) Verify 4 ''p'' (PartitionId 0) [0] [] = (Inr (), reg') \<and>
     poh_run tail_digest sample_signer None [([[2]], 6)] c = Some c1 \<and>
     poh_run tail_digest sample_signer None [([[2]], 6)] (fst (create_poh_chain tail_digest ''p'' (PartitionId 0) (PartitionId 0) 4 reg')) = Some c2 \<and>
     export_state c2 = export_state c1"
proof -
  let ?D = tail_digest and ?g = "compute_genesis tail_digest (PartitionId 0)"
  obtain c where c: "poh_run ?D sample_signer None [([[1]], 5)] (poh_new ?D (PartitionId 0) 4) = Some c"
    and head: "pc_current_hash c = sha512_poh ?D ?g (sha512 ?D [1]) 5"
    using single_run by blast
  have "hash_bytes (pc_current_hash c) ! 0 \<noteq> hash_bytes ?g ! 0"
    using tail_digest64 by (simp add: head sha512_poh_def sha512_def compute_genesis_def tail_digest_def)
  then have "pc_current_hash c \<noteq> ?g" by auto
  then show ?thesis
    using handover_continues_chain [OF c, of "[([[2]], 6)]" "\<lambda>_. Inr (export_state c)" "[0]" Verify 4 "''p''" "[]"
        "PartitionId 0" 4 None] c
    by (auto simp: nonempty_batches_def simp del: poh_run.simps)
qed

end
