(* ===== verification/Write_Gate.thy ===== *)
theory Write_Gate
  imports Aeon_Types
begin

text \<open>
  \<open>aeon-engine/src/write_gate.rs\<close>: the gate a partition handover closes to stop the fetches of a source.
  Its operations are functions on the gate; the concurrent use by source tasks and by one coordinator is a
  step relation whose steps are the atomic accesses of the code.  \<open>try_enter\<close> holds the read lock across
  its test and its increment, so it is one step for the state; the drain loop reads the counter, takes the
  write lock and creates its \<open>notified()\<close> future in separate steps.  \<open>tokio\<close>'s \<open>notify_waiters\<close> wakes
  exactly the futures that exist when it is called.
\<close>

datatype gate_state = Open | FreezeRequested | Frozen

record write_gate =
  wg_state :: gate_state
  wg_in_flight :: nat

definition gate_new :: write_gate where
  "gate_new = \<lparr>wg_state = Open, wg_in_flight = 0\<rparr>"

definition try_enter :: "write_gate \<Rightarrow> bool \<times> write_gate" where
  "try_enter g = (if wg_state g = Open then (True, g\<lparr>wg_in_flight := wg_in_flight g + 1\<rparr>) else (False, g))"

definition is_freeze_requested :: "write_gate \<Rightarrow> bool" where
  "is_freeze_requested g \<longleftrightarrow> wg_state g \<noteq> Open"

text \<open>The drop of a guard: the result tells whether waiters must be notified.\<close>

definition drop_guard :: "write_gate \<Rightarrow> bool \<times> write_gate" where
  "drop_guard g = (wg_in_flight g = 1, g\<lparr>wg_in_flight := wg_in_flight g - 1\<rparr>)"

definition request_freeze :: "write_gate \<Rightarrow> write_gate" where
  "request_freeze g = (if wg_state g = Open then g\<lparr>wg_state := FreezeRequested\<rparr> else g)"

definition commit_freeze :: "write_gate \<Rightarrow> write_gate" where
  "commit_freeze g = (if wg_state g = FreezeRequested then g\<lparr>wg_state := Frozen\<rparr> else g)"

definition reopen :: "write_gate \<Rightarrow> write_gate" where
  "reopen g = g\<lparr>wg_state := Open\<rparr>"

section \<open>Registry\<close>

text \<open>Gates are shared handles, numbered in the order of their creation.\<close>

record gate_registry =
  gr_map :: "(string \<times> partition_id, nat) hash_map"
  gr_gates :: "write_gate list"

definition get_or_create :: "string \<Rightarrow> partition_id \<Rightarrow> gate_registry \<Rightarrow> nat \<times> gate_registry" where
  "get_or_create pipeline part r =
     (case hm_get (gr_map r) (pipeline, part) of
        Some h \<Rightarrow> (h, r)
      | None \<Rightarrow> let h = length (gr_gates r)
                in (h, r\<lparr>gr_map := hm_insert (pipeline, part) h (gr_map r), gr_gates := gr_gates r @ [gate_new]\<rparr>))"

definition gate_get :: "string \<Rightarrow> partition_id \<Rightarrow> gate_registry \<Rightarrow> nat option" where
  "gate_get pipeline part r = hm_get (gr_map r) (pipeline, part)"

definition remove_pipeline :: "string \<Rightarrow> gate_registry \<Rightarrow> gate_registry" where
  "remove_pipeline pipeline r = r\<lparr>gr_map := filter (\<lambda>((p, _), _). p \<noteq> pipeline) (gr_map r)\<rparr>"

lemma gate_get_created: "gate_get pl p (snd (get_or_create pl p r)) = Some (fst (get_or_create pl p r))"
  by (simp add: gate_get_def get_or_create_def Let_def update_conv' split: option.splits)

lemma gate_get_removed: "gate_get pl p (remove_pipeline pl r) = None"
proof -
  have "hm_get (filter (\<lambda>((q, _), _). q \<noteq> pl) m) (pl, p) = None" for m :: "(string \<times> partition_id, nat) hash_map"
    by (induction m) auto
  then show ?thesis by (simp add: gate_get_def remove_pipeline_def)
qed

text \<open>A pipeline restarted after \<open>remove_pipeline\<close> gets a gate nobody else holds.\<close>

lemma recreated_gate_fresh:
  assumes "\<forall>h \<in> snd ` set (gr_map r). h < length (gr_gates r)"
  shows "fst (get_or_create pl p (remove_pipeline pl r)) = length (gr_gates r)"
    and "gr_gates (snd (get_or_create pl p (remove_pipeline pl r))) ! length (gr_gates r) = gate_new"
  using gate_get_removed [of pl p r] by (simp_all add: get_or_create_def gate_get_def remove_pipeline_def Let_def)

section \<open>Concurrent use\<close>

text \<open>
  The coordinator's position in \<open>request_freeze_and_drain\<close>: not in it, at the write lock of the flip,
  notifying, reading the counter, at the write lock of the commit, about to create the future, waiting on
  it, or returned.
\<close>

datatype drain_pc = NotDraining | AtFlip | AtNotify | AtCheck | AtCommit | AtPark | Waiting | DrainOk | DrainTimeout

record gate_sys =
  gs_gate :: write_gate
  gs_inside :: nat
  gs_waking :: nat
  gs_pc :: drain_pc

definition sys_start :: gate_sys where
  "sys_start = \<lparr>gs_gate = gate_new, gs_inside = 0, gs_waking = 0, gs_pc = NotDraining\<rparr>"

definition wake :: "drain_pc \<Rightarrow> drain_pc" where
  "wake pc = (if pc = Waiting then AtCheck else pc)"

definition idle_pc :: "drain_pc \<Rightarrow> bool" where
  "idle_pc pc \<longleftrightarrow> pc \<in> {NotDraining, DrainOk, DrainTimeout}"

datatype gate_act = Enter | Leave | LeaveNotify | Begin | Drain | Expire | Reopen

inductive gate_step :: "gate_sys \<Rightarrow> gate_act \<Rightarrow> gate_sys \<Rightarrow> bool" where
  enter: "try_enter (gs_gate s) = (True, g) \<Longrightarrow>
     gate_step s Enter (s\<lparr>gs_gate := g, gs_inside := gs_inside s + 1\<rparr>)"
| leave: "gs_inside s > 0 \<Longrightarrow> drop_guard (gs_gate s) = (zero, g) \<Longrightarrow>
     gate_step s Leave (s\<lparr>gs_gate := g, gs_inside := gs_inside s - 1, gs_waking := (if zero then gs_waking s + 1 else gs_waking s)\<rparr>)"
| leave_notify: "gs_waking s > 0 \<Longrightarrow>
     gate_step s LeaveNotify (s\<lparr>gs_waking := gs_waking s - 1, gs_pc := wake (gs_pc s)\<rparr>)"
| begin_frozen: "idle_pc (gs_pc s) \<Longrightarrow> wg_state (gs_gate s) = Frozen \<Longrightarrow> gate_step s Begin (s\<lparr>gs_pc := DrainOk\<rparr>)"
| begin_freeze: "idle_pc (gs_pc s) \<Longrightarrow> wg_state (gs_gate s) \<noteq> Frozen \<Longrightarrow> gate_step s Begin (s\<lparr>gs_pc := AtFlip\<rparr>)"
| flip: "gs_pc s = AtFlip \<Longrightarrow> gate_step s Drain (s\<lparr>gs_gate := request_freeze (gs_gate s), gs_pc := AtNotify\<rparr>)"
| notify: "gs_pc s = AtNotify \<Longrightarrow> gate_step s Drain (s\<lparr>gs_pc := AtCheck\<rparr>)"
| check_zero: "gs_pc s = AtCheck \<Longrightarrow> wg_in_flight (gs_gate s) = 0 \<Longrightarrow> gate_step s Drain (s\<lparr>gs_pc := AtCommit\<rparr>)"
| check_busy: "gs_pc s = AtCheck \<Longrightarrow> wg_in_flight (gs_gate s) \<noteq> 0 \<Longrightarrow> gate_step s Drain (s\<lparr>gs_pc := AtPark\<rparr>)"
| commit: "gs_pc s = AtCommit \<Longrightarrow> gate_step s Drain (s\<lparr>gs_gate := commit_freeze (gs_gate s), gs_pc := DrainOk\<rparr>)"
| park: "gs_pc s = AtPark \<Longrightarrow> gate_step s Drain (s\<lparr>gs_pc := Waiting\<rparr>)"
| expire: "gs_pc s = Waiting \<Longrightarrow> gate_step s Expire (s\<lparr>gs_pc := DrainTimeout\<rparr>)"
| reopen: "idle_pc (gs_pc s) \<Longrightarrow> gate_step s Reopen (s\<lparr>gs_gate := reopen (gs_gate s)\<rparr>)"

inductive gate_run :: "gate_sys \<Rightarrow> gate_act list \<Rightarrow> gate_sys \<Rightarrow> bool" where
  run_nil: "gate_run s [] s"
| run_step: "gate_run s as s' \<Longrightarrow> gate_step s' a s'' \<Longrightarrow> gate_run s (as @ [a]) s''"

text \<open>Each action has at most one successor; \<open>gate_next\<close> computes it.\<close>

fun gate_next :: "gate_act \<Rightarrow> gate_sys \<Rightarrow> gate_sys option" where
  "gate_next Enter s = (case try_enter (gs_gate s) of
      (ok, g) \<Rightarrow> if ok then Some (s\<lparr>gs_gate := g, gs_inside := gs_inside s + 1\<rparr>) else None)"
| "gate_next Leave s = (if gs_inside s = 0 then None else case drop_guard (gs_gate s) of
      (zero, g) \<Rightarrow> Some (s\<lparr>gs_gate := g, gs_inside := gs_inside s - 1,
                         gs_waking := (if zero then gs_waking s + 1 else gs_waking s)\<rparr>))"
| "gate_next LeaveNotify s = (if gs_waking s = 0 then None
     else Some (s\<lparr>gs_waking := gs_waking s - 1, gs_pc := wake (gs_pc s)\<rparr>))"
| "gate_next Begin s = (if \<not> idle_pc (gs_pc s) then None
     else Some (s\<lparr>gs_pc := (if wg_state (gs_gate s) = Frozen then DrainOk else AtFlip)\<rparr>))"
| "gate_next Drain s = (case gs_pc s of
      AtFlip \<Rightarrow> Some (s\<lparr>gs_gate := request_freeze (gs_gate s), gs_pc := AtNotify\<rparr>)
    | AtNotify \<Rightarrow> Some (s\<lparr>gs_pc := AtCheck\<rparr>)
    | AtCheck \<Rightarrow> Some (s\<lparr>gs_pc := (if wg_in_flight (gs_gate s) = 0 then AtCommit else AtPark)\<rparr>)
    | AtCommit \<Rightarrow> Some (s\<lparr>gs_gate := commit_freeze (gs_gate s), gs_pc := DrainOk\<rparr>)
    | AtPark \<Rightarrow> Some (s\<lparr>gs_pc := Waiting\<rparr>)
    | _ \<Rightarrow> None)"
| "gate_next Expire s = (if gs_pc s = Waiting then Some (s\<lparr>gs_pc := DrainTimeout\<rparr>) else None)"
| "gate_next Reopen s = (if idle_pc (gs_pc s) then Some (s\<lparr>gs_gate := reopen (gs_gate s)\<rparr>) else None)"

lemma gate_next_sound: "gate_next a s = Some s' \<Longrightarrow> gate_step s a s'"
  by (cases a) (auto split: prod.splits if_splits drain_pc.splits intro: gate_step.intros
    gate_step.intros [simplified] leave [of _ True, simplified] leave [of _ False, simplified])

lemma gate_next_complete: "gate_step s a s' \<Longrightarrow> gate_next a s = Some s'"
  by (induction rule: gate_step.induct) (auto split: drain_pc.splits)

definition gate_exec :: "gate_act list \<Rightarrow> gate_sys \<Rightarrow> gate_sys option" where
  "gate_exec as s = fold (\<lambda>a r. Option.bind r (gate_next a)) as (Some s)"

lemma gate_exec_run: "gate_exec as s = Some s' \<Longrightarrow> gate_run s as s'"
proof (induction as arbitrary: s' rule: rev_induct)
  case (snoc a as)
  then show ?case
    by (auto simp: gate_exec_def split: bind_splits intro!: run_step gate_next_sound)
qed (simp add: gate_exec_def run_nil)

lemmas gate_eval = sys_start_def gate_new_def try_enter_def drop_guard_def request_freeze_def commit_freeze_def idle_pc_def wake_def

section \<open>A frozen gate has no fetch in flight\<close>

definition gate_inv :: "gate_sys \<Rightarrow> bool" where
  "gate_inv s \<longleftrightarrow>
     wg_in_flight (gs_gate s) = gs_inside s \<and>
     (wg_state (gs_gate s) = Frozen \<longrightarrow> gs_inside s = 0) \<and>
     (\<not> idle_pc (gs_pc s) \<and> gs_pc s \<noteq> AtFlip \<longrightarrow> wg_state (gs_gate s) \<noteq> Open) \<and>
     (gs_pc s = AtCommit \<longrightarrow> gs_inside s = 0)"

lemma gate_inv_step: "gate_step s a s' \<Longrightarrow> gate_inv s \<Longrightarrow> gate_inv s'"
  by (induction rule: gate_step.induct)
    (simp_all add: gate_inv_def gate_eval reopen_def split: if_splits, auto)

lemma gate_inv_run: "gate_run s as s' \<Longrightarrow> gate_inv s \<Longrightarrow> gate_inv s'"
  by (induction rule: gate_run.induct) (auto intro: gate_inv_step)

lemma gate_inv_start: "gate_inv sys_start"
  by (simp add: gate_inv_def sys_start_def gate_new_def idle_pc_def)

lemma frozen_step:
  assumes "gate_step s a s'" "gate_inv s" "wg_state (gs_gate s) = Frozen" "a \<noteq> Reopen"
  shows "wg_state (gs_gate s') = Frozen \<and> a \<noteq> Enter"
  using assms
  by (cases rule: gate_step.cases)
    (auto simp: gate_inv_def try_enter_def drop_guard_def request_freeze_def commit_freeze_def split: if_splits)

lemma frozen_run:
  "gate_run s bs s' \<Longrightarrow> gate_inv s \<Longrightarrow> wg_state (gs_gate s) = Frozen \<Longrightarrow> Reopen \<notin> set bs \<Longrightarrow>
     wg_state (gs_gate s') = Frozen \<and> Enter \<notin> set bs"
proof (induction rule: gate_run.induct)
  case (run_step s as s' a s'')
  then show ?case using frozen_step [of s' a s''] gate_inv_run [of s as s'] by auto
qed simp

text \<open>
  C20: a successful freeze is stable.  Whenever \<open>request_freeze_and_drain\<close> returns success, under any
  interleaving with any number of source tasks entering and leaving, the gate is frozen, no fetch is in
  flight, and none begins until the gate is reopened.
\<close>

theorem freeze_drains_sources:
  assumes "gate_run sys_start as s" "gate_step s Drain s1" "gs_pc s1 = DrainOk"
    and "gate_run s1 bs s2" "Reopen \<notin> set bs"
  shows "wg_state (gs_gate s2) = Frozen \<and> wg_in_flight (gs_gate s2) = 0 \<and> gs_inside s2 = 0 \<and> Enter \<notin> set bs"
proof -
  have inv: "gate_inv s" "gate_inv s1" using gate_inv_run [OF assms(1) gate_inv_start] gate_inv_step [OF assms(2)] by blast+
  have "gs_pc s = AtCommit \<and> gs_gate s1 = commit_freeze (gs_gate s)"
    using assms(2,3) by (cases rule: gate_step.cases) auto
  moreover from this have "wg_state (gs_gate s) \<noteq> Open" using inv(1) by (simp add: gate_inv_def idle_pc_def)
  ultimately have "wg_state (gs_gate s1) = Frozen" by (cases "wg_state (gs_gate s)") (simp_all add: commit_freeze_def)
  then have "wg_state (gs_gate s2) = Frozen \<and> Enter \<notin> set bs" using frozen_run [OF assms(4) inv(2)] assms(5) by blast
  then show ?thesis using gate_inv_run [OF assms(4) inv(2)] by (simp add: gate_inv_def)
qed

theorem freeze_drains_sources_witness:
  "\<exists>s2. gate_run sys_start [Enter, Begin, Drain, Leave, Drain, Drain, Drain, LeaveNotify] s2 \<and>
     wg_state (gs_gate s2) = Frozen \<and> gs_inside s2 = 0"
proof -
  let ?g = "\<lambda>st. \<lparr>wg_state = st, wg_in_flight = 0\<rparr>"
  let ?s = "\<lparr>gs_gate = ?g FreezeRequested, gs_inside = 0, gs_waking = 1, gs_pc = AtCommit\<rparr>"
  let ?s1 = "\<lparr>gs_gate = ?g Frozen, gs_inside = 0, gs_waking = 1, gs_pc = DrainOk\<rparr>"
  let ?s2 = "\<lparr>gs_gate = ?g Frozen, gs_inside = 0, gs_waking = 0, gs_pc = DrainOk\<rparr>"
  have run: "gate_run sys_start [Enter, Begin, Drain, Leave, Drain, Drain] ?s"
    by (rule gate_exec_run) (simp add: gate_exec_def gate_eval)
  have step: "gate_step ?s Drain ?s1" by (rule gate_next_sound) (simp add: gate_eval)
  have rest: "gate_run ?s1 [LeaveNotify] ?s2" by (rule gate_exec_run) (simp add: gate_exec_def gate_eval)
  have "gate_run sys_start [Enter, Begin, Drain, Leave, Drain, Drain, Drain, LeaveNotify] ?s2"
    by (rule gate_exec_run) (simp add: gate_exec_def gate_eval)
  moreover have "wg_state (gs_gate ?s2) = Frozen \<and> wg_in_flight (gs_gate ?s2) = 0 \<and> gs_inside ?s2 = 0 \<and> Enter \<notin> set [LeaveNotify]"
    by (rule freeze_drains_sources [OF run step _ rest]) simp_all
  ultimately show ?thesis by blast
qed

section \<open>A drain can miss the last release\<close>

text \<open>The counter was read as one, then the last guard was dropped and notified, then the future was created.\<close>

definition missed :: gate_sys where
  "missed = \<lparr>gs_gate = \<lparr>wg_state = FreezeRequested, wg_in_flight = 0\<rparr>, gs_inside = 0, gs_waking = 0, gs_pc = Waiting\<rparr>"

lemma missed_stuck: "gate_step missed a s \<Longrightarrow> a \<noteq> Expire \<Longrightarrow> s = missed"
  by (cases rule: gate_step.cases) (auto simp: missed_def try_enter_def idle_pc_def)

lemma missed_run: "gate_run s bs s' \<Longrightarrow> s = missed \<Longrightarrow> Expire \<notin> set bs \<Longrightarrow> s' = missed"
  by (induction rule: gate_run.induct) (auto dest: missed_stuck)

text \<open>
  C34: a drain can miss the last release.  The drain loop reads a non-zero counter and creates its
  \<open>notified()\<close> future afterwards; a source that drops the last guard in between notifies nobody.  The
  state below is reached that way: no fetch is in flight, yet the drain waits, and no further action of
  the sources or of the coordinator wakes it, so \<open>request_freeze_and_drain\<close> can only end with a timeout.
\<close>

theorem drain_misses_last_release:
  assumes "gate_run missed bs s" "Expire \<notin> set bs"
  shows "gate_run sys_start [Enter, Begin, Drain, Drain, Drain, Leave, LeaveNotify, Drain] missed \<and>
    wg_in_flight (gs_gate s) = 0 \<and> gs_pc s = Waiting"
proof -
  have "gate_run sys_start [Enter, Begin, Drain, Drain, Drain, Leave, LeaveNotify, Drain] missed"
    by (rule gate_exec_run) (simp add: gate_exec_def gate_eval missed_def)
  moreover have "s = missed" using missed_run [OF assms(1) refl assms(2)] .
  ultimately show ?thesis by (simp add: missed_def)
qed

theorem drain_misses_last_release_witness:
  "gate_run sys_start [Enter, Begin, Drain, Drain, Drain, Leave, LeaveNotify, Drain] missed \<and> gs_pc missed = Waiting"
  using drain_misses_last_release [OF run_nil] by simp

end
