(* ===== verification/Handover.thy ===== *)
theory Handover
  imports L2_Transfer Poh_Chain Write_Gate Partition_Transfer Cluster_State
begin

text \<open>
  The partition handover: \<open>PartitionTransferDriver::drive_one\<close> of \<open>aeon-cluster/src/partition_driver.rs\<close> on
  the target node, against the providers of \<open>aeon-engine/src/engine_providers.rs\<close> and the cutover
  coordinator of \<open>aeon-engine/src/engine_cutover.rs\<close> on the source node.

  The state holds the partition on both nodes, the driver's trackers and the replicated cluster state.  The
  source keeps working while it is asked: what it does between two requests of the target is an explicit
  list of actions.  Connections, the stream and the Raft proposals may fail, as given by the outcomes.
\<close>

record cutover_offsets =
  co_final_source_offset :: i64
  co_final_poh_sequence :: u64

record 'k handover =
  ho_store :: "'k l2_store"
  ho_chain :: "poh_chain option"
  ho_gate :: "write_gate option"
  ho_installer :: l2_installer
  ho_chains :: chain_registry
  ho_trackers :: "(partition_id, transfer_tracker) hash_map"
  ho_cluster :: cluster_snapshot

record 'e handover_env =
  hv_digest :: digest
  hv_signer :: "'e ed25519"
  hv_key :: "'e option"
  hv_serde :: serde_backend
  hv_crc :: "bytes \<Rightarrow> u32"
  hv_encode :: "poh_chain_state \<Rightarrow> string + bytes"
  hv_decode :: "bytes \<Rightarrow> string + poh_chain_state"
  hv_watermarks :: "cutover_offsets option"
  hv_mode :: poh_verify_mode
  hv_max_recent :: nat
  hv_pipeline :: string
  hv_my_id :: node_id

text \<open>What fails: \<open>no_lost_after\<close> is the number of chunks after which the stream is lost, if it is.\<close>

record outcomes =
  no_resolved :: bool
  no_connected :: bool
  no_lost_after :: "nat option"
  no_poh_reply :: bool
  no_cutover_reply :: bool
  no_complete_committed :: bool
  no_abort_committed :: bool

section \<open>The source between two requests\<close>

datatype source_act = AppendEvent event | SweepAcked u64 instant | ProcessBatch "bytes list" i64

definition gate_admits :: "write_gate option \<Rightarrow> bool" where
  "gate_admits g = (case g of None \<Rightarrow> True | Some g \<Rightarrow> fst (try_enter g))"

fun source_step :: "'e handover_env \<Rightarrow> source_act \<Rightarrow> 'k handover \<Rightarrow> 'k handover" where
  "source_step E (AppendEvent ev) h =
     (if gate_admits (ho_gate h) then h\<lparr>ho_store := snd (l2_append (hv_serde E) (hv_crc E) ev (ho_store h))\<rparr> else h)"
| "source_step E (SweepAcked min_ack now) h = h\<lparr>ho_store := snd (gc_up_to_at min_ack now (ho_store h))\<rparr>"
| "source_step E (ProcessBatch payloads ts) h =
     h\<lparr>ho_chain := Option.bind (ho_chain h) (\<lambda>c. map_option snd (append_batch (hv_digest E) (hv_signer E) payloads ts (hv_key E) c))\<rparr>"

definition source_run :: "'e handover_env \<Rightarrow> source_act list \<Rightarrow> 'k handover \<Rightarrow> 'k handover" where
  "source_run E acts h = fold (source_step E) acts h"

section \<open>Requests served by the source\<close>

definition poh_export :: "'e handover_env \<Rightarrow> poh_chain option \<Rightarrow> bytes res" where
  "poh_export E chain =
     (case chain of
        None \<Rightarrow> Inr []
      | Some c \<Rightarrow> (case hv_encode E (export_state c) of
                    Inl _ \<Rightarrow> Inl (Serialization ''poh-export: serialize PohChainState'')
                  | Inr bs \<Rightarrow> Inr bs))"

definition no_offsets :: cutover_offsets where
  "no_offsets = \<lparr>co_final_source_offset = - 1, co_final_poh_sequence = 0\<rparr>"

text \<open>\<open>drain_and_freeze\<close>; a fetch still in flight when the timeout fires leaves the freeze requested.\<close>

definition drain_and_freeze :: "'e handover_env \<Rightarrow> write_gate option \<Rightarrow> cutover_offsets res \<times> write_gate option" where
  "drain_and_freeze E gate =
     (let offsets = (case hv_watermarks E of Some w \<Rightarrow> w | None \<Rightarrow> no_offsets)
      in case gate of
           None \<Rightarrow> (Inr no_offsets, None)
         | Some g \<Rightarrow>
             if wg_state g = Frozen then (Inr offsets, Some g)
             else let g = request_freeze g
                  in if wg_in_flight g = 0 then (Inr offsets, Some (commit_freeze g))
                     else (Inl (State ''cutover: drain failed''), Some g))"

section \<open>The driver on the target\<close>

definition tracker_op :: "string \<Rightarrow> partition_id \<Rightarrow> (transfer_tracker \<Rightarrow> (string + 'r) \<times> transfer_tracker) \<Rightarrow> 'k handover
    \<Rightarrow> unit res \<times> 'k handover" where
  "tracker_op what p f h =
     (case hm_get (ho_trackers h) p of
        None \<Rightarrow> (Inl (State ''partition-driver: no tracker slot for partition''), h)
      | Some tk \<Rightarrow>
          (case f tk of (r, tk) \<Rightarrow>
             (case r of Inl _ \<Rightarrow> Inl (State what) | Inr _ \<Rightarrow> Inr (), h\<lparr>ho_trackers := hm_insert p tk (ho_trackers h)\<rparr>)))"

definition transition_begin :: "partition_id \<Rightarrow> node_id \<Rightarrow> node_id \<Rightarrow> 'k handover \<Rightarrow> unit res \<times> 'k handover" where
  "transition_begin p source target h = tracker_op ''partition-driver: tracker.begin'' p (tracker_begin source target) h"

definition transition_begin_cutover :: "partition_id \<Rightarrow> 'k handover \<Rightarrow> unit res \<times> 'k handover" where
  "transition_begin_cutover p h = tracker_op ''partition-driver: tracker.begin_cutover'' p begin_cutover h"

definition transition_complete :: "partition_id \<Rightarrow> 'k handover \<Rightarrow> 'k handover" where
  "transition_complete p h = snd (tracker_op '''' p tracker_complete h)"

definition propose :: "bool \<Rightarrow> cluster_request \<Rightarrow> 'k handover \<Rightarrow> cluster_response res \<times> 'k handover" where
  "propose committed r h =
     (if \<not> committed then (Inl (Cluster ''Raft proposal failed''), h)
      else case apply_request r (ho_cluster h) of
             None \<Rightarrow> (Inl (Cluster ''Raft proposal failed''), h)
           | Some (resp, cs) \<Rightarrow> (Inr resp, h\<lparr>ho_cluster := cs\<rparr>))"

definition abort_with_reason :: "outcomes \<Rightarrow> partition_id \<Rightarrow> node_id \<Rightarrow> string \<Rightarrow> 'k handover \<Rightarrow> 'k handover" where
  "abort_with_reason N p source reason h =
     snd (propose (no_abort_committed N) (AbortTransfer p source) (snd (tracker_op '''' p (tracker_abort reason) h)))"

text \<open>\<open>streaming\<close>: the actions of the source between sending the manifest and reading the segments.\<close>

definition bulk_sync :: "'e handover_env \<Rightarrow> outcomes \<Rightarrow> source_act list \<Rightarrow> partition_id \<Rightarrow> 'k handover \<Rightarrow> (unit res \<times> 'k handover) option" where
  "bulk_sync E N streaming p h =
     (let m = read_manifest (hv_crc E) (bs_files (ho_store h)); h = source_run E streaming h
      in map_option (\<lambda>(cks, ok).
           let (cks, ending) = (case no_lost_after N of None \<Rightarrow> (cks, EndFrame ok) | Some n \<Rightarrow> (take n cks, StreamLost));
               (r, li) = receive_stream (hv_crc E) (hv_pipeline E) p m cks ending (ho_installer h)
           in (r, h\<lparr>ho_installer := li\<rparr>)) (serve_chunks (bs_files (ho_store h)) default_chunk_bytes m))"

definition poh_sync :: "'e handover_env \<Rightarrow> outcomes \<Rightarrow> partition_id \<Rightarrow> node_id \<Rightarrow> 'k handover \<Rightarrow> unit res \<times> 'k handover" where
  "poh_sync E N p source h =
     (case (if no_poh_reply N then poh_export E (ho_chain h) else Inl (Connection ''poh-transfer'' True)) of
        Inl e \<Rightarrow> (Inl e, abort_with_reason N p source ''poh-chain transfer failed'' h)
      | Inr bs \<Rightarrow>
          if bs = [] then (Inr (), h)
          else (case install_chain (hv_digest E) (hv_decode E) (hv_mode E) (hv_max_recent E) (hv_pipeline E) p bs (ho_chains h) of
                  (Inl e, reg) \<Rightarrow> (Inl e, abort_with_reason N p source ''poh-chain install failed'' (h\<lparr>ho_chains := reg\<rparr>))
                | (Inr _, reg) \<Rightarrow> (Inr (), h\<lparr>ho_chains := reg\<rparr>)))"

definition cutover :: "'e handover_env \<Rightarrow> outcomes \<Rightarrow> partition_id \<Rightarrow> node_id \<Rightarrow> 'k handover \<Rightarrow> unit res \<times> 'k handover" where
  "cutover E N p source h =
     (let (r, gate) = drain_and_freeze E (ho_gate h); h = h\<lparr>ho_gate := gate\<rparr>
      in case (if no_cutover_reply N then r else Inl (Connection ''cutover'' True)) of
           Inl e \<Rightarrow> (Inl e, abort_with_reason N p source ''cutover handshake failed'' h)
         | Inr _ \<Rightarrow> (Inr (), h))"

definition commit_handover :: "outcomes \<Rightarrow> partition_id \<Rightarrow> node_id \<Rightarrow> node_id \<Rightarrow> 'k handover \<Rightarrow> unit res \<times> 'k handover" where
  "commit_handover N p source target h =
     (case propose (no_complete_committed N) (CompleteTransfer p target) h of
        (Inr RespOk, h) \<Rightarrow> (Inr (), transition_complete p h)
      | (Inr (RespError _), h) \<Rightarrow>
          (Inl (Cluster ''partition-driver: CompleteTransfer rejected''),
           abort_with_reason N p source ''CompleteTransfer rejected by state-machine'' h)
      | (Inr _, h) \<Rightarrow>
          (Inl (State ''partition-driver: unexpected Registry response to CompleteTransfer''),
           abort_with_reason N p source ''unexpected Registry response to CompleteTransfer'' h)
      | (Inl e, h) \<Rightarrow>
          (Inl (Cluster ''partition-driver: CompleteTransfer propose failed''),
           abort_with_reason N p source ''CompleteTransfer propose failed'' h))"

text \<open>The actions of the source while segments are streamed, before the chain is exported, and before the cutover.\<close>

record interleaving =
  il_streaming :: "source_act list"
  il_before_poh :: "source_act list"
  il_before_cutover :: "source_act list"

definition after_bulk :: "'e handover_env \<Rightarrow> outcomes \<Rightarrow> interleaving \<Rightarrow> partition_id \<Rightarrow> node_id \<Rightarrow> node_id \<Rightarrow> 'k handover \<Rightarrow> unit res \<times> 'k handover" where
  "after_bulk E N il p source target h =
     (case transition_begin_cutover p h of
        (Inl e, h) \<Rightarrow> (Inl e, h)
      | (Inr _, h) \<Rightarrow>
          (case poh_sync E N p source (source_run E (il_before_poh il) h) of
             (Inl e, h) \<Rightarrow> (Inl e, h)
           | (Inr _, h) \<Rightarrow>
               (case cutover E N p source (source_run E (il_before_cutover il) h) of
                  (Inl e, h) \<Rightarrow> (Inl e, h)
                | (Inr _, h) \<Rightarrow> commit_handover N p source target h)))"

definition drive_one_inner :: "'e handover_env \<Rightarrow> outcomes \<Rightarrow> interleaving \<Rightarrow> partition_id \<Rightarrow> node_id \<Rightarrow> node_id \<Rightarrow> 'k handover
    \<Rightarrow> (unit res \<times> 'k handover) option" where
  "drive_one_inner E N il p source target h =
     (if \<not> no_resolved N then Some (Inl (State ''partition-driver: no membership entry''), h)
      else if \<not> no_connected N then Some (Inl (Cluster ''partition-driver: connect to source''), h)
      else case transition_begin p source target h of
             (Inl e, h) \<Rightarrow> Some (Inl e, h)
           | (Inr _, h) \<Rightarrow>
               map_option (\<lambda>(r, h).
                 case r of
                   Inl e \<Rightarrow> (Inl e, abort_with_reason N p source ''bulk sync failed'' h)
                 | Inr _ \<Rightarrow> after_bulk E N il p source target h) (bulk_sync E N (il_streaming il) p h))"

definition drive_one :: "'e handover_env \<Rightarrow> outcomes \<Rightarrow> interleaving \<Rightarrow> partition_id \<Rightarrow> node_id \<Rightarrow> node_id \<Rightarrow> 'k handover
    \<Rightarrow> (unit res \<times> 'k handover) option" where
  "drive_one E N il p source target h =
     (if target \<noteq> hv_my_id E then Some (Inl (State ''partition-driver: drive_one called for another target''), h)
      else if hm_get (ho_trackers h) p \<noteq> None then Some (Inl (State ''partition-driver: transfer already in flight''), h)
      else map_option (\<lambda>(r, h). (r, h\<lparr>ho_trackers := hm_remove p (ho_trackers h)\<rparr>))
             (drive_one_inner E N il p source target (h\<lparr>ho_trackers := hm_insert p (tracker_new p) (ho_trackers h)\<rparr>)))"

text \<open>The transfers the watcher starts: entries of the table with this node as target and no drive in flight.\<close>

definition pending_transfers :: "node_id \<Rightarrow> 'k handover \<Rightarrow> (partition_id \<times> node_id \<times> node_id) list" where
  "pending_transfers my_id h =
     List.map_filter (\<lambda>(p, own).
       case own of
         Transferring source target \<Rightarrow>
           if target = my_id \<and> hm_get (ho_trackers h) p = None then Some (p, source, target) else None
       | _ \<Rightarrow> None) (cs_partition_table (ho_cluster h))"

section \<open>A drive without faults\<close>

definition no_faults :: outcomes where
  "no_faults = \<lparr>no_resolved = True, no_connected = True, no_lost_after = None, no_poh_reply = True,
     no_cutover_reply = True, no_complete_committed = True, no_abort_committed = True\<rparr>"

text \<open>Nothing fails before the proposal of \<open>CompleteTransfer\<close>.\<close>

definition reaches_commit :: "outcomes \<Rightarrow> bool" where
  "reaches_commit N \<longleftrightarrow> no_resolved N \<and> no_connected N \<and> no_lost_after N = None \<and> no_poh_reply N \<and> no_cutover_reply N"

text \<open>
  The partition is being transferred to this node, no drive is in flight, the source has no fetch in
  flight, and the chain of the source, if any, is one the target accepts.
\<close>

definition ready :: "'e handover_env \<Rightarrow> partition_id \<Rightarrow> node_id \<Rightarrow> node_id \<Rightarrow> 'k handover \<Rightarrow> bool" where
  "ready E p source target h \<longleftrightarrow>
     target = hv_my_id E \<and> hm_get (ho_trackers h) p = None \<and>
     table_get (cs_partition_table (ho_cluster h)) p = Some (Transferring source target) \<and>
     (\<forall>g. ho_gate h = Some g \<longrightarrow> wg_in_flight g = 0) \<and>
     hm_get (li_writers (ho_installer h)) (hv_pipeline E, as_u16 p) = None"

definition exportable :: "'e handover_env \<Rightarrow> partition_id \<Rightarrow> poh_chain option \<Rightarrow> bool" where
  "exportable E p chain \<longleftrightarrow>
     (\<forall>c. chain = Some c \<longrightarrow> (\<exists>bs. hv_encode E (export_state c) = Inr bs \<and> bs \<noteq> [] \<and> hv_decode E bs = Inr (export_state c)) \<and>
        (hv_mode E = TrustExtend \<or> verify_state (hv_digest E) (export_state c) p = Inr ()))"

lemma source_step_frame [simp]:
  "ho_gate (source_step E a h) = ho_gate h" "ho_installer (source_step E a h) = ho_installer h"
  "ho_chains (source_step E a h) = ho_chains h" "ho_trackers (source_step E a h) = ho_trackers h"
  "ho_cluster (source_step E a h) = ho_cluster h"
  by (cases a; simp)+

lemma source_run_frame [simp]:
  "ho_gate (source_run E as h) = ho_gate h" "ho_installer (source_run E as h) = ho_installer h"
  "ho_chains (source_run E as h) = ho_chains h" "ho_trackers (source_run E as h) = ho_trackers h"
  "ho_cluster (source_run E as h) = ho_cluster h"
  by (induction as arbitrary: h) (simp_all add: source_run_def)

text \<open>The source's own part of the state evolves alike whatever the target's part is.\<close>

definition source_part :: "'k handover \<Rightarrow> 'k l2_store \<times> poh_chain option \<times> write_gate option" where
  "source_part h = (ho_store h, ho_chain h, ho_gate h)"

lemma source_run_part: "source_part h = source_part h' \<Longrightarrow> source_part (source_run E as h) = source_part (source_run E as h')"
proof (induction as arbitrary: h h')
  case (Cons a as)
  have "source_part (source_step E a h) = source_part (source_step E a h')"
    using Cons.prems by (cases a) (simp_all add: source_part_def)
  from Cons.IH [OF this] show ?case by (simp add: source_run_def)
qed (simp add: source_run_def)

lemma source_run_store: "source_part h = source_part h' \<Longrightarrow> ho_store (source_run E as h) = ho_store (source_run E as h')"
  and source_run_chain: "source_part h = source_part h' \<Longrightarrow> ho_chain (source_run E as h) = ho_chain (source_run E as h')"
  using source_run_part [of h h' E as] by (simp_all add: source_part_def)

lemma poh_sync_ok:
  assumes "exportable E p (ho_chain h)" "no_poh_reply N"
  shows "\<exists>reg. poh_sync E N p source h = (Inr (), h\<lparr>ho_chains := reg\<rparr>) \<and>
    (\<forall>c. ho_chain h = Some c \<longrightarrow>
       hm_get reg (hv_pipeline E, as_u16 p) = Some (from_state (hv_digest E) (export_state c) (hv_max_recent E)))"
proof (cases "ho_chain h")
  case None
  then have "poh_sync E N p source h = (Inr (), h\<lparr>ho_chains := ho_chains h\<rparr>)"
    using assms(2) by (simp add: poh_sync_def poh_export_def)
  then show ?thesis using None by (intro exI [of _ "ho_chains h"]) simp
next
  case (Some c)
  then obtain bs where bs: "hv_encode E (export_state c) = Inr bs" "bs \<noteq> []" "hv_decode E bs = Inr (export_state c)"
    "hv_mode E = TrustExtend \<or> verify_state (hv_digest E) (export_state c) p = Inr ()"
    using assms(1) by (auto simp: exportable_def)
  define reg where "reg = insert_chain (hv_pipeline E) p (from_state (hv_digest E) (export_state c) (hv_max_recent E)) (ho_chains h)"
  have "install_chain (hv_digest E) (hv_decode E) (hv_mode E) (hv_max_recent E) (hv_pipeline E) p bs (ho_chains h) = (Inr (), reg)"
    using bs(2-4) by (cases "hv_mode E") (simp_all add: install_chain_def reg_def)
  then have "poh_sync E N p source h = (Inr (), h\<lparr>ho_chains := reg\<rparr>)"
    using assms(2) Some bs(1,2) by (simp add: poh_sync_def poh_export_def)
  moreover have "hm_get reg (hv_pipeline E, as_u16 p) = Some (from_state (hv_digest E) (export_state c) (hv_max_recent E))"
    by (simp add: insert_chain_def reg_def map_simps)
  ultimately show ?thesis using Some by auto
qed

lemma cutover_ok:
  assumes "\<forall>g. ho_gate h = Some g \<longrightarrow> wg_in_flight g = 0" "no_cutover_reply N"
  shows "\<exists>g'. cutover E N p source h = (Inr (), h\<lparr>ho_gate := g'\<rparr>) \<and>
    (\<forall>g. ho_gate h = Some g \<longrightarrow> (\<exists>f. g' = Some f \<and> wg_state f = Frozen))"
proof (cases "ho_gate h")
  case None
  then show ?thesis using assms by (auto simp: cutover_def drain_and_freeze_def Let_def)
next
  case (Some g)
  then show ?thesis
    using assms by (cases "wg_state g") (auto simp: cutover_def drain_and_freeze_def Let_def request_freeze_def commit_freeze_def)
qed

lemma transition_complete_frame: "\<exists>tks. transition_complete p h = h\<lparr>ho_trackers := tks\<rparr>"
proof (cases "hm_get (ho_trackers h) p")
  case None
  then have "transition_complete p h = h\<lparr>ho_trackers := ho_trackers h\<rparr>"
    by (simp add: transition_complete_def tracker_op_def)
  then show ?thesis by blast
next
  case (Some tk)
  then show ?thesis by (cases "tracker_complete tk") (auto simp: transition_complete_def tracker_op_def)
qed

lemma commit_handover_ok:
  assumes "table_get (cs_partition_table (ho_cluster h)) p = Some (Transferring source target)" "no_complete_committed N"
  shows "\<exists>tks. commit_handover N p source target h =
    (Inr (), h\<lparr>ho_cluster := (ho_cluster h)\<lparr>cs_partition_table := complete_transfer (cs_partition_table (ho_cluster h)) p target\<rparr>,
       ho_trackers := tks\<rparr>)"
proof -
  let ?h = "h\<lparr>ho_cluster := (ho_cluster h)\<lparr>cs_partition_table := complete_transfer (cs_partition_table (ho_cluster h)) p target\<rparr>\<rparr>"
  have "commit_handover N p source target h = (Inr (), transition_complete p ?h)"
    using assms by (simp add: commit_handover_def propose_def)
  then show ?thesis using transition_complete_frame [of p ?h] by auto
qed

lemma abort_with_reason_frame:
  assumes "no_abort_committed N"
  shows "\<exists>tks. abort_with_reason N p source reason h =
    h\<lparr>ho_trackers := tks, ho_cluster := (ho_cluster h)\<lparr>cs_partition_table := assign (cs_partition_table (ho_cluster h)) p source\<rparr>\<rparr>"
proof (cases "hm_get (ho_trackers h) p")
  case None
  then have "abort_with_reason N p source reason h =
    h\<lparr>ho_trackers := ho_trackers h,
      ho_cluster := (ho_cluster h)\<lparr>cs_partition_table := assign (cs_partition_table (ho_cluster h)) p source\<rparr>\<rparr>"
    using assms by (simp add: abort_with_reason_def tracker_op_def propose_def)
  then show ?thesis by blast
next
  case (Some tk)
  then show ?thesis using assms by (cases "tracker_abort reason tk") (auto simp: abort_with_reason_def tracker_op_def propose_def)
qed

text \<open>The tracker of a fresh drive reaches the bulk phase, and from there the cutover phase.\<close>

lemma transition_begin_fresh:
  "hm_get (ho_trackers h) p = Some (tracker_new p) \<Longrightarrow>
    transition_begin p source target h =
      (Inr (), h\<lparr>ho_trackers := hm_insert p \<lparr>tt_partition = p, tt_state = BulkSync source target 0 0\<rparr> (ho_trackers h)\<rparr>)"
  by (simp add: transition_begin_def tracker_op_def tracker_begin_def tracker_new_def)

lemma transition_begin_cutover_bulk:
  "hm_get (ho_trackers h) p = Some \<lparr>tt_partition = p, tt_state = BulkSync source target a b\<rparr> \<Longrightarrow>
    transition_begin_cutover p h =
      (Inr (), h\<lparr>ho_trackers := hm_insert p \<lparr>tt_partition = p, tt_state = Cutover source target\<rparr> (ho_trackers h)\<rparr>)"
  by (simp add: transition_begin_cutover_def tracker_op_def begin_cutover_def)

definition segments_ok :: "'k handover \<Rightarrow> bool" where
  "segments_ok h \<longleftrightarrow> hm_invar (bs_files (ho_store h)) \<and> (\<forall>(s, d) \<in> set (bs_files (ho_store h)). d \<noteq> [] \<and> length d < 2 ^ 64)"

lemma bulk_sync_ok:
  assumes "segments_ok h" "hm_get (li_writers (ho_installer h)) (hv_pipeline E, as_u16 p) = None"
    and "dir_of (ho_installer h) p = []" "no_lost_after N = None"
  shows "\<exists>li. bulk_sync E N [] p h = Some (Inr (), h\<lparr>ho_installer := li\<rparr>) \<and>
    hm_get (dir_of li p) = hm_get (bs_files (ho_store h)) \<and> hm_invar (dir_of li p) \<and>
    hm_get (li_writers li) (hv_pipeline E, as_u16 p) = None"
proof -
  obtain li where li: "transfer_segments (hv_crc E) (hv_pipeline E) p (bs_files (ho_store h)) (ho_installer h) = Some (Inr (), li)"
    "hm_get (dir_of li p) = hm_get (bs_files (ho_store h))" "hm_invar (dir_of li p)" "hm_get (li_writers li) (hv_pipeline E, as_u16 p) = None"
    using transfer_copies_segments [OF _ _ assms(2,3), of "bs_files (ho_store h)" "hv_crc E"] assms(1)
    unfolding segments_ok_def by blast
  have "bulk_sync E N [] p h = map_option (\<lambda>(r, li). (r, h\<lparr>ho_installer := li\<rparr>))
      (transfer_segments (hv_crc E) (hv_pipeline E) p (bs_files (ho_store h)) (ho_installer h))"
    using assms(4)
    by (cases "serve_chunks (bs_files (ho_store h)) default_chunk_bytes (read_manifest (hv_crc E) (bs_files (ho_store h)))")
      (simp_all add: bulk_sync_def source_run_def transfer_segments_def Let_def split: prod.split)
  then show ?thesis using li by auto
qed

text \<open>
  The state in which a drive proposes \<open>CompleteTransfer\<close>: the target has the segments and the chain as they
  were when they were asked for, the source has gone on, and its gate is frozen.
\<close>

definition at_commit :: "'e handover_env \<Rightarrow> interleaving \<Rightarrow> partition_id \<Rightarrow> 'k handover \<Rightarrow> 'k handover \<Rightarrow> bool" where
  "at_commit E il p h h' \<longleftrightarrow>
     ho_cluster h' = ho_cluster h \<and>
     hm_get (dir_of (ho_installer h') p) = hm_get (bs_files (ho_store h)) \<and> hm_invar (dir_of (ho_installer h') p) \<and>
     hm_get (li_writers (ho_installer h')) (hv_pipeline E, as_u16 p) = None \<and>
     (\<forall>c. ho_chain (source_run E (il_before_poh il) h) = Some c \<longrightarrow>
        hm_get (ho_chains h') (hv_pipeline E, as_u16 p) = Some (from_state (hv_digest E) (export_state c) (hv_max_recent E))) \<and>
     ho_store h' = ho_store (source_run E (il_before_poh il @ il_before_cutover il) h) \<and>
     ho_chain h' = ho_chain (source_run E (il_before_poh il @ il_before_cutover il) h) \<and>
     (\<forall>g. ho_gate h = Some g \<longrightarrow> (\<exists>f. ho_gate h' = Some f \<and> wg_state f = Frozen))"

lemma source_run_append: "source_run E (as @ bs) h = source_run E bs (source_run E as h)"
  by (simp add: source_run_def)

lemma after_bulk_reaches_commit:
  assumes "reaches_commit N" "hm_get (ho_trackers h1) p = Some \<lparr>tt_partition = p, tt_state = BulkSync source target a b\<rparr>"
    and "exportable E p (ho_chain (source_run E (il_before_poh il) h1))" "\<forall>g. ho_gate h1 = Some g \<longrightarrow> wg_in_flight g = 0"
  shows "\<exists>h'. after_bulk E N il p source target h1 = commit_handover N p source target h' \<and>
    ho_cluster h' = ho_cluster h1 \<and> ho_installer h' = ho_installer h1 \<and>
    (\<forall>c. ho_chain (source_run E (il_before_poh il) h1) = Some c \<longrightarrow>
        hm_get (ho_chains h') (hv_pipeline E, as_u16 p) = Some (from_state (hv_digest E) (export_state c) (hv_max_recent E))) \<and>
    ho_store h' = ho_store (source_run E (il_before_poh il @ il_before_cutover il) h1) \<and>
    ho_chain h' = ho_chain (source_run E (il_before_poh il @ il_before_cutover il) h1) \<and>
    (\<forall>g. ho_gate h1 = Some g \<longrightarrow> (\<exists>f. ho_gate h' = Some f \<and> wg_state f = Frozen))"
proof -
  define h2 where "h2 = h1\<lparr>ho_trackers := hm_insert p \<lparr>tt_partition = p, tt_state = Cutover source target\<rparr> (ho_trackers h1)\<rparr>"
  have begun: "transition_begin_cutover p h1 = (Inr (), h2)"
    using transition_begin_cutover_bulk [OF assms(2)] by (simp add: h2_def)
  have part2: "source_part h2 = source_part h1" by (simp add: h2_def source_part_def)
  define h3 where "h3 = source_run E (il_before_poh il) h2"
  have chain3: "ho_chain h3 = ho_chain (source_run E (il_before_poh il) h1)"
    unfolding h3_def by (rule source_run_chain [OF part2])
  obtain reg where reg: "poh_sync E N p source h3 = (Inr (), h3\<lparr>ho_chains := reg\<rparr>)"
    "\<forall>c. ho_chain h3 = Some c \<longrightarrow>
       hm_get reg (hv_pipeline E, as_u16 p) = Some (from_state (hv_digest E) (export_state c) (hv_max_recent E))"
    using poh_sync_ok [of E p h3 N source] assms(1,3) chain3 unfolding reaches_commit_def by metis
  define h4 where "h4 = source_run E (il_before_cutover il) (h3\<lparr>ho_chains := reg\<rparr>)"
  have part3: "source_part (h3\<lparr>ho_chains := reg\<rparr>) = source_part (source_run E (il_before_poh il) h1)"
    using source_run_part [OF part2, of E "il_before_poh il"] by (simp add: source_part_def h3_def)
  have gate4: "ho_gate h4 = ho_gate h1" by (simp add: h4_def h3_def h2_def)
  obtain g' where g': "cutover E N p source h4 = (Inr (), h4\<lparr>ho_gate := g'\<rparr>)"
    "\<forall>g. ho_gate h4 = Some g \<longrightarrow> (\<exists>f. g' = Some f \<and> wg_state f = Frozen)"
    using cutover_ok [of h4 N E p source] assms(1,4) gate4 unfolding reaches_commit_def by metis
  have "after_bulk E N il p source target h1 = commit_handover N p source target (h4\<lparr>ho_gate := g'\<rparr>)"
    by (simp add: after_bulk_def begun h3_def [symmetric] reg(1) h4_def [symmetric] g'(1))
  moreover have "ho_cluster h4 = ho_cluster h1" "ho_installer h4 = ho_installer h1" "ho_chains h4 = reg"
    by (simp_all add: h4_def h3_def h2_def)
  moreover have "ho_store h4 = ho_store (source_run E (il_before_poh il @ il_before_cutover il) h1)"
    "ho_chain h4 = ho_chain (source_run E (il_before_poh il @ il_before_cutover il) h1)"
    using source_run_store [OF part3] source_run_chain [OF part3] by (simp_all add: h4_def source_run_append)
  ultimately show ?thesis using reg(2) g'(2) chain3 gate4 by (intro exI [of _ "h4\<lparr>ho_gate := g'\<rparr>"]) simp
qed

definition without_tracker :: "partition_id \<Rightarrow> unit res \<times> 'k handover \<Rightarrow> unit res \<times> 'k handover" where
  "without_tracker p rh = (fst rh, (snd rh)\<lparr>ho_trackers := hm_remove p (ho_trackers (snd rh))\<rparr>)"

text \<open>The state with the tracker of a drive that has begun.\<close>

definition begun :: "partition_id \<Rightarrow> node_id \<Rightarrow> node_id \<Rightarrow> 'k handover \<Rightarrow> 'k handover" where
  "begun p source target h = h\<lparr>ho_trackers := hm_insert p \<lparr>tt_partition = p, tt_state = BulkSync source target 0 0\<rparr>
     (hm_insert p (tracker_new p) (ho_trackers h))\<rparr>"

lemma begun_fields [simp]:
  "ho_cluster (begun p source target h) = ho_cluster h" "ho_installer (begun p source target h) = ho_installer h"
  "ho_gate (begun p source target h) = ho_gate h" "ho_store (begun p source target h) = ho_store h"
  "ho_chain (begun p source target h) = ho_chain h" "ho_chains (begun p source target h) = ho_chains h"
  "hm_get (ho_trackers (begun p source target h)) p = Some \<lparr>tt_partition = p, tt_state = BulkSync source target 0 0\<rparr>"
  by (simp_all add: begun_def map_simps)

lemma drive_after_bulk:
  assumes "ready E p source target h" "reaches_commit N"
    and "bulk_sync E N (il_streaming il) p (begun p source target h) = Some (Inr (), h1)"
  shows "drive_one E N il p source target h = Some (without_tracker p (after_bulk E N il p source target h1))"
proof -
  have "transition_begin p source target (h\<lparr>ho_trackers := hm_insert p (tracker_new p) (ho_trackers h)\<rparr>) = (Inr (), begun p source target h)"
    by (subst transition_begin_fresh) (simp_all add: begun_def map_simps)
  then show ?thesis
    using assms by (simp add: drive_one_def drive_one_inner_def ready_def reaches_commit_def without_tracker_def split: prod.split)
qed

lemma drive_reaches_commit:
  assumes "ready E p source target h" "segments_ok h" "dir_of (ho_installer h) p = []" "reaches_commit N"
    and "il_streaming il = []" "exportable E p (ho_chain (source_run E (il_before_poh il) h))"
  shows "\<exists>h'. drive_one E N il p source target h = Some (without_tracker p (commit_handover N p source target h')) \<and>
    at_commit E il p h h'"
proof -
  let ?h0 = "begun p source target h"
  obtain li where li: "bulk_sync E N [] p ?h0 = Some (Inr (), ?h0\<lparr>ho_installer := li\<rparr>)"
    "hm_get (dir_of li p) = hm_get (bs_files (ho_store h))" "hm_invar (dir_of li p)"
    "hm_get (li_writers li) (hv_pipeline E, as_u16 p) = None"
    using bulk_sync_ok [of ?h0 E p N] assms(1-4) by (auto simp: segments_ok_def ready_def reaches_commit_def)
  define h1 where "h1 = ?h0\<lparr>ho_installer := li\<rparr>"
  have part: "source_part h1 = source_part h" by (simp add: h1_def source_part_def)
  have fields: "ho_cluster h1 = ho_cluster h" "ho_installer h1 = li" "ho_gate h1 = ho_gate h"
    "hm_get (ho_trackers h1) p = Some \<lparr>tt_partition = p, tt_state = BulkSync source target 0 0\<rparr>"
    by (simp_all add: h1_def)
  have gate: "\<forall>g. ho_gate h1 = Some g \<longrightarrow> wg_in_flight g = 0" using assms(1) by (simp add: fields(3) ready_def)
  have exp: "exportable E p (ho_chain (source_run E (il_before_poh il) h1))"
    using assms(6) source_run_chain [OF part, of E "il_before_poh il"] by simp
  have "drive_one E N il p source target h = Some (without_tracker p (after_bulk E N il p source target h1))"
    using drive_after_bulk [OF assms(1,4)] assms(5) li(1) by (simp add: h1_def)
  then show ?thesis
    using after_bulk_reaches_commit [OF assms(4) fields(4) exp gate] li(2-4)
    unfolding fields(1-3) source_run_store [OF part] source_run_chain [OF part] at_commit_def by auto
qed

lemma table_get_complete: "table_get (complete_transfer t p n) q = (if q = p then Some (Owned n) else table_get t q)"
  by (simp add: table_defs map_simps)


section \<open>What a completed handover loses\<close>

lemma handover_table:
  assumes "ready E p source target h" "ho_cluster h' = ho_cluster h"
  shows "\<exists>tks. commit_handover no_faults p source target h' =
    (Inr (), h'\<lparr>ho_cluster := (ho_cluster h')\<lparr>cs_partition_table := complete_transfer (cs_partition_table (ho_cluster h')) p target\<rparr>,
       ho_trackers := tks\<rparr>)"
  using commit_handover_ok [of h' p source target no_faults] assms by (simp add: ready_def no_faults_def)

lemma l2_reopen_iter:
  assumes "l2_inv S crc st logs"
  shows "\<exists>st'. l2_open S crc (bs_files st) (bs_metas st) segb (bs_kek st) hold io = Inr st' \<and>
    iter_from S crc n st' = Inr (filter (\<lambda>(seq, _). seq \<ge> n) (concat logs))"
  using l2_reopen [OF assms, of segb hold io] assms
  by (auto simp: iter_from_def l2_inv_def intro!: iter_segments_logs)

text \<open>
  C36: the segments are copied before the source is frozen, and the offsets the cutover returns are dropped.
  An event the source made durable after the copy, while its gate was still open, is not in the store the
  target opens: the drive succeeds, the target owns the partition, and the source, frozen, still has the event.
\<close>

theorem late_event_not_transferred:
  assumes "ready E p source target h" "segments_ok h" "dir_of (ho_installer h) p = []"
    and "exportable E p (ho_chain h)" "gate_admits (ho_gate h)"
    and "l2_inv (hv_serde E) (hv_crc E) (ho_store h) logs" "bs_metas (ho_store h) = []" "bs_kek (ho_store h) = None"
    and "serde_roundtrips (hv_serde E)" "bs_next_seq (ho_store h) \<noteq> -1"
    and "fst (l2_append (hv_serde E) (hv_crc E) ev (ho_store h)) = Inr seq"
  shows "\<exists>h' st. drive_one E no_faults \<lparr>il_streaming = [], il_before_poh = [], il_before_cutover = [AppendEvent ev]\<rparr> p source target h
      = Some (Inr (), h') \<and>
    table_get (cs_partition_table (ho_cluster h')) p = Some (Owned target) \<and>
    l2_open (hv_serde E) (hv_crc E) (dir_of (ho_installer h') p) [] segb (None :: 'k kek option) hold io = Inr st \<and>
    iter_from (hv_serde E) (hv_crc E) 0 st = Inr (concat logs) \<and>
    iter_from (hv_serde E) (hv_crc E) 0 (ho_store (h' :: 'k handover)) = Inr (concat logs @ [(seq, strip_event ev)])"
proof -
  let ?il = "\<lparr>il_streaming = [], il_before_poh = [], il_before_cutover = [AppendEvent ev]\<rparr>"
  obtain hc where hc: "drive_one E no_faults ?il p source target h = Some (without_tracker p (commit_handover no_faults p source target hc))"
    "at_commit E ?il p h hc"
    using drive_reaches_commit [OF assms(1-3), of no_faults ?il] assms(4)
    by (auto simp: reaches_commit_def no_faults_def source_run_def)
  obtain tks where tks: "commit_handover no_faults p source target hc =
    (Inr (), hc\<lparr>ho_cluster := (ho_cluster hc)\<lparr>cs_partition_table := complete_transfer (cs_partition_table (ho_cluster hc)) p target\<rparr>,
       ho_trackers := tks\<rparr>)"
    using handover_table [OF assms(1), of hc] hc(2) by (auto simp: at_commit_def)
  define d where "d = dir_of (ho_installer hc) p"
  have d: "hm_get (bs_files (ho_store h)) = hm_get d" "hm_invar d" using hc(2) by (simp_all add: at_commit_def d_def)
  have inv: "hm_invar (bs_files (ho_store h))" using assms(2) by (simp add: segments_ok_def)
  obtain st where st: "l2_open (hv_serde E) (hv_crc E) d [] segb (None :: 'k kek option) hold io = Inr st"
    "iter_from (hv_serde E) (hv_crc E) 0 st = Inr (concat logs)"
  proof -
    obtain st0 where st0: "l2_open (hv_serde E) (hv_crc E) (bs_files (ho_store h)) [] segb (None :: 'k kek option) hold io = Inr st0"
      "iter_from (hv_serde E) (hv_crc E) 0 st0 = Inr (concat logs)"
      using l2_reopen_iter [OF assms(6), of segb hold io 0] assms(7,8) by auto
    show ?thesis using that l2_open_cong [OF d(1) inv d(2) st0(1)] st0(2) by auto
  qed
  define sta where "sta = snd (l2_append (hv_serde E) (hv_crc E) ev (ho_store h))"
  have app: "l2_append (hv_serde E) (hv_crc E) ev (ho_store h) = (Inr seq, sta)" using assms(11) by (simp add: sta_def prod_eq_iff)
  have kek: "kek_ok (bs_kek (ho_store h))" using assms(8) by (simp add: kek_ok_def)
  obtain logs' where logs': "l2_inv (hv_serde E) (hv_crc E) sta logs'" "concat logs' = concat logs @ [(seq, strip_event ev)]"
    using l2_append_inv [OF assms(6) kek assms(9,10) app] by metis
  have "ho_store hc = sta"
    using hc(2) assms(5) by (simp add: at_commit_def source_run_def sta_def)
  then have "iter_from (hv_serde E) (hv_crc E) 0 (ho_store hc) = Inr (concat logs @ [(seq, strip_event ev)])"
    using l2_inv_iter [OF logs'(1), of 0] logs'(2) by simp
  then show ?thesis
    using st unfolding hc(1) tks d_def by (simp add: without_tracker_def table_get_complete)
qed

text \<open>
  C37: a sweep of acknowledged segments between the manifest and the reading of its first segment makes the
  source end the stream with a failure.  The installer answers a failed end frame by clearing the directory
  and returning success, so the drive goes on: the target becomes the owner with an empty directory, although
  the source still has the segments that were not swept.
\<close>

theorem swept_transfer_completes_empty:
  assumes "ready E p source target h" "exportable E p (ho_chain h)"
    and "read_manifest (hv_crc E) (bs_files (ho_store h)) = e # es"
    and "gc_up_to_at min_ack now (ho_store h) = (r, st)" "hm_get (bs_files st) (en_start_seq e) = None"
  shows "\<exists>h'. drive_one E no_faults \<lparr>il_streaming = [SweepAcked min_ack now], il_before_poh = [], il_before_cutover = []\<rparr> p source target h
      = Some (Inr (), h') \<and>
    table_get (cs_partition_table (ho_cluster h')) p = Some (Owned target) \<and>
    dir_of (ho_installer h') p = [] \<and> ho_store h' = st"
proof -
  let ?il = "\<lparr>il_streaming = [SweepAcked min_ack now], il_before_poh = [], il_before_cutover = []\<rparr>"
  have reaches: "reaches_commit no_faults" by (simp add: reaches_commit_def no_faults_def)
  define li where "li = snd (installer_finish (hv_pipeline E) p False (snd (installer_begin (hv_pipeline E) p (e # es) (ho_installer h))))"
  define h1 where "h1 = (begun p source target h)\<lparr>ho_store := st, ho_installer := li\<rparr>"
  have "receive_stream (hv_crc E) (hv_pipeline E) p (e # es) [] (EndFrame False) (ho_installer h) = (Inr (), li)"
    using assms(1) by (simp add: receive_stream_def installer_begin_def installer_finish_def ready_def li_def Let_def map_simps)
  moreover have "serve_chunks (bs_files st) default_chunk_bytes (e # es) = Some ([], False)"
    using assms(5) by (simp add: reader_open_def)
  ultimately have bulk: "bulk_sync E no_faults [SweepAcked min_ack now] p (begun p source target h) = Some (Inr (), h1)"
    using assms(3,4) by (simp add: bulk_sync_def source_run_def no_faults_def h1_def Let_def)
  have dir: "dir_of li p = []"
    using assms(1) by (simp add: li_def installer_finish_def installer_begin_def ready_def dir_of_def Let_def map_simps)
  have gate: "\<forall>g. ho_gate h1 = Some g \<longrightarrow> wg_in_flight g = 0" using assms(1) by (simp add: h1_def ready_def)
  have fields: "hm_get (ho_trackers h1) p = Some \<lparr>tt_partition = p, tt_state = BulkSync source target 0 0\<rparr>"
    "exportable E p (ho_chain (source_run E (il_before_poh ?il) h1))"
    using assms(2) by (simp_all add: h1_def source_run_def)
  obtain hc where hc: "after_bulk E no_faults ?il p source target h1 = commit_handover no_faults p source target hc"
    "ho_cluster hc = ho_cluster h1" "ho_installer hc = ho_installer h1" "ho_store hc = ho_store h1"
    using after_bulk_reaches_commit [OF reaches fields gate] by (auto simp: source_run_def)
  have drive: "drive_one E no_faults ?il p source target h = Some (without_tracker p (commit_handover no_faults p source target hc))"
    using drive_after_bulk [OF assms(1) reaches, of ?il] bulk hc(1) by simp
  obtain tks where "commit_handover no_faults p source target hc =
    (Inr (), hc\<lparr>ho_cluster := (ho_cluster hc)\<lparr>cs_partition_table := complete_transfer (cs_partition_table (ho_cluster hc)) p target\<rparr>,
       ho_trackers := tks\<rparr>)"
    using handover_table [OF assms(1), of hc] hc(2) by (auto simp: h1_def)
  then show ?thesis using drive hc(2-4) dir by (simp add: without_tracker_def table_get_complete h1_def)
qed

lemma shut_source_run: "\<not> gate_admits (ho_gate h) \<Longrightarrow> source_run E (map AppendEvent evs) h = h"
  by (induction evs) (simp_all add: source_run_def)

text \<open>
  C38: when the proposal of \<open>CompleteTransfer\<close> fails, the drive reverts the ownership to the source, but nothing
  reopens the source's gate: the source owns the partition and admits no event any more.
\<close>

theorem reverted_handover_stays_frozen:
  assumes "ready E p source target h" "segments_ok h" "dir_of (ho_installer h) p = []" "ho_gate h = Some g"
    and "reaches_commit N" "\<not> no_complete_committed N" "no_abort_committed N"
    and "il_streaming il = []" "exportable E p (ho_chain (source_run E (il_before_poh il) h))"
  shows "\<exists>h' err. drive_one E N il p source target h = Some (Inl err, h') \<and>
    table_get (cs_partition_table (ho_cluster h')) p = Some (Owned source) \<and>
    \<not> gate_admits (ho_gate h') \<and>
    (\<forall>evs. ho_store (source_run E (map AppendEvent evs) h') = ho_store h')"
proof -
  obtain hc where hc: "drive_one E N il p source target h = Some (without_tracker p (commit_handover N p source target hc))"
    "at_commit E il p h hc"
    using drive_reaches_commit [OF assms(1-3,5,8,9)] by auto
  obtain tks where tks: "commit_handover N p source target hc = (Inl (Cluster ''partition-driver: CompleteTransfer propose failed''),
      hc\<lparr>ho_trackers := tks, ho_cluster := (ho_cluster hc)\<lparr>cs_partition_table := assign (cs_partition_table (ho_cluster hc)) p source\<rparr>\<rparr>)"
    using abort_with_reason_frame [OF assms(7), of p source "''CompleteTransfer propose failed''" hc] assms(6)
    by (auto simp: commit_handover_def propose_def)
  obtain f where f: "ho_gate hc = Some f" "wg_state f = Frozen" using hc(2) assms(4) by (auto simp: at_commit_def)
  have shut: "\<not> gate_admits (Some f)" using f(2) by (simp add: gate_admits_def try_enter_def)
  then show ?thesis
    using f unfolding hc(1) tks by (simp add: without_tracker_def table_defs map_simps shut_source_run)
qed

section \<open>A sample handover\<close>

definition sample_handover_env :: "unit handover_env" where
  "sample_handover_env =
     \<lparr>hv_digest = tail_digest, hv_signer = sample_signer, hv_key = None, hv_serde = byte_serde, hv_crc = sum_crc,
      hv_encode = \<lambda>st. Inr [1], hv_decode = \<lambda>bs. Inr (export_state (poh_new tail_digest (PartitionId 0) 4)),
      hv_watermarks = None, hv_mode = TrustExtend, hv_max_recent = 4, hv_pipeline = ''p'', hv_my_id = 2\<rparr>"

definition sample_handover :: "unit l2_store \<Rightarrow> unit handover" where
  "sample_handover st =
     \<lparr>ho_store = st, ho_chain = Some (poh_new tail_digest (PartitionId 0) 4), ho_gate = Some gate_new,
      ho_installer = empty_installer, ho_chains = [], ho_trackers = [],
      ho_cluster = snapshot_default\<lparr>cs_partition_table := [(PartitionId 0, Transferring 1 2)]\<rparr>\<rparr>"

lemma sample_ready: "ready sample_handover_env (PartitionId 0) 1 2 (sample_handover st)"
  by (simp add: ready_def sample_handover_def sample_handover_env_def table_get_def gate_new_def empty_installer_def)

lemma sample_exportable: "exportable sample_handover_env p (ho_chain (sample_handover st))"
  by (simp add: exportable_def sample_handover_def sample_handover_env_def)

lemma sample_handover_dir: "dir_of (ho_installer (sample_handover st)) p = []"
  by (simp add: sample_handover_def empty_installer_empty)


theorem late_event_not_transferred_witness:
  "\<exists>h' st. drive_one sample_handover_env no_faults \<lparr>il_streaming = [], il_before_poh = [], il_before_cutover = [AppendEvent sample_event]\<rparr>
      (PartitionId 0) 1 2 (sample_handover sample_l2) = Some (Inr (), h') \<and>
    table_get (cs_partition_table (ho_cluster h')) (PartitionId 0) = Some (Owned 2) \<and>
    l2_open byte_serde sum_crc (dir_of (ho_installer h') (PartitionId 0)) [] 1 (None :: unit kek option) 0 [] = Inr st \<and>
    iter_from byte_serde sum_crc 0 st = Inr [] \<and> iter_from byte_serde sum_crc 0 (ho_store h') = Inr [(0, strip_event sample_event)]"
proof -
  have st: "ho_store (sample_handover sample_l2) = sample_l2" "hv_serde sample_handover_env = byte_serde"
    "hv_crc sample_handover_env = sum_crc" by (simp_all add: sample_handover_def sample_handover_env_def)
  obtain p where p: "seal_event byte_serde None sample_event = Inr p" using sample_seal by blast
  have app: "fst (l2_append byte_serde sum_crc sample_event sample_l2) = Inr 0"
    by (simp add: sample_l2_def l2_append_def roll_segment_def need_new_segment_def segment_create_def take_io_def segment_append_def p)
  have "l2_open byte_serde sum_crc [] [] 1 None 0 [] = Inr sample_l2" by (simp add: l2_open_def sample_l2_def)
  then have "l2_inv byte_serde sum_crc sample_l2 []" using l2_open_empty_inv by blast
  then show ?thesis
    using late_event_not_transferred [OF sample_ready _ sample_handover_dir sample_exportable, of sample_l2 "[]" sample_event 0 1 0 "[]"]
    by (simp add: st app byte_serde_roundtrips segments_ok_def gate_admits_def try_enter_def sample_handover_def gate_new_def)
      (simp add: sample_l2_def)
qed

lemma sample_sweep:
  "\<exists>st1 st2 a b. l2_append_all byte_serde sum_crc [sample_event, sample_event] sample_l2 = (Inr [0, 1], st1) \<and>
     gc_up_to_at 1 0 st1 = (Inr 1, st2) \<and> bs_files st1 = [(0, a), (1, b)] \<and> hm_get (bs_files st2) 0 = None"
proof -
  obtain p where p: "seal_event byte_serde None sample_event = Inr p" "1 \<le> (28 + of_nat (length p) :: u64)"
    using sample_seal by blast
  show ?thesis
    by (simp add: sample_l2_def l2_append_def roll_segment_def need_new_segment_def segment_create_def take_io_def
        segment_append_def p effective_segment_bytes_def gc_up_to_at_def gc_loop.simps map_simps)
qed

theorem swept_transfer_completes_empty_witness:
  "\<exists>st1 st2 h'. l2_append_all byte_serde sum_crc [sample_event, sample_event] sample_l2 = (Inr [0, 1], st1) \<and>
     gc_up_to_at 1 0 st1 = (Inr 1, st2) \<and>
     drive_one sample_handover_env no_faults \<lparr>il_streaming = [SweepAcked 1 0], il_before_poh = [], il_before_cutover = []\<rparr>
       (PartitionId 0) 1 2 (sample_handover st1) = Some (Inr (), h') \<and>
     table_get (cs_partition_table (ho_cluster h')) (PartitionId 0) = Some (Owned 2) \<and>
     dir_of (ho_installer h') (PartitionId 0) = [] \<and> ho_store h' = st2"
proof -
  obtain st1 st2 a b where st: "l2_append_all byte_serde sum_crc [sample_event, sample_event] sample_l2 = (Inr [0, 1], st1)"
    "gc_up_to_at 1 0 st1 = (Inr 1, st2)" "bs_files st1 = [(0, a), (1, b)]" "hm_get (bs_files st2) 0 = None"
    using sample_sweep by blast
  have store: "ho_store (sample_handover st1) = st1" by (simp add: sample_handover_def)
  have "read_manifest (hv_crc sample_handover_env) (bs_files (ho_store (sample_handover st1))) =
      [entry_of sum_crc (0, a), entry_of sum_crc (1, b)]"
    by (simp add: store st(3) read_manifest_def sample_handover_env_def)
  from swept_transfer_completes_empty [OF sample_ready sample_exportable this, of 1 0 "Inr 1" st2] st(1,2,4)
  show ?thesis by (auto simp: store entry_of_def)
qed

theorem reverted_handover_stays_frozen_witness:
  "\<exists>h' err. drive_one sample_handover_env (no_faults\<lparr>no_complete_committed := False\<rparr>)
      \<lparr>il_streaming = [], il_before_poh = [], il_before_cutover = []\<rparr> (PartitionId 0) 1 2 (sample_handover sample_l2) = Some (Inl err, h') \<and>
    table_get (cs_partition_table (ho_cluster h')) (PartitionId 0) = Some (Owned 1) \<and>
    ho_store (source_run sample_handover_env (map AppendEvent [sample_event]) h') = ho_store h'"
proof -
  let ?N = "no_faults\<lparr>no_complete_committed := False\<rparr>" and ?il = "\<lparr>il_streaming = [], il_before_poh = [], il_before_cutover = []\<rparr>"
  have "segments_ok (sample_handover sample_l2)" by (simp add: segments_ok_def sample_handover_def sample_l2_def)
  moreover have "exportable sample_handover_env (PartitionId 0)
      (ho_chain (source_run sample_handover_env (il_before_poh ?il) (sample_handover sample_l2)))"
    using sample_exportable by (simp add: source_run_def)
  moreover have "ho_gate (sample_handover sample_l2) = Some gate_new" by (simp add: sample_handover_def)
  moreover have "reaches_commit ?N" "\<not> no_complete_committed ?N" "no_abort_committed ?N"
    by (simp_all add: reaches_commit_def no_faults_def)
  ultimately show ?thesis
    using reverted_handover_stays_frozen [OF sample_ready _ sample_handover_dir, of sample_l2 gate_new ?N ?il]
    by (metis interleaving.select_convs(1))
qed

end
