(* ===== verification/Pipeline.thy ===== *)
theory Pipeline
  imports Sink_Task Poh_Chain Write_Gate
begin

text \<open>
  The pipeline runners of \<open>aeon-engine/src/pipeline.rs\<close>: the direct loops \<open>run\<close> and \<open>run_with_delivery\<close>, and
  \<open>run_buffered\<close> with its source, processor and sink tasks connected by two bounded rings.

  The buffered pipeline is a state machine.  Every step is one task's next access to something the tasks
  share: the shutdown flag, the capacity accounts, the write gate, a ring, the flag that its producer is
  gone.  A ring of the rtrb crate is taken with its documented contract: a queue of the given capacity whose
  push hands the value back when the queue is full, and which is abandoned once its producer is dropped.
  The sink task is the one of \<open>Sink_Task\<close>; the L2 registry, the capacity accounts and the metrics
  the source shares with it are kept in its state.  The processor is a record of operations over a hidden
  state.
\<close>

record 'p processor_ops =
  pr_process_batch :: "event list \<Rightarrow> 'p \<Rightarrow> aeon_output list res \<times> 'p"
  pr_snapshot_state :: "'p \<Rightarrow> (bytes \<times> bytes) list res"
  pr_restore_state :: "(bytes \<times> bytes) list \<Rightarrow> 'p \<Rightarrow> unit res \<times> 'p"

text \<open>The default implementation of \<open>process_batch\<close> over a \<open>process\<close> of one event.\<close>

fun process_each :: "(event \<Rightarrow> 'p \<Rightarrow> aeon_output list res \<times> 'p) \<Rightarrow> event list \<Rightarrow> 'p \<Rightarrow> aeon_output list res \<times> 'p" where
  "process_each f [] p = (Inr [], p)"
| "process_each f (ev # evs) p =
     (case f ev p of
        (Inl e, p) \<Rightarrow> (Inl e, p)
      | (Inr outs, p) \<Rightarrow> (case process_each f evs p of (r, p) \<Rightarrow> (rbind r (\<lambda>rest. Inr (outs @ rest)), p)))"

definition transfer_processor_state :: "'p processor_ops \<Rightarrow> 'q processor_ops \<Rightarrow> 'p \<Rightarrow> 'q \<Rightarrow> 'q" where
  "transfer_processor_state From To p q =
     (case pr_snapshot_state From p of
        Inl _ \<Rightarrow> q
      | Inr snap \<Rightarrow> if snap = [] then q else snd (pr_restore_state To snap q))"

definition add_received :: "nat \<Rightarrow> pipeline_metrics \<Rightarrow> pipeline_metrics" where
  "add_received n m = m\<lparr>pm_events_received := pm_events_received m + of_nat n\<rparr>"

definition add_processed :: "nat \<Rightarrow> pipeline_metrics \<Rightarrow> pipeline_metrics" where
  "add_processed n m = m\<lparr>pm_events_processed := pm_events_processed m + of_nat n\<rparr>"

section \<open>The direct loops\<close>

text \<open>
  The source, the processor, the sink and the metrics.  \<open>shutdown\<close> lists what the flag reads at the start of
  each iteration; \<open>None\<close> as a result: the loop is still running when the list ends.  With \<open>deliver\<close> given,
  the loop applies that failure policy and retry count, as \<open>run_with_delivery\<close> does.
\<close>

type_synonym ('s, 'p, 'n) direct_state = "'s \<times> 'p \<times> 'n \<times> pipeline_metrics"

fun direct_loop :: "'s source_ops \<Rightarrow> 'p processor_ops \<Rightarrow> 'n sink_ops \<Rightarrow> (batch_failure_policy \<times> u32) option \<Rightarrow> source_kind
    \<Rightarrow> bool list \<Rightarrow> ('s, 'p, 'n) direct_state \<Rightarrow> unit res option \<times> ('s, 'p, 'n) direct_state" where
  "direct_loop Src Prc Snk deliver kind [] st = (None, st)"
| "direct_loop Src Prc Snk deliver kind (True # flags) (s, p, n, m) =
     (case sk_flush Snk n of (r, n) \<Rightarrow> (Some r, (s, p, n, m)))"
| "direct_loop Src Prc Snk deliver kind (False # flags) (s, p, n, m) =
     (case so_next_batch Src s of
        (Inl e, s) \<Rightarrow> (Some (Inl e), (s, p, n, m))
      | (Inr events, s) \<Rightarrow>
          if events = [] then
            (case kind of
               Pull \<Rightarrow> (case sk_flush Snk n of (r, n) \<Rightarrow> (Some r, (s, p, n, m)))
             | _ \<Rightarrow> direct_loop Src Prc Snk deliver kind flags (s, p, n, m))
          else
            let m = add_received (length events) m
            in case pr_process_batch Prc events p of
                 (Inl e, p) \<Rightarrow> (Some (Inl e), (s, p, n, m))
               | (Inr outs, p) \<Rightarrow>
                   let m = add_processed (length events) m
                   in case sk_write_batch Snk outs n of
                        (Inl e, n) \<Rightarrow> (Some (Inl e), (s, p, n, m))
                      | (Inr r, n) \<Rightarrow>
                          let m = add_sent (length (br_delivered r)) m
                          in case deliver of
                               None \<Rightarrow> direct_loop Src Prc Snk deliver kind flags (s, p, n, m)
                             | Some (policy, max_retries) \<Rightarrow>
                                 if \<not> has_failures r then direct_loop Src Prc Snk deliver kind flags (s, p, n, m)
                                 else (case handle_batch_failures Snk 0 outs r policy max_retries (n, m, None) of
                                         (Inl e, n, m, _) \<Rightarrow> (Some (Inl e), (s, p, n, m))
                                       | (Inr _, n, m, _) \<Rightarrow> direct_loop Src Prc Snk deliver kind flags (s, p, n, m)))"

definition direct_run :: "'s source_ops \<Rightarrow> 'p processor_ops \<Rightarrow> 'n sink_ops \<Rightarrow> bool list \<Rightarrow> ('s, 'p, 'n) direct_state
    \<Rightarrow> unit res option \<times> ('s, 'p, 'n) direct_state" where
  "direct_run Src Prc Snk flags st = direct_loop Src Prc Snk None (so_kind Src (fst st)) flags st"

definition run_with_delivery :: "'s source_ops \<Rightarrow> 'p processor_ops \<Rightarrow> 'n sink_ops \<Rightarrow> batch_failure_policy \<Rightarrow> u32 \<Rightarrow> bool list
    \<Rightarrow> ('s, 'p, 'n) direct_state \<Rightarrow> unit res option \<times> ('s, 'p, 'n) direct_state" where
  "run_with_delivery Src Prc Snk policy max_retries flags st =
     direct_loop Src Prc Snk (Some (policy, max_retries)) (so_kind Src (fst st)) flags st"

section \<open>The buffered pipeline\<close>

record ('s, 'p, 'n, 'c, 'f, 'e) pipe_env =
  pe_source :: "'s source_ops"
  pe_order :: "(partition_id \<times> nat list) list \<Rightarrow> (partition_id \<times> nat list) list"
  pe_processor :: "'p processor_ops"
  pe_sink :: "('n, 'c, 'f) sink_env"
  pe_cfg :: sink_cfg
  pe_digest :: digest
  pe_signer :: "'e ed25519"
  pe_key :: "'e option"
  pe_source_buffer_capacity :: nat
  pe_sink_buffer_capacity :: nat

text \<open>
  Where a task is.  The source: at the loop test, at the first capacity decision, in the pressure loop, at
  the gate, fetching, pushing a batch, finished.  The processor: at the loop test, popping, having popped
  nothing, pushing its outputs, finished.  The sink: popping, having popped nothing, finished.
\<close>

datatype src_pc = SrcTop | SrcCapacity | SrcPressed | SrcGate | SrcFetch | SrcPush "event list" | SrcDone "unit res"
datatype proc_pc = ProcTop | ProcPop | ProcEmpty | ProcPush "aeon_output list" | ProcDone "unit res"
datatype sink_pc = SinkPop | SinkEmpty | SinkDone "unit res"

record ('s, 'p, 'n, 'c, 'k, 'f) pipe =
  ps_source :: "('s, 'k) maybe_l2"
  ps_kind :: source_kind
  ps_src_pc :: src_pc
  ps_gate :: "write_gate option"
  ps_src_ring :: "event list list"
  ps_src_open :: bool
  ps_proc :: 'p
  ps_proc_pc :: proc_pc
  ps_chain :: "poh_chain option"
  ps_sink_ring :: "aeon_output list list"
  ps_sink_open :: bool
  ps_sink :: "('n, 'c, 'k, 'f) sink_state"
  ps_sink_pc :: sink_pc
  ps_shutdown :: bool

subsection \<open>The source task\<close>

definition on_metrics :: "(pipeline_metrics \<Rightarrow> pipeline_metrics) \<Rightarrow> ('s, 'p, 'n, 'c, 'k, 'f) pipe \<Rightarrow> ('s, 'p, 'n, 'c, 'k, 'f) pipe" where
  "on_metrics f p = p\<lparr>ps_sink := (ps_sink p)\<lparr>st_metrics := f (st_metrics (ps_sink p))\<rparr>\<rparr>"

definition leave_gate :: "('s, 'p, 'n, 'c, 'k, 'f) pipe \<Rightarrow> ('s, 'p, 'n, 'c, 'k, 'f) pipe" where
  "leave_gate p = p\<lparr>ps_gate := map_option (\<lambda>g. snd (drop_guard g)) (ps_gate p)\<rparr>"

definition src_finish :: "unit res \<Rightarrow> ('s, 'p, 'n, 'c, 'k, 'f) pipe \<Rightarrow> ('s, 'p, 'n, 'c, 'k, 'f) pipe" where
  "src_finish r p = p\<lparr>ps_src_pc := SrcDone r, ps_src_open := False\<rparr>"

text \<open>A fetch through the wrapped source works on the registry and the accounts the sink task shares.\<close>

definition fetch :: "('s, 'p, 'n, 'c, 'f, 'e) pipe_env \<Rightarrow> ('s, 'p, 'n, 'c, 'k, 'f) pipe \<Rightarrow> event list res \<times> ('s, 'p, 'n, 'c, 'k, 'f) pipe" where
  "fetch E p =
     (case ps_source p of
        Direct s \<Rightarrow> (case so_next_batch (pe_source E) s of (r, s) \<Rightarrow> (r, p\<lparr>ps_source := Direct s\<rparr>))
      | Wrapped w \<Rightarrow>
          let st = ps_sink p;
              w = w\<lparr>ls_registry := (case st_registry st of Some reg \<Rightarrow> reg | None \<Rightarrow> ls_registry w), ls_capacity := st_capacity st\<rparr>
          in case l2_next_batch (se_serde (pe_sink E)) (se_crc (pe_sink E)) (pe_source E) (pe_order E) w of
               (r, w) \<Rightarrow>
                 (r, p\<lparr>ps_source := Wrapped w,
                       ps_sink := st\<lparr>st_registry := Some (ls_registry w), st_capacity := ls_capacity w\<rparr>\<rparr>))"

definition pressed :: "('s, 'p, 'n, 'c, 'k, 'f) pipe \<Rightarrow> bool" where
  "pressed p = (case st_capacity (ps_sink p) of Some cap \<Rightarrow> is_engaged (decide cap 0 (ps_kind p)) | None \<Rightarrow> False)"

definition source_fetch :: "('s, 'p, 'n, 'c, 'f, 'e) pipe_env \<Rightarrow> ('s, 'p, 'n, 'c, 'k, 'f) pipe \<Rightarrow> ('s, 'p, 'n, 'c, 'k, 'f) pipe" where
  "source_fetch E p =
     (case fetch E p of
        (Inl e, p) \<Rightarrow> src_finish (Inl e) (leave_gate p)
      | (Inr events, p) \<Rightarrow>
          if events = [] then
            (case ps_kind p of
               Pull \<Rightarrow> src_finish (Inr ()) (leave_gate p)
             | _ \<Rightarrow> leave_gate (p\<lparr>ps_src_pc := SrcTop\<rparr>))
          else on_metrics (add_received (length events)) (p\<lparr>ps_src_pc := SrcPush events\<rparr>))"

definition source_task :: "('s, 'p, 'n, 'c, 'f, 'e) pipe_env \<Rightarrow> ('s, 'p, 'n, 'c, 'k, 'f) pipe \<Rightarrow> ('s, 'p, 'n, 'c, 'k, 'f) pipe option" where
  "source_task E p =
     (case ps_src_pc p of
        SrcTop \<Rightarrow> Some (if ps_shutdown p then src_finish (Inr ()) p else p\<lparr>ps_src_pc := SrcCapacity\<rparr>)
      | SrcCapacity \<Rightarrow> Some (p\<lparr>ps_src_pc := (if pressed p then SrcPressed else SrcGate)\<rparr>)
      | SrcPressed \<Rightarrow> Some (p\<lparr>ps_src_pc := (if \<not> ps_shutdown p \<and> pressed p then SrcPressed else SrcGate)\<rparr>)
      | SrcGate \<Rightarrow>
          Some (case ps_gate p of
                  None \<Rightarrow> p\<lparr>ps_src_pc := SrcFetch\<rparr>
                | Some g \<Rightarrow>
                    (case try_enter g of
                       (True, g) \<Rightarrow> p\<lparr>ps_gate := Some g, ps_src_pc := SrcFetch\<rparr>
                     | (False, g) \<Rightarrow> src_finish (Inr ()) p))
      | SrcFetch \<Rightarrow> Some (source_fetch E p)
      | SrcPush batch \<Rightarrow>
          Some (if length (ps_src_ring p) < pe_source_buffer_capacity E
                then leave_gate (p\<lparr>ps_src_ring := ps_src_ring p @ [batch], ps_src_pc := SrcTop\<rparr>) else p)
      | SrcDone _ \<Rightarrow> None)"

subsection \<open>The processor task\<close>

definition proc_finish :: "unit res \<Rightarrow> ('s, 'p, 'n, 'c, 'k, 'f) pipe \<Rightarrow> ('s, 'p, 'n, 'c, 'k, 'f) pipe" where
  "proc_finish r p = p\<lparr>ps_proc_pc := ProcDone r, ps_sink_open := False\<rparr>"

text \<open>\<open>poh_append_batch\<close>; \<open>None\<close> where the chain panics.\<close>

definition poh_append_batch :: "('s, 'p, 'n, 'c, 'f, 'e) pipe_env \<Rightarrow> i64 \<Rightarrow> aeon_output list \<Rightarrow> ('s, 'p, 'n, 'c, 'k, 'f) pipe
    \<Rightarrow> ('s, 'p, 'n, 'c, 'k, 'f) pipe option" where
  "poh_append_batch E timestamp_nanos outputs p =
     (case ps_chain p of
        None \<Rightarrow> Some p
      | Some chain \<Rightarrow>
          if outputs = [] then Some p
          else map_option (\<lambda>(entry, chain).
                 let p = p\<lparr>ps_chain := Some chain\<rparr>
                 in if entry \<noteq> None then on_metrics (\<lambda>m. m\<lparr>pm_poh_entries := pm_poh_entries m + 1\<rparr>) p else p)
               (append_batch (pe_digest E) (pe_signer E) (map out_payload outputs) timestamp_nanos (pe_key E) chain))"

definition process_popped :: "('s, 'p, 'n, 'c, 'f, 'e) pipe_env \<Rightarrow> i64 \<Rightarrow> event list \<Rightarrow> ('s, 'p, 'n, 'c, 'k, 'f) pipe
    \<Rightarrow> ('s, 'p, 'n, 'c, 'k, 'f) pipe" where
  "process_popped E ts events p =
     (case pr_process_batch (pe_processor E) events (ps_proc p) of
        (Inl e, q) \<Rightarrow> proc_finish (Inl e) (p\<lparr>ps_proc := q\<rparr>)
      | (Inr outputs, q) \<Rightarrow>
          let p = on_metrics (add_processed (length events)) (p\<lparr>ps_proc := q\<rparr>)
          in case poh_append_batch E ts outputs p of
               None \<Rightarrow> proc_finish (Inl (Processor ''processor task panicked'')) p
             | Some p \<Rightarrow> p\<lparr>ps_proc_pc := ProcPush outputs\<rparr>)"

definition processor_task :: "('s, 'p, 'n, 'c, 'f, 'e) pipe_env \<Rightarrow> i64 \<Rightarrow> ('s, 'p, 'n, 'c, 'k, 'f) pipe \<Rightarrow> ('s, 'p, 'n, 'c, 'k, 'f) pipe option" where
  "processor_task E ts p =
     (case ps_proc_pc p of
        ProcTop \<Rightarrow> Some (if ps_shutdown p then proc_finish (Inr ()) p else p\<lparr>ps_proc_pc := ProcPop\<rparr>)
      | ProcPop \<Rightarrow>
          Some (case ps_src_ring p of
                  [] \<Rightarrow> p\<lparr>ps_proc_pc := ProcEmpty\<rparr>
                | events # ring \<Rightarrow> process_popped E ts events (p\<lparr>ps_src_ring := ring\<rparr>))
      | ProcEmpty \<Rightarrow> Some (if \<not> ps_src_open p then proc_finish (Inr ()) p else p\<lparr>ps_proc_pc := ProcTop\<rparr>)
      | ProcPush batch \<Rightarrow>
          Some (if length (ps_sink_ring p) < pe_sink_buffer_capacity E
                then p\<lparr>ps_sink_ring := ps_sink_ring p @ [batch], ps_proc_pc := ProcTop\<rparr> else p)
      | ProcDone _ \<Rightarrow> None)"

subsection \<open>The sink task and the whole\<close>

definition sink_task :: "('s, 'p, 'n, 'c, 'f, 'e) pipe_env \<Rightarrow> instant \<Rightarrow> ('s, 'p, 'n, 'c, 'k, 'f) pipe \<Rightarrow> ('s, 'p, 'n, 'c, 'k, 'f) pipe option" where
  "sink_task E now p =
     (case ps_sink_pc p of
        SinkPop \<Rightarrow>
          Some (case ps_sink_ring p of
                  [] \<Rightarrow> p\<lparr>ps_sink_pc := SinkEmpty\<rparr>
                | outputs # ring \<Rightarrow>
                    (case sink_batch (pe_sink E) (pe_cfg E) now outputs (ps_sink p) of
                       (Inl e, st) \<Rightarrow> p\<lparr>ps_sink_ring := ring, ps_sink := st, ps_sink_pc := SinkDone (Inl e)\<rparr>
                     | (Inr _, st) \<Rightarrow> p\<lparr>ps_sink_ring := ring, ps_sink := st\<rparr>))
      | SinkEmpty \<Rightarrow>
          Some (if \<not> ps_sink_open p then
                  (case sink_finish (pe_sink E) (pe_cfg E) now (ps_sink p) of
                     (r, st) \<Rightarrow> p\<lparr>ps_sink := st, ps_sink_pc := SinkDone r\<rparr>)
                else
                  (case sink_idle (pe_sink E) (pe_cfg E) now None (ps_sink p) of
                     (Inl e, st) \<Rightarrow> p\<lparr>ps_sink := st, ps_sink_pc := SinkDone (Inl e)\<rparr>
                   | (Inr _, st) \<Rightarrow> p\<lparr>ps_sink := st, ps_sink_pc := SinkPop\<rparr>))
      | SinkDone _ \<Rightarrow> None)"

text \<open>
  The scheduler's choices: a task takes its next step, with the reading of its clock; the shutdown flag is
  set; the cutover coordinator asks for a freeze or commits one that has drained.
\<close>

datatype pipe_act = SourceAct | ProcessorAct i64 | SinkAct instant | SetShutdown | AskFreeze | CommitFreeze

fun pipe_next :: "('s, 'p, 'n, 'c, 'f, 'e) pipe_env \<Rightarrow> pipe_act \<Rightarrow> ('s, 'p, 'n, 'c, 'k, 'f) pipe \<Rightarrow> ('s, 'p, 'n, 'c, 'k, 'f) pipe option" where
  "pipe_next E SourceAct p = source_task E p"
| "pipe_next E (ProcessorAct ts) p = processor_task E ts p"
| "pipe_next E (SinkAct now) p = sink_task E now p"
| "pipe_next E SetShutdown p = Some (p\<lparr>ps_shutdown := True\<rparr>)"
| "pipe_next E AskFreeze p = Some (p\<lparr>ps_gate := map_option request_freeze (ps_gate p)\<rparr>)"
| "pipe_next E CommitFreeze p =
     (case ps_gate p of
        Some g \<Rightarrow> if wg_in_flight g = 0 then Some (p\<lparr>ps_gate := Some (commit_freeze g)\<rparr>) else None
      | None \<Rightarrow> None)"

text \<open>The batches a step takes from the source, from the first ring, and from the second.\<close>

definition fetched_by :: "('s, 'p, 'n, 'c, 'f, 'e) pipe_env \<Rightarrow> pipe_act \<Rightarrow> ('s, 'p, 'n, 'c, 'k, 'f) pipe \<Rightarrow> event list list" where
  "fetched_by E a p =
     (if a = SourceAct \<and> ps_src_pc p = SrcFetch then (case fst (fetch E p) of Inr evs \<Rightarrow> if evs = [] then [] else [evs] | Inl _ \<Rightarrow> []) else [])"

fun delivered_by :: "pipe_act \<Rightarrow> ('s, 'p, 'n, 'c, 'k, 'f) pipe \<Rightarrow> aeon_output list list" where
  "delivered_by (SinkAct _) p = (if ps_sink_pc p = SinkPop then take 1 (ps_sink_ring p) else [])"
| "delivered_by _ p = []"

text \<open>A run, with the batches fetched from the source and those handed to the sink, in order.\<close>

inductive pipe_run :: "('s, 'p, 'n, 'c, 'f, 'e) pipe_env \<Rightarrow> ('s, 'p, 'n, 'c, 'k, 'f) pipe \<Rightarrow> event list list \<Rightarrow> aeon_output list list
    \<Rightarrow> ('s, 'p, 'n, 'c, 'k, 'f) pipe \<Rightarrow> bool" for E p where
  run_start: "pipe_run E p [] [] p"
| run_step: "pipe_run E p fs ds q \<Longrightarrow> pipe_next E a q = Some q' \<Longrightarrow>
    pipe_run E p (fs @ fetched_by E a q) (ds @ delivered_by a q) q'"

text \<open>The result once all three tasks have ended: the first error, in the order source, processor, sink.\<close>

definition pipe_result :: "('s, 'p, 'n, 'c, 'k, 'f) pipe \<Rightarrow> unit res option" where
  "pipe_result p =
     (case (ps_src_pc p, ps_proc_pc p, ps_sink_pc p) of
        (SrcDone a, ProcDone b, SinkDone c) \<Rightarrow> Some (rbind a (\<lambda>_. rbind b (\<lambda>_. c)))
      | _ \<Rightarrow> None)"

subsection \<open>Starting the pipeline\<close>

definition reject_broker_coord_with_reassign :: "'s source_ops \<Rightarrow> 's \<Rightarrow> bool \<Rightarrow> unit res" where
  "reject_broker_coord_with_reassign Src s reassign =
     (if reassign \<and> so_broker_coordinated Src s
      then Inl (Config ''pipeline start: broker-coordinated source with partition_reassign'') else Inr ())"

datatype checkpoint_backend = BackendWal | BackendStateStore | BackendNone

text \<open>
  The checkpoint store of \<open>build_sink_task_ctx\<close>: \<open>wal\<close> and \<open>l3\<close> are the results of opening the stores,
  \<open>l3 = None\<close> where no L3 store is configured, and \<open>fallback\<close> wraps a store with the WAL fallback.
\<close>

definition checkpoint_writer_of :: "checkpoint_backend \<Rightarrow> durability_mode \<Rightarrow> 'c res \<Rightarrow> 'c res option \<Rightarrow> ('c \<Rightarrow> 'c) \<Rightarrow> 'c option" where
  "checkpoint_writer_of backend mode wal l3 fallback =
     (let primary =
        (case backend of
           BackendWal \<Rightarrow> (case wal of Inr w \<Rightarrow> Some w | Inl _ \<Rightarrow> None)
         | BackendStateStore \<Rightarrow> (case l3 of Some (Inr store) \<Rightarrow> Some store | _ \<Rightarrow> None)
         | BackendNone \<Rightarrow> None)
      in case primary of
           Some w \<Rightarrow> Some (if backend = BackendStateStore \<and> mode \<noteq> DurNone then fallback w else w)
         | None \<Rightarrow> None)"

definition maybe_ops :: "('s, 'p, 'n, 'c, 'f, 'e) pipe_env \<Rightarrow> ('s, 'k) maybe_l2 source_ops" where
  "maybe_ops E =
     \<lparr>so_next_batch = maybe_next_batch (se_serde (pe_sink E)) (se_crc (pe_sink E)) (pe_source E) (pe_order E),
      so_kind = maybe_source_kind (pe_source E), so_on_recovery_plan = maybe_on_recovery_plan (pe_source E),
      so_broker_coordinated = \<lambda>m. case m of Direct s \<Rightarrow> so_broker_coordinated (pe_source E) s
                                          | Wrapped w \<Rightarrow> so_broker_coordinated (pe_source E) (ls_inner w)\<rparr>"

record ('c, 'k) pipe_config =
  pf_partition_reassign :: bool
  pf_durability :: durability_mode
  pf_l2_registry :: "'k l2_registry option"
  pf_capacity :: "pipeline_capacity option"
  pf_write_gate :: "write_gate option"
  pf_chain :: "poh_chain option"
  pf_writer :: "'c option"
  pf_shared_ack_tracker :: "ack_seq_tracker option"

text \<open>The tasks as they are spawned; \<open>None\<close> where the sink task panics at its start.\<close>

definition run_buffered :: "('s, 'p, 'n, 'c, 'f, 'e) pipe_env \<Rightarrow> ('c, 'k) pipe_config \<Rightarrow> instant \<Rightarrow> 's \<Rightarrow> 'p \<Rightarrow> 'n
    \<Rightarrow> pipeline_metrics \<Rightarrow> delivery_ledger option \<Rightarrow> ('s, 'p, 'n, 'c, 'k, 'f) pipe res option" where
  "run_buffered E cf now source processor sink metrics ledger =
     (case reject_broker_coord_with_reassign (pe_source E) source (pf_partition_reassign cf) of
        Inl e \<Rightarrow> Some (Inl e)
      | Inr _ \<Rightarrow>
          let src = maybe_wrap source (sc_pipeline_name (pe_cfg E)) (pf_l2_registry cf) (pf_durability cf) (pf_capacity cf);
              tracker = (if pf_durability cf \<noteq> DurNone
                         then Some (case pf_shared_ack_tracker cf of Some t \<Rightarrow> t | None \<Rightarrow> []) else None);
              plan = load_recovery_plan (se_ckpt (pe_sink E)) (pf_writer cf);
              src = dispatch_recovery_plan (maybe_ops E) src plan
          in map_option (\<lambda>st.
               Inr \<lparr>ps_source = src, ps_kind = maybe_source_kind (pe_source E) src, ps_src_pc = SrcTop, ps_gate = pf_write_gate cf,
                    ps_src_ring = [], ps_src_open = True, ps_proc = processor, ps_proc_pc = ProcTop, ps_chain = pf_chain cf,
                    ps_sink_ring = [], ps_sink_open = True, ps_sink = st, ps_sink_pc = SinkPop, ps_shutdown = False\<rparr>)
             (sink_start (pe_sink E) (pe_cfg E) now sink metrics ledger (pf_writer cf) tracker (pf_l2_registry cf) (pf_capacity cf)))"

definition fresh_pipe :: "('s, 'p, 'n, 'c, 'k, 'f) pipe \<Rightarrow> bool" where
  "fresh_pipe p \<longleftrightarrow> ps_src_pc p = SrcTop \<and> ps_proc_pc p = ProcTop \<and> ps_sink_pc p = SinkPop \<and>
     ps_src_ring p = [] \<and> ps_sink_ring p = [] \<and> ps_src_open p \<and> ps_sink_open p \<and> \<not> ps_shutdown p"

lemma run_buffered_fresh: "run_buffered E cf now source processor sink metrics ledger = Some (Inr p) \<Longrightarrow> fresh_pipe p"
  by (auto simp: run_buffered_def fresh_pipe_def Let_def split: sum.splits)

section \<open>No batch is lost, repeated or reordered on the way\<close>

fun proc_run :: "'p processor_ops \<Rightarrow> event list list \<Rightarrow> 'p \<Rightarrow> (aeon_output list list \<times> 'p) option" where
  "proc_run Prc [] p = Some ([], p)"
| "proc_run Prc (b # bs) p =
     (case pr_process_batch Prc b p of
        (Inl _, _) \<Rightarrow> None
      | (Inr outs, p) \<Rightarrow> map_option (\<lambda>(rest, q). (outs # rest, q)) (proc_run Prc bs p))"

lemma proc_run_snoc:
  "proc_run Prc bs p = Some (os, q) \<Longrightarrow> pr_process_batch Prc b q = (Inr outs, q') \<Longrightarrow> proc_run Prc (bs @ [b]) p = Some (os @ [outs], q')"
  by (induction bs arbitrary: p os) (auto split: prod.splits sum.splits)

fun src_pending :: "src_pc \<Rightarrow> event list list" where
  "src_pending (SrcPush b) = [b]"
| "src_pending _ = []"

fun proc_pending :: "proc_pc \<Rightarrow> aeon_output list list" where
  "proc_pending (ProcPush outs) = [outs]"
| "proc_pending _ = []"

fun proc_failed :: "proc_pc \<Rightarrow> bool" where
  "proc_failed (ProcDone (Inl _)) = True"
| "proc_failed _ = False"

text \<open>
  \<open>up\<close> are the fetched batches the processor has not taken, \<open>out\<close> those that have left it: unless it failed,
  the others were processed, in order, and the last one may still be in its hands.
\<close>

definition acct :: "'p processor_ops \<Rightarrow> 'p \<Rightarrow> event list list \<Rightarrow> event list list \<Rightarrow> aeon_output list list \<Rightarrow> proc_pc \<Rightarrow> 'p \<Rightarrow> bool" where
  "acct Prc p0 fs up out pc q \<longleftrightarrow>
     (\<exists>taken. fs = taken @ up \<and>
        (if proc_failed pc then \<exists>pre rest x. taken = pre @ rest \<and> proc_run Prc pre p0 = Some (out, x)
         else proc_run Prc taken p0 = Some (out @ proc_pending pc, q)))"

definition accounts :: "('s, 'p, 'n, 'c, 'f, 'e) pipe_env \<Rightarrow> 'p \<Rightarrow> event list list \<Rightarrow> aeon_output list list
    \<Rightarrow> ('s, 'p, 'n, 'c, 'k, 'f) pipe \<Rightarrow> bool" where
  "accounts E p0 fs ds q \<longleftrightarrow>
     acct (pe_processor E) p0 fs (ps_src_ring q @ src_pending (ps_src_pc q)) (ds @ ps_sink_ring q) (ps_proc_pc q) (ps_proc q)"

lemma acct_fetch: "acct Prc p0 fs up out pc q \<Longrightarrow> acct Prc p0 (fs @ new) (up @ new) out pc q"
  by (auto simp: acct_def)

lemma acct_idle:
  "acct Prc p0 fs up out ProcPop q = acct Prc p0 fs up out ProcTop q"
  "acct Prc p0 fs up out ProcEmpty q = acct Prc p0 fs up out ProcTop q"
  "acct Prc p0 fs up out (ProcDone (Inr r)) q = acct Prc p0 fs up out ProcTop q"
  by (simp_all add: acct_def)

lemma acct_push: "acct Prc p0 fs up out (ProcPush b) q \<Longrightarrow> acct Prc p0 fs up (out @ [b]) ProcTop q"
  by (simp add: acct_def)

lemma acct_fail:
  assumes "acct Prc p0 fs (evs # up) out ProcPop q"
  shows "acct Prc p0 fs up out (ProcDone (Inl e)) q'"
proof -
  obtain taken where t: "fs = taken @ evs # up" "proc_run Prc taken p0 = Some (out, q)" using assms by (auto simp: acct_def)
  then have "fs = (taken @ [evs]) @ up" by simp
  then show ?thesis unfolding acct_def using t(2) by (intro exI [of _ "taken @ [evs]"]) auto
qed

lemma acct_process:
  assumes "acct Prc p0 fs (evs # up) out ProcPop q" "pr_process_batch Prc evs q = (Inr outs, q')"
  shows "acct Prc p0 fs up out (ProcPush outs) q'"
proof -
  obtain taken where t: "fs = taken @ evs # up" "proc_run Prc taken p0 = Some (out, q)" using assms(1) by (auto simp: acct_def)
  then show ?thesis unfolding acct_def using proc_run_snoc [OF t(2) assms(2)] by (intro exI [of _ "taken @ [evs]"]) simp
qed

lemma on_metrics_frame [simp]:
  "ps_source (on_metrics f p) = ps_source p" "ps_kind (on_metrics f p) = ps_kind p" "ps_src_pc (on_metrics f p) = ps_src_pc p"
  "ps_gate (on_metrics f p) = ps_gate p" "ps_src_ring (on_metrics f p) = ps_src_ring p" "ps_src_open (on_metrics f p) = ps_src_open p"
  "ps_proc (on_metrics f p) = ps_proc p" "ps_proc_pc (on_metrics f p) = ps_proc_pc p" "ps_chain (on_metrics f p) = ps_chain p"
  "ps_sink_ring (on_metrics f p) = ps_sink_ring p" "ps_sink_open (on_metrics f p) = ps_sink_open p"
  "ps_sink_pc (on_metrics f p) = ps_sink_pc p" "ps_shutdown (on_metrics f p) = ps_shutdown p"
  by (simp_all add: on_metrics_def)

lemma leave_gate_frame [simp]:
  "ps_source (leave_gate p) = ps_source p" "ps_kind (leave_gate p) = ps_kind p" "ps_src_pc (leave_gate p) = ps_src_pc p"
  "ps_src_ring (leave_gate p) = ps_src_ring p" "ps_src_open (leave_gate p) = ps_src_open p" "ps_proc (leave_gate p) = ps_proc p"
  "ps_proc_pc (leave_gate p) = ps_proc_pc p" "ps_chain (leave_gate p) = ps_chain p" "ps_sink_ring (leave_gate p) = ps_sink_ring p"
  "ps_sink_open (leave_gate p) = ps_sink_open p" "ps_sink_pc (leave_gate p) = ps_sink_pc p" "ps_shutdown (leave_gate p) = ps_shutdown p"
  "ps_sink (leave_gate p) = ps_sink p"
  by (simp_all add: leave_gate_def)

lemma fetch_frame:
  assumes "fetch E p = (r, p')"
  shows "ps_kind p' = ps_kind p" "ps_src_pc p' = ps_src_pc p" "ps_src_ring p' = ps_src_ring p" "ps_src_open p' = ps_src_open p"
    "ps_proc p' = ps_proc p" "ps_proc_pc p' = ps_proc_pc p" "ps_sink_ring p' = ps_sink_ring p" "ps_sink_open p' = ps_sink_open p"
    "ps_sink_pc p' = ps_sink_pc p" "ps_shutdown p' = ps_shutdown p" "ps_gate p' = ps_gate p" "ps_chain p' = ps_chain p"
  using assms by (auto simp: fetch_def Let_def split: maybe_l2.splits prod.splits)

text \<open>What the processor and the sink tasks own, of which the source task changes nothing.\<close>

definition downstream :: "('s, 'p, 'n, 'c, 'k, 'f) pipe \<Rightarrow> 'p \<times> proc_pc \<times> aeon_output list list \<times> bool \<times> sink_pc \<times> bool" where
  "downstream p = (ps_proc p, ps_proc_pc p, ps_sink_ring p, ps_sink_open p, ps_sink_pc p, ps_shutdown p)"

lemma source_fetch_effect:
  assumes "ps_src_pc p = SrcFetch"
  shows "downstream (source_fetch E p) = downstream p \<and>
    ps_src_ring (source_fetch E p) @ src_pending (ps_src_pc (source_fetch E p)) =
      ps_src_ring p @ src_pending (ps_src_pc p) @ fetched_by E SourceAct p"
proof -
  obtain r p' where f: "fetch E p = (r, p')" by force
  note fr = fetch_frame [OF f]
  show ?thesis
  proof (cases r)
    case (Inl e)
    then show ?thesis using f fr assms by (simp add: source_fetch_def src_finish_def downstream_def fetched_by_def)
  next
    case (Inr evs)
    then show ?thesis using f fr assms
      by (cases "ps_kind p"; cases "evs = []") (simp_all add: source_fetch_def src_finish_def downstream_def fetched_by_def)
  qed
qed

lemma source_task_effect:
  assumes "source_task E p = Some p'"
  shows "downstream p' = downstream p \<and>
    ps_src_ring p' @ src_pending (ps_src_pc p') = ps_src_ring p @ src_pending (ps_src_pc p) @ fetched_by E SourceAct p"
proof (cases "ps_src_pc p")
  case SrcFetch
  then show ?thesis using assms source_fetch_effect [OF SrcFetch, of E] by (simp add: source_task_def)
next
  case SrcGate
  then show ?thesis using assms
    by (auto simp: source_task_def fetched_by_def downstream_def src_finish_def split: option.splits prod.splits bool.splits)
qed (use assms in \<open>auto simp: source_task_def fetched_by_def downstream_def src_finish_def split: if_splits\<close>)

lemma poh_append_batch_frame:
  assumes "poh_append_batch E ts outs p = Some p'"
  shows "\<exists>c st. p' = p\<lparr>ps_chain := c, ps_sink := st\<rparr>"
proof (cases "ps_chain p = None \<or> outs = []")
  case True
  then have "p' = p" using assms by (auto simp: poh_append_batch_def split: option.splits)
  then show ?thesis by (intro exI [of _ "ps_chain p"] exI [of _ "ps_sink p"]) simp
next
  case False
  then obtain chain where chain: "ps_chain p = Some chain" "outs \<noteq> []" by auto
  then obtain entry c where a: "append_batch (pe_digest E) (pe_signer E) (map out_payload outs) ts (pe_key E) chain = Some (entry, c)"
    using assms by (cases "append_batch (pe_digest E) (pe_signer E) (map out_payload outs) ts (pe_key E) chain") (auto simp: poh_append_batch_def)
  show ?thesis
  proof (cases "entry = None")
    case True
    then have "p' = p\<lparr>ps_chain := Some c\<rparr>" using assms chain a by (simp add: poh_append_batch_def)
    moreover have "p\<lparr>ps_chain := Some c\<rparr> = p\<lparr>ps_chain := Some c, ps_sink := ps_sink p\<rparr>" by simp
    ultimately show ?thesis by metis
  next
    case False
    then have "p' = on_metrics (\<lambda>m. m\<lparr>pm_poh_entries := pm_poh_entries m + 1\<rparr>) (p\<lparr>ps_chain := Some c\<rparr>)"
      using assms chain a by (simp add: poh_append_batch_def)
    then show ?thesis unfolding on_metrics_def by (intro exI [of _ "Some c"] exI) (rule trans, assumption, rule refl)
  qed
qed

lemma process_popped_accounts:
  assumes "acct (pe_processor E) p0 fs (evs # ps_src_ring p @ src_pending (ps_src_pc p)) (ds @ ps_sink_ring p) ProcPop (ps_proc p)"
  shows "accounts E p0 fs ds (process_popped E ts evs p)"
proof -
  obtain r q where r: "pr_process_batch (pe_processor E) evs (ps_proc p) = (r, q)" by force
  note fail = acct_fail [OF assms]
  show ?thesis
  proof (cases r)
    case (Inl e)
    then show ?thesis using r fail by (simp add: process_popped_def accounts_def proc_finish_def)
  next
    case (Inr outs)
    let ?p = "on_metrics (add_processed (length evs)) (p\<lparr>ps_proc := q\<rparr>)"
    show ?thesis
    proof (cases "poh_append_batch E ts outs ?p")
      case None
      then show ?thesis using r Inr fail by (simp add: process_popped_def accounts_def proc_finish_def)
    next
      case (Some p')
      obtain c st where "p' = ?p\<lparr>ps_chain := c, ps_sink := st\<rparr>" using poh_append_batch_frame [OF Some] by blast
      then show ?thesis using r Inr Some acct_process [OF assms, of outs q]
        by (simp add: process_popped_def accounts_def)
    qed
  qed
qed

lemma processor_task_accounts:
  assumes "accounts E p0 fs ds p" "processor_task E ts p = Some p'"
  shows "accounts E p0 fs ds p'"
proof (cases "ps_proc_pc p")
  case ProcTop
  then have "p' = proc_finish (Inr ()) p \<or> p' = p\<lparr>ps_proc_pc := ProcPop\<rparr>"
    using assms(2) by (auto simp: processor_task_def split: if_splits)
  then show ?thesis
    using assms(1) ProcTop by (auto simp: accounts_def proc_finish_def acct_idle)
next
  case ProcPop
  show ?thesis
  proof (cases "ps_src_ring p")
    case Nil
    then have "p' = p\<lparr>ps_proc_pc := ProcEmpty\<rparr>" using ProcPop assms(2) by (simp add: processor_task_def)
    then show ?thesis using assms(1) ProcPop by (simp add: accounts_def acct_idle)
  next
    case (Cons evs ring)
    then have "p' = process_popped E ts evs (p\<lparr>ps_src_ring := ring\<rparr>)" using ProcPop assms(2) by (simp add: processor_task_def)
    then show ?thesis
      using process_popped_accounts [of E p0 fs evs "p\<lparr>ps_src_ring := ring\<rparr>" ds ts] assms(1) ProcPop Cons
      by (simp add: accounts_def)
  qed
next
  case ProcEmpty
  then have "p' = proc_finish (Inr ()) p \<or> p' = p\<lparr>ps_proc_pc := ProcTop\<rparr>"
    using assms(2) by (auto simp: processor_task_def split: if_splits)
  then show ?thesis
    using assms(1) ProcEmpty by (auto simp: accounts_def proc_finish_def acct_idle)
next
  case (ProcPush b)
  then have "p' = p\<lparr>ps_sink_ring := ps_sink_ring p @ [b], ps_proc_pc := ProcTop\<rparr> \<or> p' = p"
    using assms(2) by (auto simp: processor_task_def split: if_splits)
  moreover have "acct (pe_processor E) p0 fs (ps_src_ring p @ src_pending (ps_src_pc p)) ((ds @ ps_sink_ring p) @ [b]) ProcTop (ps_proc p)"
    by (rule acct_push) (use assms(1) ProcPush in \<open>simp add: accounts_def\<close>)
  ultimately show ?thesis using assms(1) by (elim disjE) (simp_all add: accounts_def)
qed (use assms in \<open>simp add: processor_task_def\<close>)

text \<open>What the source and the processor tasks own, of which the sink task changes nothing.\<close>

definition upstream :: "('s, 'p, 'n, 'c, 'k, 'f) pipe
    \<Rightarrow> ('s, 'k) maybe_l2 \<times> source_kind \<times> src_pc \<times> write_gate option \<times> event list list \<times> bool \<times> 'p \<times> proc_pc \<times> bool \<times> bool" where
  "upstream p = (ps_source p, ps_kind p, ps_src_pc p, ps_gate p, ps_src_ring p, ps_src_open p, ps_proc p, ps_proc_pc p,
     ps_sink_open p, ps_shutdown p)"

lemma sink_task_effect:
  assumes "sink_task E now p = Some p'"
  shows "upstream p' = upstream p \<and> ps_sink_ring p = delivered_by (SinkAct now) p @ ps_sink_ring p'"
proof (cases "ps_sink_pc p")
  case SinkPop
  show ?thesis
  proof (cases "ps_sink_ring p")
    case Nil
    then show ?thesis using SinkPop assms by (auto simp: sink_task_def upstream_def)
  next
    case (Cons outs ring)
    obtain r st where r: "sink_batch (pe_sink E) (pe_cfg E) now outs (ps_sink p) = (r, st)" by force
    show ?thesis using SinkPop Cons r assms by (cases r) (auto simp: sink_task_def upstream_def)
  qed
next
  case SinkEmpty
  obtain r st where r: "sink_finish (pe_sink E) (pe_cfg E) now (ps_sink p) = (r, st)" by force
  obtain r' st' where r': "sink_idle (pe_sink E) (pe_cfg E) now None (ps_sink p) = (r', st')" by force
  show ?thesis using SinkEmpty r r' assms by (cases "ps_sink_open p"; cases r') (auto simp: sink_task_def upstream_def)
qed (use assms in \<open>simp add: sink_task_def\<close>)

lemma pipe_next_accounts:
  assumes "accounts E p0 fs ds p" "pipe_next E a p = Some p'"
  shows "accounts E p0 (fs @ fetched_by E a p) (ds @ delivered_by a p) p'"
proof (cases a)
  case SourceAct
  then have "downstream p' = downstream p"
    "ps_src_ring p' @ src_pending (ps_src_pc p') = ps_src_ring p @ src_pending (ps_src_pc p) @ fetched_by E SourceAct p"
    using assms(2) source_task_effect [of E p p'] by simp_all
  then show ?thesis
    using acct_fetch [OF assms(1) [unfolded accounts_def], of "fetched_by E SourceAct p"] SourceAct
    by (simp add: accounts_def downstream_def)
next
  case (ProcessorAct ts)
  then show ?thesis using assms processor_task_accounts [of E p0 fs ds p ts p'] by (simp add: fetched_by_def)
next
  case (SinkAct now)
  then have "upstream p' = upstream p" "ds @ ps_sink_ring p = (ds @ delivered_by a p) @ ps_sink_ring p'"
    using assms(2) sink_task_effect [of E now p p'] by auto
  then show ?thesis using assms(1) SinkAct by (simp add: accounts_def fetched_by_def upstream_def del: delivered_by.simps)
qed (use assms in \<open>auto simp: accounts_def fetched_by_def split: option.splits if_splits\<close>)

lemma pipe_run_accounts:
  assumes "pipe_run E p fs ds q" "fresh_pipe p"
  shows "accounts E (ps_proc p) fs ds q"
  using assms
proof induction
  case run_start
  then show ?case by (simp add: accounts_def acct_def fresh_pipe_def)
next
  case (run_step fs ds q a q')
  then show ?case by (blast intro: pipe_next_accounts)
qed

lemma run_buffered_proc:
  "run_buffered E cf now source processor sink metrics ledger = Some (Inr p) \<Longrightarrow> ps_proc p = processor"
  by (auto simp: run_buffered_def Let_def split: sum.splits)

text \<open>
  C7: in every interleaving of the three tasks, with shutdown and freezes at any point, the batches handed to
  the sink are the outputs of the first batches fetched, in the order of fetching, none twice.  As long as
  the processor has not failed, every other fetched batch is in a ring or in the hands of a task.  When the
  pipeline has ended without error and both rings are empty, everything fetched was handed to the sink.
\<close>

theorem buffered_accounts_for_batches:
  assumes "run_buffered E cf now source processor sink metrics ledger = Some (Inr p)" "pipe_run E p fs ds q"
  shows "(\<exists>taken rest out x. fs = taken @ rest \<and> proc_run (pe_processor E) taken processor = Some (ds @ out, x)) \<and>
    (\<not> proc_failed (ps_proc_pc q) \<longrightarrow>
       (\<exists>taken. fs = taken @ ps_src_ring q @ src_pending (ps_src_pc q) \<and>
          proc_run (pe_processor E) taken processor = Some (ds @ ps_sink_ring q @ proc_pending (ps_proc_pc q), ps_proc q))) \<and>
    (pipe_result q = Some (Inr ()) \<and> ps_src_ring q = [] \<and> ps_sink_ring q = [] \<longrightarrow>
       proc_run (pe_processor E) fs processor = Some (ds, ps_proc q))"
proof -
  have a: "acct (pe_processor E) processor fs (ps_src_ring q @ src_pending (ps_src_pc q)) (ds @ ps_sink_ring q) (ps_proc_pc q) (ps_proc q)"
    using pipe_run_accounts [OF assms(2) run_buffered_fresh [OF assms(1)]] run_buffered_proc [OF assms(1)] by (simp add: accounts_def)
  then have exact: "\<not> proc_failed (ps_proc_pc q) \<longrightarrow>
       (\<exists>taken. fs = taken @ ps_src_ring q @ src_pending (ps_src_pc q) \<and>
          proc_run (pe_processor E) taken processor = Some (ds @ ps_sink_ring q @ proc_pending (ps_proc_pc q), ps_proc q))"
    by (auto simp: acct_def)
  have prefix: "\<exists>taken rest out x. fs = taken @ rest \<and> proc_run (pe_processor E) taken processor = Some (ds @ out, x)"
  proof (cases "proc_failed (ps_proc_pc q)")
    case True
    then obtain pre rest x where "fs = (pre @ rest) @ ps_src_ring q @ src_pending (ps_src_pc q)"
      "proc_run (pe_processor E) pre processor = Some (ds @ ps_sink_ring q, x)"
      using a by (auto simp: acct_def)
    then show ?thesis by (metis append_assoc)
  next
    case False
    then show ?thesis using exact by blast
  qed
  have ended: "ps_src_pc q = SrcDone (Inr ())" "ps_proc_pc q = ProcDone (Inr ())" if "pipe_result q = Some (Inr ())"
    using that by (auto simp: pipe_result_def rbind_Inr_conv split: src_pc.splits proc_pc.splits sink_pc.splits)
  show ?thesis using prefix exact ended by auto
qed

section \<open>The direct loop\<close>

definition sink_accepts :: "'n sink_ops \<Rightarrow> bool" where
  "sink_accepts K \<longleftrightarrow> (\<forall>outs n. \<not> isl (fst (sk_write_batch K outs n)))"

definition write_all :: "'n sink_ops \<Rightarrow> aeon_output list list \<Rightarrow> 'n \<Rightarrow> 'n" where
  "write_all K outs n = fold (\<lambda>os n. snd (sk_write_batch K os n)) outs n"

text \<open>A pull source that hands out the batches of a list.\<close>

definition list_source :: "event list list source_ops" where
  "list_source =
     \<lparr>so_next_batch = \<lambda>bs. (case bs of [] \<Rightarrow> (Inr [], []) | b # bs \<Rightarrow> (Inr b, bs)), so_kind = \<lambda>_. Pull,
      so_on_recovery_plan = \<lambda>_ _ s. (Inr (), s), so_broker_coordinated = \<lambda>_. False\<rparr>"

lemma direct_loop_list:
  assumes "sink_accepts K"
  shows "[] \<notin> set bs \<Longrightarrow> proc_run Prc bs p = Some (outs, p') \<Longrightarrow>
    \<exists>m'. direct_loop list_source Prc K None Pull (replicate (Suc (length bs)) False) (bs, p, n, m) =
      (case sk_flush K (write_all K outs n) of (r, n) \<Rightarrow> (Some r, ([], p', n, m')))"
proof (induction bs arbitrary: p outs n m)
  case Nil
  then show ?case by (auto simp: list_source_def write_all_def split: prod.splits)
next
  case (Cons b bs)
  then obtain os q outs' where b: "pr_process_batch Prc b p = (Inr os, q)" "proc_run Prc bs q = Some (outs', p')" "outs = os # outs'"
    by (auto split: prod.splits sum.splits)
  obtain r n' where w: "sk_write_batch K os n = (Inr r, n')"
    using assms by (metis isl_def sink_accepts_def old.sum.exhaust prod.collapse isl_def)
  have ne: "b \<noteq> []" using Cons.prems(1) by auto
  have "direct_loop list_source Prc K None Pull (replicate (Suc (length (b # bs))) False) (b # bs, p, n, m) =
      direct_loop list_source Prc K None Pull (replicate (Suc (length bs)) False)
        (bs, q, n', add_sent (length (br_delivered r)) (add_processed (length b) (add_received (length b) m)))"
    using ne b(1) w by (simp add: list_source_def Let_def)
  then show ?case using Cons.IH [OF _ b(2)] Cons.prems(1) b(3) w by (simp add: write_all_def)
qed

text \<open>The buffered source task on such a source, without a gate.\<close>

definition source_left :: "event list list \<Rightarrow> event list list \<Rightarrow> (event list list, 'p, 'n, 'c, 'k, 'f) pipe \<Rightarrow> bool" where
  "source_left bs fs q \<longleftrightarrow>
     (\<exists>rest. ps_source q = Direct rest \<and> fs @ rest = bs \<and> ((\<exists>r. ps_src_pc q = SrcDone r) \<longrightarrow> rest = [] \<or> ps_shutdown q)) \<and>
     ps_gate q = None \<and> ps_kind q = Pull"

lemma source_left_source:
  assumes "source_left bs fs q" "[] \<notin> set bs" "pe_source E = list_source" "source_task E q = Some q'"
  shows "source_left bs (fs @ fetched_by E SourceAct q) q'"
proof -
  obtain rest where rest: "ps_source q = Direct rest" "fs @ rest = bs" "ps_gate q = None" "ps_kind q = Pull"
    using assms(1) by (auto simp: source_left_def)
  show ?thesis
  proof (cases "ps_src_pc q")
    case SrcFetch
    then have q': "q' = source_fetch E q" using assms(4) by (simp add: source_task_def)
    show ?thesis
    proof (cases rest)
      case Nil
      then have "fetch E q = (Inr [], q\<lparr>ps_source := Direct []\<rparr>)" using rest(1) assms(3) by (simp add: fetch_def list_source_def)
      then show ?thesis using q' SrcFetch rest Nil
        by (simp add: source_fetch_def fetched_by_def source_left_def src_finish_def leave_gate_def)
    next
      case (Cons b bs')
      have ne: "b \<noteq> []" using Cons rest(2) assms(2) by auto
      have "fetch E q = (Inr b, q\<lparr>ps_source := Direct bs'\<rparr>)" using rest(1) assms(3) Cons by (simp add: fetch_def list_source_def)
      then show ?thesis using q' SrcFetch rest Cons ne
        by (simp add: source_fetch_def fetched_by_def source_left_def on_metrics_def)
    qed
  qed (use assms(1,4) rest in \<open>auto simp: source_task_def fetched_by_def source_left_def src_finish_def leave_gate_def split: if_splits\<close>)
qed

lemma source_left_cong: "upstream q' = upstream q \<Longrightarrow> source_left bs fs q' = source_left bs fs q"
  by (simp add: source_left_def upstream_def)

lemma source_left_processor:
  assumes "processor_task E ts q = Some q'"
  shows "source_left bs fs q' = source_left bs fs q"
proof -
  have "ps_source q' = ps_source q \<and> ps_src_pc q' = ps_src_pc q \<and> ps_shutdown q' = ps_shutdown q \<and> ps_gate q' = ps_gate q \<and> ps_kind q' = ps_kind q"
  proof (cases "ps_proc_pc q")
    case ProcPop
    show ?thesis
    proof (cases "ps_src_ring q")
      case (Cons evs ring)
      obtain r x where r: "pr_process_batch (pe_processor E) evs (ps_proc q) = (r, x)" by force
      let ?p = "on_metrics (add_processed (length evs)) (q\<lparr>ps_src_ring := ring, ps_proc := x\<rparr>)"
      show ?thesis
      proof (cases r)
        case (Inr outs)
        then show ?thesis using ProcPop Cons r assms poh_append_batch_frame [of E ts outs ?p]
          by (cases "poh_append_batch E ts outs ?p") (auto simp: processor_task_def process_popped_def proc_finish_def)
      qed (use ProcPop Cons r assms in \<open>auto simp: processor_task_def process_popped_def proc_finish_def\<close>)
    qed (use ProcPop assms in \<open>auto simp: processor_task_def\<close>)
  qed (use assms in \<open>auto simp: processor_task_def proc_finish_def split: if_splits\<close>)
  then show ?thesis by (simp add: source_left_def)
qed

lemma pipe_run_source_left:
  assumes "pipe_run E p fs ds q" "source_left bs [] p" "[] \<notin> set bs" "pe_source E = list_source"
  shows "source_left bs fs q"
  using assms
proof induction
  case (run_step fs ds q a q')
  then have left: "source_left bs fs q" by blast
  show ?case
  proof (cases a)
    case SourceAct
    then show ?thesis using left run_step source_left_source [of bs fs q E q'] by simp
  next
    case (ProcessorAct ts)
    then show ?thesis using left run_step source_left_processor [of E ts q q'] by (simp add: fetched_by_def)
  next
    case (SinkAct now)
    then have "upstream q' = upstream q" using run_step(2) sink_task_effect [of E now q q'] by simp
    then show ?thesis using left SinkAct source_left_cong by (auto simp: fetched_by_def)
  qed (use left run_step(2) in \<open>auto simp: source_left_def fetched_by_def split: option.splits if_splits\<close>)
qed simp


section \<open>Executions\<close>

fun pipe_exec :: "('s, 'p, 'n, 'c, 'f, 'e) pipe_env \<Rightarrow> pipe_act list \<Rightarrow> ('s, 'p, 'n, 'c, 'k, 'f) pipe
    \<Rightarrow> (event list list \<times> aeon_output list list \<times> ('s, 'p, 'n, 'c, 'k, 'f) pipe) option" where
  "pipe_exec E [] p = Some ([], [], p)"
| "pipe_exec E (a # as) p =
     Option.bind (pipe_next E a p) (\<lambda>p'.
       map_option (\<lambda>(fs, ds, q). (fetched_by E a p @ fs, delivered_by a p @ ds, q)) (pipe_exec E as p'))"

lemma pipe_run_exec:
  "pipe_run E p fs ds q \<Longrightarrow> pipe_exec E as q = Some (fs', ds', q') \<Longrightarrow> pipe_run E p (fs @ fs') (ds @ ds') q'"
proof (induction as arbitrary: fs ds q fs' ds')
  case (Cons a as)
  then obtain q1 f d where q1: "pipe_next E a q = Some q1" "pipe_exec E as q1 = Some (f, d, q')"
    "fs' = fetched_by E a q @ f" "ds' = delivered_by a q @ d"
    by (auto simp: bind_eq_Some_conv)
  then show ?case using Cons.IH [OF run_step [OF Cons.prems(1) q1(1)] q1(2)] by simp
qed simp

lemmas exec_run = pipe_run_exec [OF run_start, simplified]

lemma pipe_exec_append:
  "pipe_exec E as p = Some (fs, ds, q) \<Longrightarrow> pipe_exec E bs q = Some (fs', ds', q') \<Longrightarrow> pipe_exec E (as @ bs) p = Some (fs @ fs', ds @ ds', q')"
  by (induction as arbitrary: p fs ds) (auto simp: bind_eq_Some_conv)

text \<open>From the loop test to the next fetch, when nothing holds the source back.\<close>

lemma source_to_fetch:
  assumes "ps_src_pc p = SrcTop" "\<not> ps_shutdown p" "ps_gate p = None" "st_capacity (ps_sink p) = None"
  shows "pipe_exec E [SourceAct, SourceAct, SourceAct] p = Some ([], [], p\<lparr>ps_src_pc := SrcFetch\<rparr>)"
  using assms by (simp add: source_task_def pressed_def fetched_by_def)

lemma source_hands_over:
  assumes "ps_src_pc p = SrcTop" "\<not> ps_shutdown p" "ps_gate p = None" "st_capacity (ps_sink p) = None"
    and "ps_source p = Direct (evs # bs)" "pe_source E = list_source" "evs \<noteq> []" "length (ps_src_ring p) < pe_source_buffer_capacity E"
  shows "pipe_exec E [SourceAct, SourceAct, SourceAct, SourceAct, SourceAct] p =
    Some ([evs], [], (on_metrics (add_received (length evs)) p)\<lparr>ps_source := Direct bs, ps_src_ring := ps_src_ring p @ [evs]\<rparr>)"
proof -
  let ?q = "p\<lparr>ps_src_pc := SrcFetch\<rparr>"
  have "fetch E ?q = (Inr evs, ?q\<lparr>ps_source := Direct bs\<rparr>)" using assms(5,6) by (simp add: fetch_def list_source_def)
  then have "pipe_exec E [SourceAct, SourceAct] ?q =
      Some ([evs], [], (on_metrics (add_received (length evs)) p)\<lparr>ps_source := Direct bs, ps_src_ring := ps_src_ring p @ [evs]\<rparr>)"
    using assms(1,3,7,8) by (simp add: source_task_def source_fetch_def fetched_by_def on_metrics_def leave_gate_def)
  from pipe_exec_append [OF source_to_fetch [OF assms(1-4), of E] this] show ?thesis by simp
qed

lemma source_ends:
  assumes "ps_src_pc p = SrcTop" "\<not> ps_shutdown p" "ps_gate p = None" "st_capacity (ps_sink p) = None"
    and "ps_source p = Direct []" "pe_source E = list_source" "ps_kind p = Pull"
  shows "pipe_exec E [SourceAct, SourceAct, SourceAct, SourceAct] p = Some ([], [], p\<lparr>ps_src_pc := SrcDone (Inr ()), ps_src_open := False\<rparr>)"
proof -
  let ?q = "p\<lparr>ps_src_pc := SrcFetch\<rparr>"
  have "fetch E ?q = (Inr [], ?q\<lparr>ps_source := Direct []\<rparr>)" using assms(5,6) by (simp add: fetch_def list_source_def)
  then have "pipe_exec E [SourceAct] ?q = Some ([], [], p\<lparr>ps_src_pc := SrcDone (Inr ()), ps_src_open := False\<rparr>)"
    using assms(3,5,7) by (simp add: source_task_def source_fetch_def src_finish_def fetched_by_def leave_gate_def)
  from pipe_exec_append [OF source_to_fetch [OF assms(1-4), of E] this] show ?thesis by simp
qed

lemma sink_finish_ok: "fst (sk_flush (se_sink E) (st_sink st)) = Inr () \<Longrightarrow> fst (sink_finish E cfg now st) = Inr ()"
  by (cases "sk_flush (se_sink E) (st_sink st)") (simp add: sink_finish_def Let_def)

lemma run_buffered_list:
  assumes "pe_source E = list_source" "pf_l2_registry cf = None" "pf_write_gate cf = None" "pf_capacity cf = None"
    and "run_buffered E cf now bs processor sink metrics ledger = Some (Inr p)"
  shows "ps_source p = Direct bs" "ps_kind p = Pull" "ps_gate p = None" "st_capacity (ps_sink p) = None" "st_sink (ps_sink p) = sink"
  using assms
  by (auto simp: run_buffered_def maybe_wrap_def maybe_ops_def list_source_def dispatch_recovery_plan_def sink_start_def Let_def
      split: sum.splits option.splits)

text \<open>
  C39: the processor task tests whether the source is gone only after a pop found the ring empty.  If the source
  pushes its last batch and ends between the two, the task leaves with the batch still in the ring: the run
  ends without error and without shutdown, and the batch never reaches the sink.
\<close>

theorem finished_pipeline_drops_batch:
  assumes "pe_source E = list_source" "evs \<noteq> []" "pf_l2_registry cf = None" "pf_write_gate cf = None" "pf_capacity cf = None"
    and "run_buffered E cf now [evs] processor sink metrics ledger = Some (Inr p)"
    and "pe_source_buffer_capacity E > 0" "fst (sk_flush (se_sink (pe_sink E)) sink) = Inr ()"
  shows "\<exists>q. pipe_run E p [evs] [] q \<and> pipe_result q = Some (Inr ()) \<and> \<not> ps_shutdown q \<and> ps_src_ring q = [evs]"
proof -
  note start = run_buffered_list [OF assms(1,3,4,5,6)]
  have f: "ps_src_pc p = SrcTop" "ps_proc_pc p = ProcTop" "ps_sink_pc p = SinkPop" "ps_src_ring p = []" "ps_sink_ring p = []" "\<not> ps_shutdown p"
    using run_buffered_fresh [OF assms(6)] by (simp_all add: fresh_pipe_def)
  define p1 where "p1 = p\<lparr>ps_proc_pc := ProcEmpty\<rparr>"
  have e1: "pipe_exec E [ProcessorAct 0, ProcessorAct 0] p = Some ([], [], p1)"
    using f by (simp add: processor_task_def fetched_by_def p1_def)
  define p2 where "p2 = (on_metrics (add_received (length evs)) p1)\<lparr>ps_source := Direct [], ps_src_ring := [evs]\<rparr>"
  have e2: "pipe_exec E [SourceAct, SourceAct, SourceAct, SourceAct, SourceAct] p1 = Some ([evs], [], p2)"
    using source_hands_over [of p1 evs "[]" E] start f assms(1,2,7) by (simp add: p1_def p2_def)
  define p3 where "p3 = p2\<lparr>ps_src_pc := SrcDone (Inr ()), ps_src_open := False\<rparr>"
  have e3: "pipe_exec E [SourceAct, SourceAct, SourceAct, SourceAct] p2 = Some ([], [], p3)"
    unfolding p3_def by (rule source_ends) (use start f assms(1) in \<open>simp_all add: p2_def p1_def on_metrics_def\<close>)
  define p4 where "p4 = p3\<lparr>ps_proc_pc := ProcDone (Inr ()), ps_sink_open := False, ps_sink_pc := SinkEmpty\<rparr>"
  have e4: "pipe_exec E [ProcessorAct 0, SinkAct 0] p3 = Some ([], [], p4)"
    using f by (simp add: processor_task_def sink_task_def proc_finish_def fetched_by_def p4_def p3_def p2_def p1_def)
  obtain st where fin: "sink_finish (pe_sink E) (pe_cfg E) 0 (ps_sink p4) = (Inr (), st)"
    using sink_finish_ok [of "pe_sink E" "ps_sink p4" "pe_cfg E" 0] assms(8) start(5)
    by (cases "sink_finish (pe_sink E) (pe_cfg E) 0 (ps_sink p4)") (simp add: p4_def p3_def p2_def p1_def on_metrics_def)
  define q where "q = p4\<lparr>ps_sink := st, ps_sink_pc := SinkDone (Inr ())\<rparr>"
  have e5: "pipe_exec E [SinkAct 0] p4 = Some ([], [], q)"
    using fin by (simp add: sink_task_def fetched_by_def q_def p4_def)
  have "pipe_run E p [evs] [] q"
    using exec_run [OF pipe_exec_append [OF e1 pipe_exec_append [OF e2 pipe_exec_append [OF e3 pipe_exec_append [OF e4 e5]]]]] by simp
  moreover have "pipe_result q = Some (Inr ())" by (simp add: pipe_result_def q_def p4_def p3_def)
  moreover have "\<not> ps_shutdown q \<and> ps_src_ring q = [evs]" using f by (simp add: q_def p4_def p3_def p2_def p1_def)
  ultimately show ?thesis by blast
qed

definition blocked :: "('s, 'p, 'n, 'c, 'f, 'e) pipe_env \<Rightarrow> aeon_output list \<Rightarrow> ('s, 'p, 'n, 'c, 'k, 'f) pipe \<Rightarrow> bool" where
  "blocked E outs q \<longleftrightarrow> (\<exists>r. ps_sink_pc q = SinkDone r) \<and> ps_proc_pc q = ProcPush outs \<and> pe_sink_buffer_capacity E \<le> length (ps_sink_ring q)"

lemma blocked_next:
  assumes "blocked E outs q" "pipe_next E a q = Some q'"
  shows "blocked E outs q'"
proof (cases a)
  case SourceAct
  then have "downstream q' = downstream q" using assms(2) source_task_effect [of E q q'] by simp
  then show ?thesis using assms(1) by (simp add: blocked_def downstream_def)
qed (use assms in \<open>auto simp: blocked_def processor_task_def sink_task_def split: option.splits if_splits\<close>)


section \<open>Completion\<close>

text \<open>Without an L2 registry the sink task leaves the registry and the capacity accounts alone.\<close>

definition no_l2 :: "('n, 'c, 'k, 'f) sink_state \<Rightarrow> bool" where
  "no_l2 st \<longleftrightarrow> st_registry st = None \<and> st_capacity st = None"

lemma no_l2_sweep [simp]: "no_l2 st \<Longrightarrow> eo2_gc_sweep E cfg now st = st"
  by (simp add: no_l2_def eo2_gc_sweep_def)

lemma no_l2_frame [simp]:
  "no_l2 (write_checkpoint E now st) = no_l2 st" "no_l2 (credit_pending_on_flush st) = no_l2 st" "no_l2 (recovery_attempt E st) = no_l2 st"
  "no_l2 (advance_watermark cfg m ids st) = no_l2 st" "no_l2 (blocking_checkpoint E cfg now st) = no_l2 st"
proof -
  show w: "no_l2 (write_checkpoint E now st) = no_l2 st"
    by (cases "st_writer st") (auto simp: no_l2_def write_checkpoint_def Let_def split: prod.splits)
  show "no_l2 (credit_pending_on_flush st) = no_l2 st" "no_l2 (recovery_attempt E st) = no_l2 st"
    "no_l2 (advance_watermark cfg m ids st) = no_l2 st"
    by (simp_all add: no_l2_def credit_pending_on_flush_def recovery_attempt_def advance_watermark_def Let_def split: option.split)
  have "no_l2 ((write_checkpoint E now st)\<lparr>st_last_flush := now\<rparr>) = no_l2 (write_checkpoint E now st)" by (simp add: no_l2_def)
  then show "no_l2 (blocking_checkpoint E cfg now st) = no_l2 st" using w by (simp add: blocking_checkpoint_def)
qed

lemma no_l2_deliver:
  assumes "deliver_batch E cfg now outs st = (r, st')" "no_l2 st"
  shows "no_l2 st'"
proof -
  define st1 where "st1 = st\<lparr>st_ledger := map_option (track_outputs now outs) (st_ledger st)\<rparr>"
  obtain w s1 where w: "sk_write_batch (se_sink E) outs (st_sink st1) = (w, s1)" by force
  show ?thesis
  proof (cases w)
    case (Inl e)
    then show ?thesis using assms w by (auto simp: deliver_batch_def st1_def no_l2_def Let_def)
  next
    case (Inr br)
    define st2 where "st2 = advance_watermark cfg (l2_seqs outs) (br_delivered br)
      (st1\<lparr>st_sink := s1, st_ledger := map_option (mark_each_failed now (map (\<lambda>(i, err). (i, display_error err)) (br_failed br)))
        (ack_ledger (br_delivered br) (st_ledger st1))\<rparr>)"
    have "no_l2 st2" unfolding st2_def no_l2_frame using assms(2) by (simp add: no_l2_def st1_def)
    then show ?thesis
      using assms(1) w Inr unfolding deliver_batch_def Let_def st1_def [symmetric] by (auto simp: st2_def [symmetric] no_l2_def split: if_splits prod.splits sum.splits)
  qed
qed

text \<open>A sink that takes every batch and flush, and a policy that skips failed events.\<close>

definition sink_steady :: "('n, 'c, 'f) sink_env \<Rightarrow> sink_cfg \<Rightarrow> bool" where
  "sink_steady E cfg \<longleftrightarrow> sink_accepts (se_sink E) \<and> (\<forall>n. fst (sk_flush (se_sink E) n) = Inr ()) \<and> sc_failure_policy cfg = SkipToDlq"

lemma deliver_batch_steady:
  assumes "sink_steady E cfg" "no_l2 st"
  shows "\<exists>st'. deliver_batch E cfg now outs st = (Inr (), st') \<and> no_l2 st'"
proof -
  define st1 where "st1 = st\<lparr>st_ledger := map_option (track_outputs now outs) (st_ledger st)\<rparr>"
  obtain br s1 where w: "sk_write_batch (se_sink E) outs (st_sink st1) = (Inr br, s1)"
    using assms(1) by (metis isl_def sink_steady_def sink_accepts_def old.sum.exhaust prod.collapse)
  have "fst (deliver_batch E cfg now outs st) = Inr ()"
    using w assms(1) unfolding deliver_batch_def Let_def st1_def [symmetric] by (simp add: sink_steady_def)
  then show ?thesis using no_l2_deliver [of E cfg now outs st _ "snd (deliver_batch E cfg now outs st)"] assms(2)
    by (metis prod.collapse)
qed

lemma flush_cycle_steady:
  assumes "sink_steady E cfg" "no_l2 st"
  shows "\<exists>st'. flush_cycle E cfg now st = (Inr (), st') \<and> no_l2 st'"
proof -
  define st1 where "st1 = st\<lparr>st_flush_tuner := map_option (\<lambda>t. snd (flush_report (se_f64 E) now (st_events_since_last_flush st)
     (st_acked_since_last_flush st) t)) (st_flush_tuner st)\<rparr>"
  obtain s1 where w: "sk_flush (se_sink E) (st_sink st1) = (Inr (), s1)"
    using assms(1) by (metis sink_steady_def prod.collapse)
  define st2 where "st2 = recovery_attempt E (eo2_gc_sweep E cfg now (write_checkpoint E now (credit_pending_on_flush (st1\<lparr>st_sink := s1\<rparr>))))"
  have "no_l2 (st1\<lparr>st_sink := s1\<rparr>)" using assms(2) by (simp add: no_l2_def st1_def)
  then have "no_l2 st2" by (simp add: st2_def)
  then show ?thesis unfolding flush_cycle_def Let_def st1_def [symmetric] w by (simp add: st2_def [symmetric] no_l2_def)
qed

lemma sink_batch_steady:
  assumes "sink_steady E cfg" "no_l2 st"
  shows "\<exists>st'. sink_batch E cfg now outs st = (Inr (), st') \<and> no_l2 st'"
proof -
  obtain st1 where d: "deliver_batch E cfg now outs st = (Inr (), st1)" "no_l2 st1" using deliver_batch_steady [OF assms] by blast
  define st2 where "st2 = blocking_checkpoint E cfg now st1"
  have n2: "no_l2 st2" using d(2) by (simp add: st2_def)
  have cap: "st_capacity st1 = None" using d(2) by (simp add: no_l2_def)
  define st3 where "st3 = st2\<lparr>st_pending_count := st_pending_count st2 + of_nat (length outs)\<rparr>"
  have n3: "no_l2 st3" using n2 by (simp add: st3_def no_l2_def)
  show ?thesis
    using d(1) cap n2 n3 flush_cycle_steady [OF assms(1) n3, of now]
    by (simp add: sink_batch_def st2_def [symmetric] Let_def st3_def [symmetric])
qed

lemma sink_finish_steady:
  assumes "sink_steady E cfg"
  shows "\<exists>st'. sink_finish E cfg now st = (Inr (), st')"
  using sink_finish_ok [of E st cfg now] assms by (metis sink_steady_def prod.collapse)

text \<open>One batch through all three tasks.\<close>

definition idle_pipe :: "event list list \<Rightarrow> (event list list, 'p, 'n, 'c, 'k, 'f) pipe \<Rightarrow> bool" where
  "idle_pipe bs p \<longleftrightarrow> fresh_pipe p \<and> ps_source p = Direct bs \<and> ps_kind p = Pull \<and> ps_gate p = None \<and> ps_chain p = None \<and> no_l2 (ps_sink p)"

lemma batch_passes:
  assumes "idle_pipe (evs # bs) p" "pe_source E = list_source" "evs \<noteq> []"
    and "pe_source_buffer_capacity E > 0" "pe_sink_buffer_capacity E > 0" "sink_steady (pe_sink E) (pe_cfg E)"
    and "pr_process_batch (pe_processor E) evs (ps_proc p) = (Inr outs, x)"
  shows "\<exists>as q. pipe_exec E as p = Some ([evs], [outs], q) \<and> idle_pipe bs q \<and> ps_proc q = x"
proof -
  have f: "ps_src_pc p = SrcTop" "ps_proc_pc p = ProcTop" "ps_sink_pc p = SinkPop" "ps_src_ring p = []" "ps_sink_ring p = []"
    "\<not> ps_shutdown p" "ps_src_open p" "ps_sink_open p" "ps_source p = Direct (evs # bs)" "ps_kind p = Pull" "ps_gate p = None"
    "ps_chain p = None" "no_l2 (ps_sink p)"
    using assms(1) by (simp_all add: idle_pipe_def fresh_pipe_def)
  define p1 where "p1 = (on_metrics (add_received (length evs)) p)\<lparr>ps_source := Direct bs, ps_src_ring := [evs]\<rparr>"
  have e1: "pipe_exec E [SourceAct, SourceAct, SourceAct, SourceAct, SourceAct] p = Some ([evs], [], p1)"
    using source_hands_over [of p evs bs E] f assms(2-4) by (simp add: p1_def no_l2_def)
  define p2 where "p2 = (on_metrics (add_processed (length evs)) (p1\<lparr>ps_src_ring := [], ps_proc := x\<rparr>))\<lparr>ps_sink_ring := [outs]\<rparr>"
  have e2: "pipe_exec E [ProcessorAct 0, ProcessorAct 0, ProcessorAct 0] p1 = Some ([], [], p2)"
    using f assms(5,7) by (simp add: processor_task_def process_popped_def poh_append_batch_def fetched_by_def p1_def p2_def on_metrics_def)
  have n2: "no_l2 (ps_sink p2)" using f(13) by (simp add: p2_def p1_def on_metrics_def no_l2_def)
  obtain st where st: "sink_batch (pe_sink E) (pe_cfg E) 0 outs (ps_sink p2) = (Inr (), st)" "no_l2 st"
    using sink_batch_steady [OF assms(6) n2] by blast
  define q where "q = p2\<lparr>ps_sink_ring := [], ps_sink := st\<rparr>"
  have "ps_sink_pc p2 = SinkPop" "ps_sink_ring p2 = [outs]" using f by (simp_all add: p2_def p1_def)
  then have e3: "pipe_exec E [SinkAct 0] p2 = Some ([], [outs], q)"
    using st(1) by (simp add: sink_task_def fetched_by_def q_def)
  have "idle_pipe bs q \<and> ps_proc q = x"
    using f st(2) by (simp add: q_def p2_def p1_def idle_pipe_def fresh_pipe_def)
  moreover have "pipe_exec E ([SourceAct, SourceAct, SourceAct, SourceAct, SourceAct] @ [ProcessorAct 0, ProcessorAct 0, ProcessorAct 0] @ [SinkAct 0]) p
      = Some ([evs], [outs], q)"
    using pipe_exec_append [OF e1 pipe_exec_append [OF e2 e3]] by simp
  ultimately show ?thesis by blast
qed

definition completed :: "('s, 'p, 'n, 'c, 'k, 'f) pipe \<Rightarrow> bool" where
  "completed q \<longleftrightarrow> pipe_result q = Some (Inr ()) \<and> ps_src_ring q = [] \<and> ps_sink_ring q = [] \<and> \<not> ps_shutdown q"

lemma pipe_ends:
  assumes "idle_pipe [] p" "pe_source E = list_source" "sink_steady (pe_sink E) (pe_cfg E)"
  shows "\<exists>as q. pipe_exec E as p = Some ([], [], q) \<and> completed q \<and> ps_proc q = ps_proc p"
proof -
  have f: "ps_src_pc p = SrcTop" "ps_proc_pc p = ProcTop" "ps_sink_pc p = SinkPop" "ps_src_ring p = []" "ps_sink_ring p = []"
    "\<not> ps_shutdown p" "ps_source p = Direct []" "ps_kind p = Pull" "ps_gate p = None" "st_capacity (ps_sink p) = None"
    using assms(1) by (simp_all add: idle_pipe_def fresh_pipe_def no_l2_def)
  define p1 where "p1 = p\<lparr>ps_src_pc := SrcDone (Inr ()), ps_src_open := False\<rparr>"
  have e1: "pipe_exec E [SourceAct, SourceAct, SourceAct, SourceAct] p = Some ([], [], p1)"
    unfolding p1_def by (rule source_ends) (use f assms(2) in simp_all)
  define p2 where "p2 = p1\<lparr>ps_proc_pc := ProcDone (Inr ()), ps_sink_open := False, ps_sink_pc := SinkEmpty\<rparr>"
  have e2: "pipe_exec E [ProcessorAct 0, ProcessorAct 0, ProcessorAct 0, SinkAct 0] p1 = Some ([], [], p2)"
    using f by (simp add: processor_task_def sink_task_def proc_finish_def fetched_by_def p1_def p2_def)
  obtain st where st: "sink_finish (pe_sink E) (pe_cfg E) 0 (ps_sink p2) = (Inr (), st)"
    using sink_finish_steady [OF assms(3)] by blast
  define q where "q = p2\<lparr>ps_sink := st, ps_sink_pc := SinkDone (Inr ())\<rparr>"
  have e3: "pipe_exec E [SinkAct 0] p2 = Some ([], [], q)"
    using st by (simp add: sink_task_def fetched_by_def q_def p2_def)
  have "completed q \<and> ps_proc q = ps_proc p" using f by (simp add: completed_def pipe_result_def q_def p2_def p1_def)
  then show ?thesis using pipe_exec_append [OF e1 pipe_exec_append [OF e2 e3]] unfolding append_Nil by blast
qed

lemma list_passes:
  assumes "pe_source E = list_source" "pe_source_buffer_capacity E > 0" "pe_sink_buffer_capacity E > 0" "sink_steady (pe_sink E) (pe_cfg E)"
  shows "idle_pipe bs p \<Longrightarrow> [] \<notin> set bs \<Longrightarrow> proc_run (pe_processor E) bs (ps_proc p) = Some (outs, x) \<Longrightarrow>
    \<exists>as q. pipe_exec E as p = Some (bs, outs, q) \<and> completed q \<and> ps_proc q = x"
proof (induction bs arbitrary: p outs)
  case Nil
  then show ?case using pipe_ends [OF Nil(1) assms(1,4)] by auto
next
  case (Cons evs bs)
  then obtain os y outs' where b: "pr_process_batch (pe_processor E) evs (ps_proc p) = (Inr os, y)"
    "proc_run (pe_processor E) bs y = Some (outs', x)" "outs = os # outs'"
    by (auto split: prod.splits sum.splits)
  have ne: "evs \<noteq> []" using Cons.prems(2) by auto
  obtain as q where q: "pipe_exec E as p = Some ([evs], [os], q)" "idle_pipe bs q" "ps_proc q = y"
    using batch_passes [OF Cons.prems(1) assms(1) ne assms(2-4) b(1)] by blast
  obtain as' q' where q': "pipe_exec E as' q = Some (bs, outs', q')" "completed q'" "ps_proc q' = x"
    using Cons.IH [OF q(2)] Cons.prems(2) b(2) q(3) by auto
  show ?case using pipe_exec_append [OF q(1) q'(1)] q'(2,3) unfolding b(3) by auto
qed

lemma run_buffered_idle:
  assumes "pe_source E = list_source" "pf_l2_registry cf = None" "pf_write_gate cf = None" "pf_capacity cf = None" "pf_chain cf = None"
    and "run_buffered E cf now bs processor sink metrics ledger = Some (Inr p)"
  shows "idle_pipe bs p"
proof -
  have "st_registry (ps_sink p) = None" "ps_chain p = None" using assms(2,5,6)
    by (auto simp: run_buffered_def sink_start_def Let_def split: sum.splits)
  then show ?thesis
    using run_buffered_list [OF assms(1-4,6)] run_buffered_fresh [OF assms(6)] by (simp add: idle_pipe_def no_l2_def)
qed

text \<open>
  C22: with rings that hold at least one batch, a source that hands out a list, a processor that fails on none
  of its batches and a sink that refuses nothing, the tasks can always be scheduled to the end: the pipeline
  ends without error and every batch has been processed and handed to the sink in order.
\<close>

theorem buffered_can_complete:
  assumes "pe_source E = list_source" "pe_source_buffer_capacity E > 0" "pe_sink_buffer_capacity E > 0" "sink_steady (pe_sink E) (pe_cfg E)"
    and "[] \<notin> set bs" "pf_l2_registry cf = None" "pf_write_gate cf = None" "pf_capacity cf = None" "pf_chain cf = None"
    and "run_buffered E cf now bs processor sink metrics ledger = Some (Inr p)"
    and "proc_run (pe_processor E) bs processor = Some (outs, x)"
  shows "\<exists>q. pipe_run E p bs outs q \<and> completed q \<and> ps_proc q = x"
  using list_passes [OF assms(1-4) run_buffered_idle [OF assms(1,6-10)] assms(5)] assms(11) run_buffered_proc [OF assms(10)]
  by (blast intro: exec_run)

section \<open>A sample pipeline\<close>

definition sample_processor :: "unit processor_ops" where
  "sample_processor =
     \<lparr>pr_process_batch = \<lambda>evs p. (Inr (map (\<lambda>ev. output_new ''d'' (ev_payload ev)) evs), p), pr_snapshot_state = \<lambda>_. Inr [],
      pr_restore_state = \<lambda>_ p. (Inr (), p)\<rparr>"

definition steady_sink :: "unit sink_ops" where
  "steady_sink = \<lparr>sk_write_batch = \<lambda>outs n. (Inr (all_delivered (filter_map out_source_event_id outs)), n), sk_flush = \<lambda>n. (Inr (), n)\<rparr>"

definition sample_pipe_env :: "(event list list, unit, unit, wal_store, nat, unit) pipe_env" where
  "sample_pipe_env =
     \<lparr>pe_source = list_source, pe_order = \<lambda>gs. gs, pe_processor = sample_processor, pe_sink = sample_env\<lparr>se_sink := steady_sink\<rparr>,
      pe_cfg = sample_cfg, pe_digest = tail_digest, pe_signer = sample_signer, pe_key = None,
      pe_source_buffer_capacity = 1, pe_sink_buffer_capacity = 1\<rparr>"

definition plain_config :: "(wal_store, unit) pipe_config" where
  "plain_config = \<lparr>pf_partition_reassign = False, pf_durability = DurNone, pf_l2_registry = None, pf_capacity = None,
     pf_write_gate = None, pf_chain = None, pf_writer = None, pf_shared_ack_tracker = None\<rparr>"

lemma sample_pipe_starts: "\<exists>p. run_buffered sample_pipe_env plain_config 0 bs () () metrics_new None = Some (Inr p)"
  by (simp add: run_buffered_def sample_pipe_env_def plain_config_def list_source_def reject_broker_coord_with_reassign_def Let_def
      sink_start_def start_tuner_def)

lemma sample_pipe_steady: "sink_steady (pe_sink sample_pipe_env) (pe_cfg sample_pipe_env)"
  by (simp add: sink_steady_def sink_accepts_def sample_pipe_env_def sample_env_def steady_sink_def sample_cfg_def)

lemma sample_pipe_fields [simp]:
  "pe_source sample_pipe_env = list_source" "pe_processor sample_pipe_env = sample_processor"
  "pe_source_buffer_capacity sample_pipe_env = 1" "pe_sink_buffer_capacity sample_pipe_env = 1"
  "pf_l2_registry plain_config = None" "pf_write_gate plain_config = None" "pf_capacity plain_config = None" "pf_chain plain_config = None"
  by (simp_all add: sample_pipe_env_def plain_config_def)

lemma sample_pipe_run:
  "run_buffered sample_pipe_env plain_config 0 bs () () metrics_new None = Some (Inr p) \<Longrightarrow> [] \<notin> set bs \<Longrightarrow>
   \<exists>q. pipe_run sample_pipe_env p bs (map (map (\<lambda>ev. output_new ''d'' (ev_payload ev))) bs) q \<and> completed q"
proof -
  assume p: "run_buffered sample_pipe_env plain_config 0 bs () () metrics_new None = Some (Inr p)" "[] \<notin> set bs"
  have "proc_run (pe_processor sample_pipe_env) bs x = Some (map (map (\<lambda>ev. output_new ''d'' (ev_payload ev))) bs, x)" for x bs
    by (induction bs) (simp_all add: sample_processor_def)
  then show ?thesis
    using list_passes [OF _ _ _ sample_pipe_steady run_buffered_idle [OF _ _ _ _ _ p(1)] p(2)] by (auto intro: exec_run)
qed

theorem buffered_accounts_for_batches_witness:
  "\<exists>p q ds. run_buffered sample_pipe_env plain_config 0 [[sample_event], [sample_event]] () () metrics_new None = Some (Inr p) \<and>
     pipe_run sample_pipe_env p [[sample_event], [sample_event]] ds q \<and>
     proc_run sample_processor [[sample_event], [sample_event]] () = Some (ds, ps_proc q)"
proof -
  let ?bs = "[[sample_event], [sample_event]]"
  obtain p where p: "run_buffered sample_pipe_env plain_config 0 ?bs () () metrics_new None = Some (Inr p)"
    using sample_pipe_starts by blast
  obtain q ds where q: "pipe_run sample_pipe_env p ?bs ds q" "completed q" using sample_pipe_run [OF p] by auto
  show ?thesis using buffered_accounts_for_batches [OF p q(1)] p q by (auto simp: completed_def)
qed


theorem buffered_can_complete_witness:
  "\<exists>p q. run_buffered sample_pipe_env plain_config 0 [[sample_event], [sample_event]] () () metrics_new None = Some (Inr p) \<and>
     pipe_run sample_pipe_env p [[sample_event], [sample_event]]
       [[output_new ''d'' (ev_payload sample_event)], [output_new ''d'' (ev_payload sample_event)]] q \<and> completed q"
proof -
  let ?bs = "[[sample_event], [sample_event]]"
  obtain p where p: "run_buffered sample_pipe_env plain_config 0 ?bs () () metrics_new None = Some (Inr p)"
    using sample_pipe_starts by blast
  then show ?thesis
    using buffered_can_complete [OF _ _ _ sample_pipe_steady _ _ _ _ _ p] by (simp add: sample_processor_def)
qed

theorem finished_pipeline_drops_batch_witness:
  "\<exists>p q. run_buffered sample_pipe_env plain_config 0 [[sample_event]] () () metrics_new None = Some (Inr p) \<and>
     pipe_run sample_pipe_env p [[sample_event]] [] q \<and> pipe_result q = Some (Inr ()) \<and> ps_src_ring q = [[sample_event]]"
proof -
  obtain p where p: "run_buffered sample_pipe_env plain_config 0 [[sample_event]] () () metrics_new None = Some (Inr p)"
    using sample_pipe_starts by blast
  moreover have "fst (sk_flush (se_sink (pe_sink sample_pipe_env)) ()) = Inr ()"
    using sample_pipe_steady by (simp add: sink_steady_def)
  ultimately show ?thesis using finished_pipeline_drops_batch [OF _ _ _ _ _ p] by auto
qed

definition refusing_env :: "(event list list, unit, unit, wal_store, nat, unit) pipe_env" where
  "refusing_env = sample_pipe_env\<lparr>pe_sink := sample_env\<lparr>se_sink := \<lparr>sk_write_batch = \<lambda>_ n. (Inl (Timeout ''sink''), n),
     sk_flush = \<lambda>n. (Inr (), n)\<rparr>\<rparr>\<rparr>"

definition one_batch :: "pipe_act list" where
  "one_batch = replicate 5 SourceAct @ replicate 3 (ProcessorAct 0)"

definition stuck :: "(event list list, unit, unit, wal_store, unit, nat) pipe \<Rightarrow> bool" where
  "stuck q \<longleftrightarrow> ps_sink_pc q = SinkDone (Inl (Timeout ''sink'')) \<and>
     ps_proc_pc q = ProcPush [output_new ''d'' (ev_payload sample_event)] \<and> length (ps_sink_ring q) = 1"

lemma refusing_sink_stuck:
  "(case run_buffered refusing_env plain_config 0 (replicate 3 [sample_event]) () () metrics_new None of
      Some (Inr p) \<Rightarrow> (case pipe_exec refusing_env (one_batch @ [SinkAct 0] @ one_batch @ one_batch) p of
                        Some (_, _, q) \<Rightarrow> stuck q | None \<Rightarrow> False)
    | _ \<Rightarrow> False)"
  by code_simp


end
