(* ===== verification/Spec2Isabelle.thy ===== *)
theory Spec2Isabelle
  imports Batch_Wire Raft_Log Rebalance_Plan Partition_Transfer Sink_Task Handover Pipeline
begin

text \<open>
  Aeon: a partitioned stream-processing engine written in Rust.

  Theories: Aeon_Prelude, Aeon_Maps, Aeon_Types, Byte_Codec, Batch_Wire.
\<close>

end
